theory Spec2Isabelle
  imports Main "HOL-Library.Word"
begin

unbundle bit_operations_syntax

section \<open>Multi-threaded AES-CTR cipher (cipher-ctr-mt.c)\<close>

subsection \<open>Tunables and constants\<close>

type_synonym u8 = "8 word"
type_synonym u16 = "16 word"
type_synonym u32 = "32 word"

definition MAX_THREADS :: int where
  "MAX_THREADS = 6"

definition MAX_NUMKQ :: int where
  "MAX_NUMKQ = MAX_THREADS * 4"

definition KQLEN :: nat where
  "KQLEN = 8192"

definition AES_BLOCK_SIZE :: nat where
  "AES_BLOCK_SIZE = 16"

subsection \<open>Counter\<close>

text \<open>
  A counter is an array of bytes in network byte order: the most significant byte is at
  index 0, the least significant one at index \<open>len - 1\<close>. \<open>be_val\<close> reads such an array
  as an unsigned integer.
\<close>

definition be_val :: "u8 list \<Rightarrow> nat" where
  "be_val bs = foldl (\<lambda>a b. 256 * a + unat b) 0 bs"

text \<open>
  Both counter routines walk the array with \<open>int i\<close>, initialised from the unsigned
  expression \<open>len - 1\<close>. \<open>c_int_of_len_minus_1\<close> is that initialisation: the subtraction
  wraps in the unsigned type and the conversion to a 32-bit \<open>int\<close> keeps the low 32 bits
  as a two's complement value.
\<close>

definition c_int_of_len_minus_1 :: "nat \<Rightarrow> int" where
  "c_int_of_len_minus_1 len = sint (word_of_nat len - 1 :: u32)"

text \<open>
  \<^verbatim>\<open>for (i = len - 1; i >= 0; i--) if (++ctr[i]) return;\<close>
\<close>

function ssh_ctr_inc_loop :: "u8 list \<Rightarrow> int \<Rightarrow> u8 list" where
  "ssh_ctr_inc_loop ctr i =
     (if i \<ge> 0 then
        (let c = ctr ! nat i + 1;
             ctr' = ctr[nat i := c]
         in if c \<noteq> 0 then ctr' else ssh_ctr_inc_loop ctr' (i - 1))
      else ctr)"
  by pat_completeness auto
termination
  by (relation "measure (\<lambda>(ctr, i). nat (i + 1))") auto

declare ssh_ctr_inc_loop.simps [simp del]

definition ssh_ctr_inc :: "u8 list \<Rightarrow> nat \<Rightarrow> u8 list" where
  "ssh_ctr_inc ctr len = ssh_ctr_inc_loop ctr (c_int_of_len_minus_1 len)"

text \<open>
  \<^verbatim>\<open>for (n = 0, i = len - 1; i >= 0 && (num || n); i--) {
    n = ctr[i] + (num & 0xff) + n;  num >>= 8;  ctr[i] = n & 0xff;  n >>= 8; }\<close>
  with \<open>uint32_t num\<close> and \<open>uint16_t n\<close>.
\<close>

function ssh_ctr_add_loop :: "u8 list \<Rightarrow> u32 \<Rightarrow> u16 \<Rightarrow> int \<Rightarrow> u8 list" where
  "ssh_ctr_add_loop ctr num n i =
     (if i \<ge> 0 \<and> (num \<noteq> 0 \<or> n \<noteq> 0) then
        (let n1 = (ucast (ctr ! nat i) :: u16) + ucast (num AND 0xff) + n;
             num' = drop_bit 8 num;
             ctr' = ctr[nat i := ucast (n1 AND 0xff)];
             n' = drop_bit 8 n1
         in ssh_ctr_add_loop ctr' num' n' (i - 1))
      else ctr)"
  by pat_completeness auto
termination
  by (relation "measure (\<lambda>(ctr, num, n, i). nat (i + 1))") auto

declare ssh_ctr_add_loop.simps [simp del]

definition ssh_ctr_add :: "u8 list \<Rightarrow> u32 \<Rightarrow> nat \<Rightarrow> u8 list" where
  "ssh_ctr_add ctr num len = ssh_ctr_add_loop ctr num 0 (c_int_of_len_minus_1 len)"

subsection \<open>Keystream queues\<close>

type_synonym block = "u8 list"

datatype qstate = KQINIT | KQEMPTY | KQFILLING | KQFULL | KQDRAINING

text \<open>\<^verbatim>\<open>struct kq\<close>: the keystream blocks, the counter and the state tag. The lock and
  the condition variable are not data; the padding is left out.\<close>

record kq =
  kq_keys :: "block list"
  kq_ctr :: "u8 list"
  kq_qstate :: qstate

text \<open>
  The block cipher is libcrypto's. A producer drives it through an \<open>EVP_CIPHER_CTX\<close> in
  CTR mode, of which the model keeps the key and the running counter. The AES block
  function itself is a parameter \<open>E\<close> (key, then input block) of everything below.

  Modelled from the spec: \<open>EVP_EncryptInit_ex\<close> and \<open>EVP_EncryptUpdate\<close> of libcrypto's
  AES-CTR, which this repository only calls: an update with one block of input returns
  the input XOR \<open>E key counter\<close> and steps the 16-byte big-endian counter by one.
\<close>

record evp_cipher_ctx =
  evp_key :: "u8 list"
  evp_iv :: "u8 list"

definition xor_block :: "block \<Rightarrow> block \<Rightarrow> block" where
  "xor_block a b = map2 (XOR) a b"

definition EVP_EncryptInit_key :: "evp_cipher_ctx \<Rightarrow> u8 list \<Rightarrow> evp_cipher_ctx" where
  "EVP_EncryptInit_key ctx key = ctx\<lparr>evp_key := key\<rparr>"

definition EVP_EncryptInit_iv :: "evp_cipher_ctx \<Rightarrow> u8 list \<Rightarrow> evp_cipher_ctx" where
  "EVP_EncryptInit_iv ctx iv = ctx\<lparr>evp_iv := iv\<rparr>"

definition EVP_EncryptUpdate ::
  "(u8 list \<Rightarrow> block \<Rightarrow> block) \<Rightarrow> evp_cipher_ctx \<Rightarrow> block \<Rightarrow> block \<times> evp_cipher_ctx" where
  "EVP_EncryptUpdate E ctx inp =
     (xor_block (E (evp_key ctx) (evp_iv ctx)) inp,
      ctx\<lparr>evp_iv := ssh_ctr_inc (evp_iv ctx) AES_BLOCK_SIZE\<rparr>)"

definition mynull :: block where
  "mynull = replicate AES_BLOCK_SIZE 0"

text \<open>
  The fill loop of \<open>thread_loop\<close>, the same in the startup case and in the normal case:
  \<^verbatim>\<open>for (i = 0; i < KQLEN; i++) {
    EVP_EncryptUpdate(aesni_ctx, q->keys[i], &outlen, mynull, AES_BLOCK_SIZE);
    ssh_ctr_inc(q->ctr, AES_BLOCK_SIZE); }\<close>
\<close>

definition fill_slot ::
  "(u8 list \<Rightarrow> block \<Rightarrow> block) \<Rightarrow> nat \<Rightarrow> evp_cipher_ctx \<times> kq \<Rightarrow> evp_cipher_ctx \<times> kq" where
  "fill_slot E i cq =
     (let (out, ctx') = EVP_EncryptUpdate E (fst cq) mynull;
          q = snd cq
      in (ctx', q\<lparr>kq_keys := (kq_keys q)[i := out],
                   kq_ctr := ssh_ctr_inc (kq_ctr q) AES_BLOCK_SIZE\<rparr>))"

function fill_loop ::
  "(u8 list \<Rightarrow> block \<Rightarrow> block) \<Rightarrow> nat \<Rightarrow> evp_cipher_ctx \<times> kq \<Rightarrow> evp_cipher_ctx \<times> kq" where
  "fill_loop E i cq = (if i < KQLEN then fill_loop E (i + 1) (fill_slot E i cq) else cq)"
  by pat_completeness auto
termination
  by (relation "measure (\<lambda>(E, i, cq). KQLEN - i)") auto

declare fill_loop.simps [simp del]

text \<open>\<open>KQLEN * (numkq - 1)\<close> is computed in \<open>int\<close> and passed as \<open>uint32_t\<close>.\<close>

definition ring_advance :: "int \<Rightarrow> u32" where
  "ring_advance numkq = word_of_int (int KQLEN * (numkq - 1))"

text \<open>
  One fill pass over a queue, from the counter being handed to the cipher to the bulk
  add. \<open>fill_pass\<close> is what the startup case does under the lock of queue 0 and what
  the normal case does between marking the queue \<open>KQFILLING\<close> and marking it \<open>KQFULL\<close>.
\<close>

definition fill_pass ::
  "(u8 list \<Rightarrow> block \<Rightarrow> block) \<Rightarrow> int \<Rightarrow> evp_cipher_ctx \<Rightarrow> kq \<Rightarrow> evp_cipher_ctx \<times> kq" where
  "fill_pass E numkq ctx q =
     (let (ctx', q') = fill_loop E 0 (EVP_EncryptInit_iv ctx (kq_ctr q), q)
      in (ctx', q'\<lparr>kq_ctr := ssh_ctr_add (kq_ctr q') (ring_advance numkq) AES_BLOCK_SIZE\<rparr>))"

subsection \<open>Reference counter arithmetic\<close>

text \<open>
  The reference the counter routines and the keystream are compared with: a counter of
  \<open>n\<close> bytes holding the number \<open>v\<close>, and a counter moved \<open>n\<close> blocks ahead, modulo the
  width of the array. These follow the spec's words ("fixed-width big-endian byte
  counter with wraparound"), not the code.
\<close>

fun be_bytes :: "nat \<Rightarrow> nat \<Rightarrow> u8 list" where
  "be_bytes 0 v = []"
| "be_bytes (Suc n) v = be_bytes n (v div 256) @ [of_nat (v mod 256)]"

definition ctr_plus :: "u8 list \<Rightarrow> nat \<Rightarrow> u8 list" where
  "ctr_plus c n = be_bytes (length c) ((be_val c + n) mod 256 ^ length c)"

subsection \<open>The cipher context and the process around it\<close>

definition HAVE_NONE :: int where
  "HAVE_NONE = 0"

definition HAVE_KEY :: int where
  "HAVE_KEY = 1"

definition HAVE_IV :: int where
  "HAVE_IV = 2"

type_synonym addr = nat
type_synonym pthread_t = nat

text \<open>\<^verbatim>\<open>struct ssh_aes_ctr_ctx_mt\<close>. \<open>c_orig_key\<close> is a pointer into the caller's memory
  (\<open>None\<close> is \<open>NULL\<close>); \<open>c_aes_key\<close> holds the bytes of the expanded key schedule. The locks
  are not data.\<close>

record ssh_aes_ctr_ctx_mt =
  c_struct_id :: int
  c_keylen :: int
  c_state :: int
  c_qidx :: int
  c_ridx :: int
  c_id :: "int list"
  c_aes_key :: "u8 list"
  c_orig_key :: "addr option"
  c_aes_counter :: "u8 list"
  c_tid :: "pthread_t list"
  c_q :: "kq list"

text \<open>libcrypto's \<open>EVP_CIPHER_CTX\<close>, as far as this cipher reads and writes it: the
  application data pointer and the key length in bytes.\<close>

record EVP_CIPHER_CTX =
  app_data :: "addr option"
  key_length :: int

datatype event =
    Cancel pthread_t
  | Join pthread_t
  | JoinInvalid pthread_t
  | Create pthread_t
  | CreateFailed

text \<open>
  The process: the heap blocks that hold cipher contexts, the caller's byte buffers (keys
  and IVs), the blocks already given back to the allocator with the content they had at
  that moment, the producer threads that exist and have not been joined, the next
  thread id, the thread operations performed so far, oldest first, and the three global
  variables of the file (\<open>cipher_threads\<close>, \<open>numkq\<close> and \<open>X\<close>).
\<close>

record world =
  w_heap :: "addr \<rightharpoonup> ssh_aes_ctr_ctx_mt"
  w_mem :: "addr \<rightharpoonup> u8 list"
  w_released :: "ssh_aes_ctr_ctx_mt list"
  w_threads :: "pthread_t list"
  w_next_tid :: pthread_t
  w_log :: "event list"
  g_cipher_threads :: int
  g_numkq :: int
  g_X :: int

text \<open>
  What the platform answers during one call of \<open>ssh_aes_ctr_init\<close>: the number of online
  processors, the content of \<^verbatim>\<open>/sys/devices/system/cpu/smt/active\<close> (0 when the file is
  missing), the block \<open>xmalloc\<close> returns (\<open>None\<close>: no memory) with the bytes it happens to
  hold, and for each \<open>pthread_create\<close> whether it succeeds.
\<close>

record platform =
  nprocs :: int
  smt_active :: int
  malloc_result :: "addr option"
  malloc_content :: ssh_aes_ctr_ctx_mt
  create_ok :: "bool list"

datatype error =
    ProcessExit int
  | BlockedForever
  | MemoryFault

text \<open>C's integer division truncates towards zero.\<close>

definition c_div :: "int \<Rightarrow> int \<Rightarrow> int" where
  "c_div a b = sgn a * sgn b * (\<bar>a\<bar> div \<bar>b\<bar>)"

text \<open>
  The sizing at the head of \<open>ssh_aes_ctr_init\<close> (the Linux branch). \<open>sysconf\<close> returns a
  \<open>long\<close> and the division is done in \<open>long\<close>; the quotient is stored in the \<open>int\<close>
  \<open>cipher_threads\<close>, which keeps its low 32 bits.
\<close>

definition sizing :: "platform \<Rightarrow> world \<Rightarrow> world" where
  "sizing p w =
     (let divisor = (if smt_active p = 1 then 4 else 2);
          t0 = sint (word_of_int (c_div (nprocs p) divisor) :: 32 word);
          t1 = (if t0 < 2 then 2 else t0);
          t2 = (if t1 > MAX_THREADS then MAX_THREADS else t1);
          n0 = t2 * 4;
          n1 = (if n0 > MAX_NUMKQ then MAX_NUMKQ else n0)
      in w\<lparr>g_cipher_threads := t2, g_numkq := n1\<rparr>)"

text \<open>
  The thread calls of the C library, as \<open>stop_and_join_pregen_threads\<close> uses them. POSIX
  defines them for the id of a thread that exists and has not been joined, which is what
  \<open>w_threads\<close> holds; for any other value of \<open>pthread_t\<close> the behaviour is undefined. In
  glibc a \<open>pthread_t\<close> is the address of the thread's descriptor and the calls read
  through it: a value that \<open>pthread_create\<close> never wrote makes the process fault. The
  model ends every undefined call with \<open>MemoryFault\<close>.
  \<^item> \<open>pthread_cancel\<close> on a thread that exists is recorded; the thread ends at its next
    cancellation point and stays joinable.
  \<^item> \<open>pthread_kill(t, 0)\<close> sends nothing. It answers 0 for a thread that exists, and glibc
    answers 0 as well for one that has been joined already (a \<open>Join\<close> in the log).
  \<^item> \<open>pthread_join\<close> on a thread that exists returns once the thread is gone; the id is
    then no longer that of a thread.
\<close>

definition pthread_cancel :: "pthread_t \<Rightarrow> world \<Rightarrow> error + world" where
  "pthread_cancel t w =
     (if t \<in> set (w_threads w) then Inr (w\<lparr>w_log := w_log w @ [Cancel t]\<rparr>)
      else Inl MemoryFault)"

definition pthread_kill0 :: "pthread_t \<Rightarrow> world \<Rightarrow> error + int" where
  "pthread_kill0 t w =
     (if t \<in> set (w_threads w) \<or> Join t \<in> set (w_log w) then Inr 0 else Inl MemoryFault)"

definition pthread_join :: "pthread_t \<Rightarrow> world \<Rightarrow> error + world" where
  "pthread_join t w =
     (if t \<in> set (w_threads w) then
        Inr (w\<lparr>w_threads := removeAll t (w_threads w), w_log := w_log w @ [Join t]\<rparr>)
      else Inl MemoryFault)"

text \<open>
  The body of the second loop of \<open>stop_and_join_pregen_threads\<close>:
  \<^verbatim>\<open>if (pthread_kill(c->tid[i], 0) != 0) debug3("... Invalid thread id ...");
  else pthread_join(c->tid[i], NULL);\<close>
\<close>

definition join_one :: "pthread_t \<Rightarrow> world \<Rightarrow> error + world" where
  "join_one t w =
     (case pthread_kill0 t w of
        Inl e \<Rightarrow> Inl e
      | Inr r \<Rightarrow>
          (if r \<noteq> 0 then Inr (w\<lparr>w_log := w_log w @ [JoinInvalid t]\<rparr>)
           else pthread_join t w))"

text \<open>
  \<open>stop_and_join_pregen_threads\<close>: two loops over \<open>i < cipher_threads\<close>, reading
  \<open>c->tid[i]\<close>; the first cancels, the second joins. \<open>cipher_threads\<close> is the global
  variable, not a field of the context. \<open>each_tid\<close> is such a loop: it stops at the
  first call that does not return.
\<close>

definition stop_tids :: "ssh_aes_ctr_ctx_mt \<Rightarrow> world \<Rightarrow> pthread_t list" where
  "stop_tids c w = take (nat (g_cipher_threads w)) (c_tid c)"

primrec each_tid ::
  "(pthread_t \<Rightarrow> world \<Rightarrow> error + world) \<Rightarrow> pthread_t list \<Rightarrow> world \<Rightarrow> error + world" where
  "each_tid f [] w = Inr w"
| "each_tid f (t # ts) w = (case f t w of Inl e \<Rightarrow> Inl e | Inr w' \<Rightarrow> each_tid f ts w')"

definition stop_and_join_pregen_threads :: "ssh_aes_ctr_ctx_mt \<Rightarrow> world \<Rightarrow> error + world" where
  "stop_and_join_pregen_threads c w =
     (case each_tid pthread_cancel (stop_tids c w) w of
        Inl e \<Rightarrow> Inl e
      | Inr w1 \<Rightarrow> each_tid join_one (stop_tids c w) w1)"

subsection \<open>Producer start-up\<close>

text \<open>
  The prologue of \<open>thread_loop\<close> picks the cipher by \<open>c->keylen\<close> and ends the process
  with \<open>exit(1)\<close> for any other length.
\<close>

definition keylen_supported :: "int \<Rightarrow> bool" where
  "keylen_supported k = (k = 256 \<or> k = 128 \<or> k = 192)"

text \<open>
  The startup case of \<open>thread_loop\<close>, run by the thread whose id is \<open>c->tid[0]\<close> with the
  lock of queue 0 held throughout: if the queue is \<open>KQINIT\<close> it is filled, its counter is
  moved on and it is marked \<open>KQDRAINING\<close>.
\<close>

definition thread_startup ::
  "(u8 list \<Rightarrow> block \<Rightarrow> block) \<Rightarrow> int \<Rightarrow> evp_cipher_ctx \<Rightarrow> kq \<Rightarrow> evp_cipher_ctx \<times> kq" where
  "thread_startup E nkq ctx qu =
     (if kq_qstate qu = KQINIT then
        (let (ctx', q') = fill_pass E nkq ctx qu in (ctx', q'\<lparr>kq_qstate := KQDRAINING\<rparr>))
      else (ctx, qu))"

subsection \<open>Initialisation\<close>

text \<open>
  Seeding the ring, once both key and IV are present:
  \<^verbatim>\<open>memcpy(c->q[0].ctr, c->aes_counter, AES_BLOCK_SIZE);
  c->q[0].qstate = KQINIT;
  for (i = 1; i < numkq; i++) {
    memcpy(c->q[i].ctr, c->aes_counter, AES_BLOCK_SIZE);
    ssh_ctr_add(c->q[i].ctr, i * KQLEN, AES_BLOCK_SIZE);
    c->q[i].qstate = KQEMPTY; }
  c->qidx = 0;  c->ridx = 0;\<close>
\<close>

definition memcpy_block :: "u8 list \<Rightarrow> u8 list" where
  "memcpy_block src = take AES_BLOCK_SIZE src"

definition seed_queue :: "u8 list \<Rightarrow> int \<Rightarrow> kq \<Rightarrow> kq" where
  "seed_queue counter i qu =
     qu\<lparr>kq_ctr := ssh_ctr_add (memcpy_block counter) (word_of_int (i * int KQLEN)) AES_BLOCK_SIZE,
        kq_qstate := KQEMPTY\<rparr>"

function seed_loop :: "int \<Rightarrow> int \<Rightarrow> ssh_aes_ctr_ctx_mt \<Rightarrow> ssh_aes_ctr_ctx_mt" where
  "seed_loop nkq i c =
     (if i < nkq then
        seed_loop nkq (i + 1)
          (c\<lparr>c_q := (c_q c)[nat i := seed_queue (c_aes_counter c) i (c_q c ! nat i)]\<rparr>)
      else c)"
  by pat_completeness auto
termination
  by (relation "measure (\<lambda>(nkq, i, c). nat (nkq - i))") auto

declare seed_loop.simps [simp del]

definition seed_ring :: "int \<Rightarrow> ssh_aes_ctr_ctx_mt \<Rightarrow> ssh_aes_ctr_ctx_mt" where
  "seed_ring nkq c =
     (let c1 = c\<lparr>c_q := (c_q c)[0 := (c_q c ! 0)\<lparr>kq_ctr := memcpy_block (c_aes_counter c),
                                               kq_qstate := KQINIT\<rparr>]\<rparr>;
          c2 = seed_loop nkq 1 c1
      in c2\<lparr>c_qidx := 0, c_ridx := 0\<rparr>)"

text \<open>
  Starting the threads: \<open>pthread_create\<close> stores the new id in \<open>c->tid[i]\<close>; on success the
  context takes a \<open>struct_id\<close> from the global \<open>X\<close> if it has none, and \<open>c->id[i] = i\<close>.
  A failure is only logged.
\<close>

definition spawn_one ::
  "platform \<Rightarrow> nat \<Rightarrow> ssh_aes_ctr_ctx_mt \<times> world \<Rightarrow> ssh_aes_ctr_ctx_mt \<times> world" where
  "spawn_one p i cw =
     (let c = fst cw; w = snd cw in
      if i < length (create_ok p) \<and> create_ok p ! i then
        (let t = w_next_tid w;
             fresh = (c_struct_id c = 0)
         in (c\<lparr>c_tid := (c_tid c)[i := t],
               c_struct_id := (if fresh then g_X w else c_struct_id c),
               c_id := (c_id c)[i := int i]\<rparr>,
             w\<lparr>w_threads := w_threads w @ [t],
               w_next_tid := t + 1,
               w_log := w_log w @ [Create t],
               g_X := (if fresh then g_X w + 1 else g_X w)\<rparr>))
      else (c, w\<lparr>w_log := w_log w @ [CreateFailed]\<rparr>))"

definition spawn_threads ::
  "platform \<Rightarrow> ssh_aes_ctr_ctx_mt \<times> world \<Rightarrow> ssh_aes_ctr_ctx_mt \<times> world" where
  "spawn_threads p cw = fold (spawn_one p) [0..<nat (g_cipher_threads (snd cw))] cw"

definition created :: "platform \<Rightarrow> world \<Rightarrow> nat list" where
  "created p w =
     filter (\<lambda>i. i < length (create_ok p) \<and> create_ok p ! i) [0..<nat (g_cipher_threads w)]"

text \<open>
  \<open>ssh_aes_ctr_init\<close> then waits until queue 0 is no longer \<open>KQINIT\<close>. What the new
  threads do meanwhile decides how the wait ends:
  \<^item> no thread was created: nobody fills queue 0 and the wait never ends;
  \<^item> the key length is not supported: a created thread ends the process with \<open>exit(1)\<close>;
  \<^item> the thread with id \<open>c->tid[0]\<close> was not created: no thread takes the startup case;
  \<^item> otherwise that thread keys its cipher from \<open>c->orig_key\<close> and runs the startup case.
  The other producers start their scan at queue 1 and wait at queue 0 while it is
  \<open>KQINIT\<close> or \<open>KQDRAINING\<close>, so what they do before the wait ends touches other queues
  only, and is left to the ring semantics below.
\<close>

definition await_first_fill ::
  "(u8 list \<Rightarrow> block \<Rightarrow> block) \<Rightarrow> platform \<Rightarrow> ssh_aes_ctr_ctx_mt \<times> world \<Rightarrow>
     error + ssh_aes_ctr_ctx_mt \<times> world" where
  "await_first_fill E p cw =
     (let c = fst cw; w = snd cw in
      if created p w = [] then Inl BlockedForever
      else if \<not> keylen_supported (c_keylen c) then Inl (ProcessExit 1)
      else if 0 \<notin> set (created p w) then Inl BlockedForever
      else
        (case c_orig_key c of
           None \<Rightarrow> Inl MemoryFault
         | Some k \<Rightarrow>
             (case w_mem w k of
                None \<Rightarrow> Inl MemoryFault
              | Some key \<Rightarrow>
                  (let ctx = EVP_EncryptInit_key \<lparr>evp_key = [], evp_iv = []\<rparr> key;
                       q0 = snd (thread_startup E (g_numkq w) ctx (c_q c ! 0))
                   in Inr (c\<lparr>c_q := (c_q c)[0 := q0]\<rparr>, w)))))"

text \<open>The first part of \<open>ssh_aes_ctr_init\<close>: find the context or allocate it.
  \<open>xmalloc\<close> does not return on failure (\<open>fatal\<close>, exit status 255).\<close>

definition attach ::
  "platform \<Rightarrow> EVP_CIPHER_CTX \<Rightarrow> world \<Rightarrow>
     error + addr \<times> ssh_aes_ctr_ctx_mt \<times> EVP_CIPHER_CTX \<times> world" where
  "attach p ctx w =
     (case app_data ctx of
        Some a \<Rightarrow>
          (case w_heap w a of
             None \<Rightarrow> Inl MemoryFault
           | Some c \<Rightarrow> Inr (a, c, ctx, w))
      | None \<Rightarrow>
          (case malloc_result p of
             None \<Rightarrow> Inl (ProcessExit 255)
           | Some a \<Rightarrow>
               (let c = (malloc_content p)\<lparr>c_state := HAVE_NONE\<rparr>
                in Inr (a, c, ctx\<lparr>app_data := Some a\<rparr>, w\<lparr>w_heap := (w_heap w)(a \<mapsto> c)\<rparr>))))"

text \<open>The rekey branch: \<^verbatim>\<open>if (c->state == (HAVE_KEY | HAVE_IV)) {
    stop_and_join_pregen_threads(c);  c->state = HAVE_NONE; }\<close>\<close>

definition rekey_reset ::
  "ssh_aes_ctr_ctx_mt \<times> world \<Rightarrow> error + ssh_aes_ctr_ctx_mt \<times> world" where
  "rekey_reset cw =
     (let c = fst cw; w = snd cw in
      if c_state c = (HAVE_KEY OR HAVE_IV) then
        (case stop_and_join_pregen_threads c w of
           Inl e \<Rightarrow> Inl e
         | Inr w' \<Rightarrow> Inr (c\<lparr>c_state := HAVE_NONE\<rparr>, w'))
      else Inr (c, w))"

text \<open>
  Installing the key. \<open>KS\<close> stands for libcrypto's \<open>AES_set_encrypt_key\<close>: from the key
  bytes and the key length in bits to the bytes of the key schedule.
\<close>

definition install_key ::
  "(u8 list \<Rightarrow> int \<Rightarrow> u8 list) \<Rightarrow> EVP_CIPHER_CTX \<Rightarrow> addr option \<Rightarrow> world \<Rightarrow>
     ssh_aes_ctr_ctx_mt \<Rightarrow> error + ssh_aes_ctr_ctx_mt" where
  "install_key KS ctx key w c =
     (case key of
        None \<Rightarrow> Inr c
      | Some k \<Rightarrow>
          (case w_mem w k of
             None \<Rightarrow> Inl MemoryFault
           | Some bytes \<Rightarrow>
               Inr (c\<lparr>c_aes_key := KS bytes (key_length ctx * 8),
                      c_orig_key := Some k,
                      c_keylen := key_length ctx * 8,
                      c_state := c_state c OR HAVE_KEY\<rparr>)))"

definition install_iv ::
  "addr option \<Rightarrow> world \<Rightarrow> ssh_aes_ctr_ctx_mt \<Rightarrow> error + ssh_aes_ctr_ctx_mt" where
  "install_iv iv w c =
     (case iv of
        None \<Rightarrow> Inr c
      | Some v \<Rightarrow>
          (case w_mem w v of
             None \<Rightarrow> Inl MemoryFault
           | Some bytes \<Rightarrow>
               Inr (c\<lparr>c_aes_counter := memcpy_block bytes,
                      c_state := c_state c OR HAVE_IV\<rparr>)))"

text \<open>The last part: with both key and IV present, seed the ring, start the threads
  and wait for queue 0.\<close>

definition start_pool ::
  "(u8 list \<Rightarrow> block \<Rightarrow> block) \<Rightarrow> platform \<Rightarrow> ssh_aes_ctr_ctx_mt \<times> world \<Rightarrow>
     error + ssh_aes_ctr_ctx_mt \<times> world" where
  "start_pool E p cw =
     (if c_state (fst cw) = (HAVE_KEY OR HAVE_IV) then
        await_first_fill E p (spawn_threads p (seed_ring (g_numkq (snd cw)) (fst cw), snd cw))
      else Inr cw)"

definition ssh_aes_ctr_init ::
  "(u8 list \<Rightarrow> int \<Rightarrow> u8 list) \<Rightarrow> (u8 list \<Rightarrow> block \<Rightarrow> block) \<Rightarrow> platform \<Rightarrow>
     EVP_CIPHER_CTX \<Rightarrow> addr option \<Rightarrow> addr option \<Rightarrow> world \<Rightarrow>
     error + int \<times> EVP_CIPHER_CTX \<times> world" where
  "ssh_aes_ctr_init KS E p ctx key iv w =
     (case attach p ctx (sizing p w) of
        Inl e \<Rightarrow> Inl e
      | Inr (a, c0, ctx1, w1) \<Rightarrow>
          (case rekey_reset (c0, w1) of
             Inl e \<Rightarrow> Inl e
           | Inr (c1, w2) \<Rightarrow>
               (case install_key KS ctx1 key w2 c1 of
                  Inl e \<Rightarrow> Inl e
                | Inr c2 \<Rightarrow>
                    (case install_iv iv w2 c2 of
                       Inl e \<Rightarrow> Inl e
                     | Inr c3 \<Rightarrow>
                         (case start_pool E p (c3, w2) of
                            Inl e \<Rightarrow> Inl e
                          | Inr (c4, w3) \<Rightarrow>
                              Inr (1, ctx1, w3\<lparr>w_heap := (w_heap w3)(a \<mapsto> c4)\<rparr>))))))"

subsection \<open>Cleanup\<close>

text \<open>
  \<^verbatim>\<open>memset(c, 0, sizeof(*c))\<close>: every byte of the structure becomes zero. Arrays keep
  their sizes, the pointer becomes \<open>NULL\<close>, and a queue state becomes the enumeration's
  first value.
\<close>

definition zero_bytes :: "u8 list \<Rightarrow> u8 list" where
  "zero_bytes bs = replicate (length bs) 0"

definition memset_kq :: "kq \<Rightarrow> kq" where
  "memset_kq qu =
     \<lparr>kq_keys = map zero_bytes (kq_keys qu), kq_ctr = zero_bytes (kq_ctr qu), kq_qstate = KQINIT\<rparr>"

definition memset_ctx :: "ssh_aes_ctr_ctx_mt \<Rightarrow> ssh_aes_ctr_ctx_mt" where
  "memset_ctx c =
     \<lparr>c_struct_id = 0, c_keylen = 0, c_state = 0, c_qidx = 0, c_ridx = 0,
      c_id = map (\<lambda>_. 0) (c_id c),
      c_aes_key = zero_bytes (c_aes_key c),
      c_orig_key = None,
      c_aes_counter = zero_bytes (c_aes_counter c),
      c_tid = map (\<lambda>_. 0) (c_tid c),
      c_q = map memset_kq (c_q c)\<rparr>"

text \<open>\<open>free(c)\<close>: the block leaves the heap; the allocator gets it as it is.\<close>

definition free_ctx :: "addr \<Rightarrow> ssh_aes_ctr_ctx_mt \<Rightarrow> world \<Rightarrow> world" where
  "free_ctx a c w = w\<lparr>w_heap := (w_heap w)(a := None), w_released := w_released w @ [c]\<rparr>"

definition ssh_aes_ctr_cleanup ::
  "EVP_CIPHER_CTX \<Rightarrow> world \<Rightarrow> error + int \<times> EVP_CIPHER_CTX \<times> world" where
  "ssh_aes_ctr_cleanup ctx w =
     (case app_data ctx of
        None \<Rightarrow> Inr (1, ctx, w)
      | Some a \<Rightarrow>
          (case w_heap w a of
             None \<Rightarrow> Inl MemoryFault
           | Some c \<Rightarrow>
               (case stop_and_join_pregen_threads c w of
                  Inl e \<Rightarrow> Inl e
                | Inr w1 \<Rightarrow>
                    (let c0 = memset_ctx c;
                         w2 = free_ctx a c0 w1
                     in Inr (1, ctx\<lparr>app_data := None\<rparr>, w2)))))"

subsection \<open>A small process for concrete runs\<close>

text \<open>
  A context in the running state as \<open>ssh_aes_ctr_init\<close> leaves it on a machine with four
  processors: two producers (thread ids 1 and 2) and eight queues in use, a 128-bit key
  in the caller's buffer at address 100, an IV at address 200, and a second, 20-byte
  key at address 300.
\<close>

definition ex_key :: "u8 list" where
  "ex_key = [1, 2, 3, 4, 5, 6, 7, 8, 9, 10, 11, 12, 13, 14, 15, 16]"

definition ex_iv :: "u8 list" where
  "ex_iv = replicate 16 0"

definition ex_key20 :: "u8 list" where
  "ex_key20 = replicate 20 7"

definition ex_kq :: kq where
  "ex_kq = \<lparr>kq_keys = replicate KQLEN (replicate 16 0xab), kq_ctr = replicate 16 0,
            kq_qstate = KQFULL\<rparr>"

definition ex_c :: ssh_aes_ctr_ctx_mt where
  "ex_c = \<lparr>c_struct_id = 1, c_keylen = 128, c_state = 3, c_qidx = 0, c_ridx = 0,
           c_id = [0, 1, 0, 0, 0, 0],
           c_aes_key = replicate 244 0x5a,
           c_orig_key = Some 100,
           c_aes_counter = ex_iv,
           c_tid = [1, 2, 0, 0, 0, 0],
           c_q = replicate 24 ex_kq\<rparr>"

definition ex_world :: world where
  "ex_world = \<lparr>w_heap = [1 \<mapsto> ex_c],
               w_mem = [100 \<mapsto> ex_key, 200 \<mapsto> ex_iv, 300 \<mapsto> ex_key20],
               w_released = [], w_threads = [1, 2], w_next_tid = 3, w_log = [],
               g_cipher_threads = 2, g_numkq = 8, g_X = 2\<rparr>"


definition ex_platform :: platform where
  "ex_platform = \<lparr>nprocs = 4, smt_active = 0, malloc_result = Some 2, malloc_content = ex_c,
                  create_ok = [True, True]\<rparr>"

definition ex_E :: "u8 list \<Rightarrow> block \<Rightarrow> block" where
  "ex_E key blk = map2 (XOR) key blk"

text \<open>
  The same process before its first call of \<open>ssh_aes_ctr_init\<close>: no context, no producer,
  the global variables at their initial values.
\<close>

definition ex_world0 :: world where
  "ex_world0 = \<lparr>w_heap = Map.empty,
                w_mem = [100 \<mapsto> ex_key, 200 \<mapsto> ex_iv, 300 \<mapsto> ex_key20],
                w_released = [], w_threads = [], w_next_tid = 1, w_log = [],
                g_cipher_threads = 2, g_numkq = 8, g_X = 0\<rparr>"



definition ex_KS :: "u8 list \<Rightarrow> int \<Rightarrow> u8 list" where
  "ex_KS key bits = take 244 (concat (replicate 16 key))"

subsection \<open>The ring at run time: producers and the consumer\<close>

text \<open>
  Where a producer thread is in \<open>thread_loop\<close>: before the startup case; at the head of
  the scan loop with its \<open>qidx\<close>; having marked queue \<open>qidx\<close> \<open>KQFILLING\<close> and released the
  lock; in the fill loop of that queue with \<open>i\<close> slots done.
\<close>

datatype ploc = PStart | PScan int | PClaimed int | PFill int nat

record producer =
  p_first :: bool
  p_loc :: ploc
  p_evp :: evp_cipher_ctx

text \<open>
  One atomic action of a producer on the ring; \<open>None\<close> when the thread is blocked in
  \<open>pthread_cond_wait\<close>.
  \<^item> \<open>PStart\<close>: the thread whose id is \<open>c->tid[0]\<close> runs the startup case with the lock of
    queue 0 held; every thread then enters the scan loop at \<open>qidx = 1\<close>.
  \<^item> \<open>PScan\<close>: with the queue's lock held, wait while the queue is \<open>KQDRAINING\<close> or
    \<open>KQINIT\<close>; skip it unless it is \<open>KQEMPTY\<close>; otherwise mark it \<open>KQFILLING\<close>.
  \<^item> \<open>PClaimed\<close>: hand the queue's counter to the cipher.
  \<^item> \<open>PFill\<close>: one slot of the fill loop, without the lock; after the last slot, with the
    lock held, the bulk add and \<open>KQFULL\<close>.
\<close>

definition prod_step ::
  "(u8 list \<Rightarrow> block \<Rightarrow> block) \<Rightarrow> int \<Rightarrow> producer \<Rightarrow> kq list \<Rightarrow> (producer \<times> kq list) option" where
  "prod_step E nkq p qs =
     (case p_loc p of
        PStart \<Rightarrow>
          (if p_first p then
             (let (ctx', q0) = thread_startup E nkq (p_evp p) (qs ! 0)
              in Some (p\<lparr>p_loc := PScan 1, p_evp := ctx'\<rparr>, qs[0 := q0]))
           else Some (p\<lparr>p_loc := PScan 1\<rparr>, qs))
      | PScan k \<Rightarrow>
          (let qu = qs ! nat k in
           if kq_qstate qu = KQDRAINING \<or> kq_qstate qu = KQINIT then None
           else if kq_qstate qu \<noteq> KQEMPTY then Some (p\<lparr>p_loc := PScan ((k + 1) mod nkq)\<rparr>, qs)
           else Some (p\<lparr>p_loc := PClaimed k\<rparr>, qs[nat k := qu\<lparr>kq_qstate := KQFILLING\<rparr>]))
      | PClaimed k \<Rightarrow>
          Some (p\<lparr>p_loc := PFill k 0,
                  p_evp := EVP_EncryptInit_iv (p_evp p) (kq_ctr (qs ! nat k))\<rparr>, qs)
      | PFill k i \<Rightarrow>
          (if i < KQLEN then
             (let (ctx', qu) = fill_slot E i (p_evp p, qs ! nat k)
              in Some (p\<lparr>p_loc := PFill k (i + 1), p_evp := ctx'\<rparr>, qs[nat k := qu]))
           else
             (let qu = qs ! nat k
              in Some (p\<lparr>p_loc := PScan ((k + 1) mod nkq)\<rparr>,
                       qs[nat k := qu\<lparr>kq_ctr := ssh_ctr_add (kq_ctr qu) (ring_advance nkq)
                                                  AES_BLOCK_SIZE,
                                      kq_qstate := KQFULL\<rparr>]))))"

text \<open>
  What \<open>ssh_aes_ctr\<close> reads of the build and of the layout of the process: whether
  \<open>CIPHER_UNALIGNED_OK\<close> and \<open>CIPHER_INT128_OK\<close> are defined, and the address of
  \<open>c->q[i].keys\<close>.
\<close>

record layout =
  l_unaligned_ok :: bool
  l_int128_ok :: bool
  l_keys_addr :: "int \<Rightarrow> nat"

text \<open>
  A buffer of the caller, \<open>src\<close> or \<open>dest\<close>: the pointer passed to \<open>ssh_aes_ctr\<close>, the
  bytes that lie there, and the pointer that moves through it (\<open>srcp\<close> or \<open>destp\<close>). The
  caller provides \<open>len\<close> bytes at each, and the two do not overlap; a block is read or
  written at a pointer into the buffer (the theorems are about buffers of \<open>len\<close> bytes,
  where no access leaves the buffer).
\<close>

record cbuf =
  b_base :: nat
  b_mem :: "u8 list"
  b_ptr :: nat

definition read_block :: "cbuf \<Rightarrow> nat \<Rightarrow> u8 list" where
  "read_block b p = take AES_BLOCK_SIZE (drop (p - b_base b) (b_mem b))"

definition write_block :: "cbuf \<Rightarrow> nat \<Rightarrow> u8 list \<Rightarrow> cbuf" where
  "write_block b p bytes =
     b\<lparr>b_mem := take (p - b_base b) (b_mem b) @ bytes @
                 drop (p - b_base b + AES_BLOCK_SIZE) (b_mem b)\<rparr>"

text \<open>
  The XOR of one block in \<open>ssh_aes_ctr\<close>. \<open>align\<close> is 0 when the build has
  \<open>CIPHER_UNALIGNED_OK\<close>, else the bitwise or of the three pointers. The 128-bit, 64-bit
  and 32-bit branches XOR the 16 bytes at \<open>srcp\<close> with the key block into the 16 bytes at
  \<open>destp\<close> (as one, two or four words); the last branch, byte by byte, is
  \<open>dest[i] = src[i] ^ buf[i]\<close> on the parameters \<open>dest\<close> and \<open>src\<close>.
\<close>

definition xor_one_block :: "layout \<Rightarrow> cbuf \<Rightarrow> cbuf \<Rightarrow> nat \<Rightarrow> u8 list \<Rightarrow> cbuf" where
  "xor_one_block L dest src bufp buf =
     (let align = (if l_unaligned_ok L then 0 else b_ptr dest OR b_ptr src OR bufp) in
      if l_int128_ok L \<and> align AND 0xf = 0 then
        write_block dest (b_ptr dest) (xor_block (read_block src (b_ptr src)) buf)
      else if align AND 0x7 = 0 then
        write_block dest (b_ptr dest) (xor_block (read_block src (b_ptr src)) buf)
      else if align AND 0x3 = 0 then
        write_block dest (b_ptr dest) (xor_block (read_block src (b_ptr src)) buf)
      else
        write_block dest (b_base dest) (xor_block (read_block src (b_base src)) buf))"

text \<open>
  Where the caller's thread is: in \<open>ssh_aes_ctr_init\<close> waiting for queue 0; outside any
  call; in \<open>ssh_aes_ctr\<close> at the head of the loop body (the source buffer with \<open>srcp\<close>,
  \<open>len\<close>, the destination buffer with \<open>destp\<close>, the local \<open>ridx\<close>); waiting for the next
  queue to be \<open>KQFULL\<close>; about to mark the old queue \<open>KQEMPTY\<close> (both with the index of the
  old queue); returned, with the return value and the bytes of the destination buffer.
  The local pointer \<open>q\<close> is \<open>&c->q[c->qidx]\<close> throughout, and is read from there.
\<close>

datatype cloc =
    CInit
  | CIdle
  | CLoop cbuf nat cbuf int
  | CWait cbuf nat cbuf int int
  | CMark cbuf nat cbuf int int
  | CReturned int "u8 list"

text \<open>The ring, the consumer's indices in the context, the threads, and the number of
  blocks the consumer has transformed since initialisation (kept for the statements
  only; nothing reads it).\<close>

record sys =
  s_q :: "kq list"
  s_qidx :: int
  s_ridx :: int
  s_prods :: "producer list"
  s_cons :: cloc
  s_consumed :: nat

text \<open>\<open>len -= AES_BLOCK_SIZE\<close> on \<open>size_t\<close>.\<close>

definition len_minus_block :: "nat \<Rightarrow> nat" where
  "len_minus_block len = (len + 2 ^ 64 - AES_BLOCK_SIZE) mod 2 ^ 64"

text \<open>The loop test \<open>while (len -= AES_BLOCK_SIZE)\<close>, and after the loop
  \<open>c->ridx = ridx; return 1\<close>.\<close>

definition loop_test :: "cbuf \<Rightarrow> nat \<Rightarrow> cbuf \<Rightarrow> int \<Rightarrow> sys \<Rightarrow> sys" where
  "loop_test src len dest ridx s =
     (if len_minus_block len \<noteq> 0 then s\<lparr>s_cons := CLoop src (len_minus_block len) dest ridx\<rparr>
      else s\<lparr>s_ridx := ridx, s_cons := CReturned 1 (b_mem dest)\<rparr>)"

text \<open>
  One atomic action of the caller's thread; \<open>None\<close> when it is blocked or outside a call.
  \<^item> \<open>CInit\<close>: the wait at the end of \<open>ssh_aes_ctr_init\<close>.
  \<^item> \<open>CLoop\<close>: XOR one block with \<open>q->keys[ridx]\<close> (at the address \<open>bufp\<close>), advance the
    pointers and \<open>ridx\<close>; on rollover advance \<open>c->qidx\<close>.
  \<^item> \<open>CWait\<close>: with the new queue's lock held, wait until it is \<open>KQFULL\<close>, mark it
    \<open>KQDRAINING\<close>.
  \<^item> \<open>CMark\<close>: with the old queue's lock held, mark it \<open>KQEMPTY\<close>.
\<close>

definition cons_step :: "layout \<Rightarrow> int \<Rightarrow> sys \<Rightarrow> sys option" where
  "cons_step L nkq s =
     (case s_cons s of
        CInit \<Rightarrow>
          (if kq_qstate (s_q s ! 0) = KQINIT then None else Some (s\<lparr>s_cons := CIdle\<rparr>))
      | CIdle \<Rightarrow> None
      | CReturned r dest \<Rightarrow> None
      | CLoop src len dest ridx \<Rightarrow>
          (let buf = kq_keys (s_q s ! nat (s_qidx s)) ! nat ridx;
               bufp = l_keys_addr L (s_qidx s) + AES_BLOCK_SIZE * nat ridx;
               dest' = (xor_one_block L dest src bufp buf)\<lparr>b_ptr := b_ptr dest + AES_BLOCK_SIZE\<rparr>;
               src' = src\<lparr>b_ptr := b_ptr src + AES_BLOCK_SIZE\<rparr>;
               ridx' = (ridx + 1) mod int KQLEN;
               s1 = s\<lparr>s_consumed := s_consumed s + 1\<rparr>
           in if ridx' = 0 then
                Some (s1\<lparr>s_qidx := (s_qidx s + 1) mod nkq,
                         s_cons := CWait src' len dest' ridx' (s_qidx s)\<rparr>)
              else Some (loop_test src' len dest' ridx' s1))
      | CWait src len dest ridx oldq \<Rightarrow>
          (let qu = s_q s ! nat (s_qidx s) in
           if kq_qstate qu \<noteq> KQFULL then None
           else Some (s\<lparr>s_q := (s_q s)[nat (s_qidx s) := qu\<lparr>kq_qstate := KQDRAINING\<rparr>],
                        s_cons := CMark src len dest ridx oldq\<rparr>))
      | CMark src len dest ridx oldq \<Rightarrow>
          Some (loop_test src len dest ridx
                  (s\<lparr>s_q := (s_q s)[nat oldq := (s_q s ! nat oldq)\<lparr>kq_qstate := KQEMPTY\<rparr>]\<rparr>)))"

text \<open>
  Entering \<open>ssh_aes_ctr\<close> with \<open>dest\<close>, \<open>src\<close> and \<open>len\<close>: a zero length returns 1 at
  once; otherwise \<open>srcp\<close> and \<open>destp\<close> start at \<open>src\<close> and \<open>dest\<close>. The context is
  attached (the system is the one \<open>ssh_aes_ctr_init\<close> has set up), so the \<open>NULL\<close> check
  of the application data passes.
\<close>

definition ssh_aes_ctr_enter :: "cbuf \<Rightarrow> cbuf \<Rightarrow> nat \<Rightarrow> sys \<Rightarrow> sys" where
  "ssh_aes_ctr_enter dest src len s =
     (if len = 0 then s\<lparr>s_cons := CReturned 1 (b_mem dest)\<rparr>
      else s\<lparr>s_cons := CLoop (src\<lparr>b_ptr := b_base src\<rparr>) len
                             (dest\<lparr>b_ptr := b_base dest\<rparr>) (s_ridx s)\<rparr>)"

text \<open>One step of the system: some producer or the caller's thread takes one action.\<close>

inductive step ::
  "layout \<Rightarrow> (u8 list \<Rightarrow> block \<Rightarrow> block) \<Rightarrow> int \<Rightarrow> sys \<Rightarrow> sys \<Rightarrow> bool"
  for L :: layout and E :: "u8 list \<Rightarrow> block \<Rightarrow> block" and nkq :: int where
  prod_acts: "i < length (s_prods s) \<Longrightarrow>
       prod_step E nkq (s_prods s ! i) (s_q s) = Some (p', qs') \<Longrightarrow>
       step L E nkq s (s\<lparr>s_prods := (s_prods s)[i := p'], s_q := qs'\<rparr>)"
| cons_acts: "cons_step L nkq s = Some s' \<Longrightarrow> step L E nkq s s'"

text \<open>Any number of steps, within one call of \<open>ssh_aes_ctr\<close> or outside any call.\<close>

inductive run ::
  "layout \<Rightarrow> (u8 list \<Rightarrow> block \<Rightarrow> block) \<Rightarrow> int \<Rightarrow> sys \<Rightarrow> sys \<Rightarrow> bool"
  for L :: layout and E :: "u8 list \<Rightarrow> block \<Rightarrow> block" and nkq :: int where
  run_nil: "run L E nkq s s"
| run_snoc: "run L E nkq s s' \<Longrightarrow> step L E nkq s' s'' \<Longrightarrow> run L E nkq s s''"

text \<open>
  The states the system can be in after initialisation: any number of steps, and
  between calls the caller may enter \<open>ssh_aes_ctr\<close> again with any data.
\<close>

inductive reachable ::
  "layout \<Rightarrow> (u8 list \<Rightarrow> block \<Rightarrow> block) \<Rightarrow> int \<Rightarrow> sys \<Rightarrow> sys \<Rightarrow> bool"
  for L :: layout and E :: "u8 list \<Rightarrow> block \<Rightarrow> block" and nkq :: int and s0 :: sys where
  reach_init: "reachable L E nkq s0 s0"
| reach_step: "reachable L E nkq s0 s \<Longrightarrow> step L E nkq s s' \<Longrightarrow> reachable L E nkq s0 s'"
| reach_call: "reachable L E nkq s0 s \<Longrightarrow> s_cons s = CIdle \<or> (\<exists>r d. s_cons s = CReturned r d) \<Longrightarrow>
         reachable L E nkq s0 (ssh_aes_ctr_enter dest src len s)"

text \<open>
  The system as \<open>ssh_aes_ctr_init\<close> leaves it when it has seeded the ring and created
  \<open>n\<close> threads: every producer before its startup case, keyed from \<open>c->orig_key\<close>, the
  first one being the thread with id \<open>c->tid[0]\<close>; the caller waiting for queue 0.
\<close>

definition sys_init :: "ssh_aes_ctr_ctx_mt \<Rightarrow> u8 list \<Rightarrow> nat \<Rightarrow> sys" where
  "sys_init c key n =
     \<lparr>s_q = c_q c, s_qidx = c_qidx c, s_ridx = c_ridx c,
      s_prods = map (\<lambda>i. \<lparr>p_first = (i = 0), p_loc = PStart,
                           p_evp = EVP_EncryptInit_key \<lparr>evp_key = [], evp_iv = []\<rparr> key\<rparr>)
                  [0..<n],
      s_cons = CInit, s_consumed = 0\<rparr>"

subsection \<open>Reference: single-threaded CTR\<close>

text \<open>
  The reference of the spec: block \<open>i\<close> of the keystream is \<open>E key (IV + i)\<close>, the IV read
  as a 16-byte big-endian counter, and the output is the input XOR the keystream, block
  by block. \<open>ctr_crypt E key iv n m\<close> transforms \<open>m\<close> starting at keystream block \<open>n\<close>.
\<close>

definition keystream_block :: "(u8 list \<Rightarrow> block \<Rightarrow> block) \<Rightarrow> u8 list \<Rightarrow> u8 list \<Rightarrow> nat \<Rightarrow> block" where
  "keystream_block E key iv i = E key (ctr_plus iv i)"

function ctr_crypt ::
  "(u8 list \<Rightarrow> block \<Rightarrow> block) \<Rightarrow> u8 list \<Rightarrow> u8 list \<Rightarrow> nat \<Rightarrow> u8 list \<Rightarrow> u8 list" where
  "ctr_crypt E key iv n m =
     (if m = [] then []
      else xor_block (take 16 m) (keystream_block E key iv n) @
           ctr_crypt E key iv (n + 1) (drop 16 m))"
  by pat_completeness auto
termination
  by (relation "measure (\<lambda>(E, key, iv, n, m). length m)") auto

declare ctr_crypt.simps [simp del]

text \<open>A system between two calls, for concrete runs of the consumer.\<close>

definition ex_sys :: sys where
  "ex_sys = \<lparr>s_q = replicate 24 ex_kq, s_qidx = 3, s_ridx = 5, s_prods = [], s_cons = CIdle,
             s_consumed = 0\<rparr>"

text \<open>
  Two builds: one with \<open>CIPHER_UNALIGNED_OK\<close> and \<open>CIPHER_INT128_OK\<close> (as on x86-64), one
  with neither (a 32-bit machine without unaligned loads); the key arrays 64-byte
  aligned in both. A source of two blocks at an odd address, and a destination.
\<close>

definition ex_L :: layout where
  "ex_L = \<lparr>l_unaligned_ok = True, l_int128_ok = True,
           l_keys_addr = (\<lambda>j. 0x10000 + 0x20100 * nat j)\<rparr>"

definition ex_L32 :: layout where
  "ex_L32 = \<lparr>l_unaligned_ok = False, l_int128_ok = False,
             l_keys_addr = (\<lambda>j. 0x10000 + 0x20100 * nat j)\<rparr>"

definition ex_src :: cbuf where
  "ex_src = \<lparr>b_base = 0x2001, b_mem = replicate 32 0x11, b_ptr = 0x2001\<rparr>"

definition ex_dest :: cbuf where
  "ex_dest = \<lparr>b_base = 0x3000, b_mem = replicate 32 0xee, b_ptr = 0x3000\<rparr>"

definition ex_src1 :: cbuf where
  "ex_src1 = \<lparr>b_base = 0x2000, b_mem = replicate 16 0x11, b_ptr = 0x2000\<rparr>"

definition ex_dest1 :: cbuf where
  "ex_dest1 = \<lparr>b_base = 0x3000, b_mem = replicate 16 0xee, b_ptr = 0x3000\<rparr>"

subsection \<open>Invariants used in the proofs\<close>

text \<open>
  During one call of \<open>ssh_aes_ctr\<close> that was entered with indices \<open>r0\<close> and \<open>q0\<close> and a
  length of \<open>m\<close> blocks: after \<open>k\<close> blocks the read index is \<open>(r0 + k) mod KQLEN\<close> and the
  queue index has advanced once per rollover.
\<close>

definition idx_after :: "int \<Rightarrow> int \<Rightarrow> int \<Rightarrow> nat \<Rightarrow> int \<Rightarrow> int \<Rightarrow> bool" where
  "idx_after nkq r0 q0 k r qi =
     (r = (r0 + int k) mod int KQLEN \<and> qi = (q0 + (r0 + int k) div int KQLEN) mod nkq)"

definition call_inv :: "int \<Rightarrow> int \<Rightarrow> int \<Rightarrow> nat \<Rightarrow> sys \<Rightarrow> bool" where
  "call_inv nkq r0 q0 m s =
     (case s_cons s of
        CInit \<Rightarrow> False
      | CIdle \<Rightarrow> False
      | CLoop src len dest r \<Rightarrow>
          (\<exists>k<m. len = 16 * (m - k) \<and> idx_after nkq r0 q0 k r (s_qidx s))
      | CWait src len dest r oldq \<Rightarrow>
          (\<exists>k<m. len = 16 * (m - k) \<and> idx_after nkq r0 q0 (k + 1) r (s_qidx s))
      | CMark src len dest r oldq \<Rightarrow>
          (\<exists>k<m. len = 16 * (m - k) \<and> idx_after nkq r0 q0 (k + 1) r (s_qidx s))
      | CReturned rv dest \<Rightarrow> rv = 1 \<and> idx_after nkq r0 q0 m (s_ridx s) (s_qidx s))"

text \<open>
  The invariant of the ring. Everything is placed by the number of blocks the consumer
  has transformed: \<open>rnd\<close> is the number of rollovers so far, \<open>cur\<close> the queue that round
  reads, and \<open>qstart j\<close> the keystream block at which the content of queue \<open>j\<close> starts:
  the content it has, is being given, or will be given next.
\<close>

definition kblock :: "(u8 list \<Rightarrow> block \<Rightarrow> block) \<Rightarrow> u8 list \<Rightarrow> u8 list \<Rightarrow> nat \<Rightarrow> block" where
  "kblock E key iv b = xor_block (E key (ctr_plus iv b)) mynull"

definition full_keys :: "(u8 list \<Rightarrow> block \<Rightarrow> block) \<Rightarrow> u8 list \<Rightarrow> u8 list \<Rightarrow> nat \<Rightarrow> block list" where
  "full_keys E key iv st = map (\<lambda>i. kblock E key iv (st + i)) [0..<KQLEN]"

definition rnd :: "sys \<Rightarrow> nat" where
  "rnd s = s_consumed s div KQLEN"

definition cur :: "int \<Rightarrow> sys \<Rightarrow> nat" where
  "cur nkq s = rnd s mod nat nkq"

definition ring_off :: "nat \<Rightarrow> nat \<Rightarrow> nat \<Rightarrow> nat" where
  "ring_off n c j = (j + n - c) mod n"

definition qstart :: "int \<Rightarrow> sys \<Rightarrow> nat \<Rightarrow> nat" where
  "qstart nkq s j = (rnd s + ring_off (nat nkq) (cur nkq s) j) * KQLEN"

definition is_old :: "sys \<Rightarrow> nat \<Rightarrow> bool" where
  "is_old s j =
     (case s_cons s of
        CWait src len dest r oldq \<Rightarrow> oldq = int j
      | CMark src len dest r oldq \<Rightarrow> oldq = int j
      | _ \<Rightarrow> False)"

definition waiting :: "sys \<Rightarrow> bool" where
  "waiting s = (case s_cons s of CWait src len dest r oldq \<Rightarrow> True | _ \<Rightarrow> False)"

definition qinv ::
  "(u8 list \<Rightarrow> block \<Rightarrow> block) \<Rightarrow> u8 list \<Rightarrow> u8 list \<Rightarrow> int \<Rightarrow> sys \<Rightarrow> nat \<Rightarrow> bool" where
  "qinv E key iv nkq s j =
     (let qu = s_q s ! j; st = qstart nkq s j in
      length (kq_keys qu) = KQLEN \<and> length (kq_ctr qu) = 16 \<and>
      (case kq_qstate qu of
         KQINIT \<Rightarrow> s_cons s = CInit \<and> j = 0 \<and> kq_ctr qu = ctr_plus iv st
       | KQEMPTY \<Rightarrow> kq_ctr qu = ctr_plus iv st
       | KQFILLING \<Rightarrow> True
       | KQFULL \<Rightarrow>
           kq_ctr qu = ctr_plus iv (st + nat nkq * KQLEN) \<and> kq_keys qu = full_keys E key iv st
       | KQDRAINING \<Rightarrow>
           (if is_old s j then kq_ctr qu = ctr_plus iv st
            else j = cur nkq s \<and> \<not> waiting s \<and>
                 kq_ctr qu = ctr_plus iv (st + nat nkq * KQLEN) \<and>
                 kq_keys qu = full_keys E key iv st)))"

definition at_rollover :: "int \<Rightarrow> sys \<Rightarrow> int \<Rightarrow> int \<Rightarrow> bool" where
  "at_rollover nkq s r oldq =
     (r = 0 \<and> s_consumed s mod KQLEN = 0 \<and> 0 < rnd s \<and>
      oldq = int ((cur nkq s + nat nkq - 1) mod nat nkq) \<and>
      kq_qstate (s_q s ! nat oldq) = KQDRAINING)"

definition cinv :: "int \<Rightarrow> sys \<Rightarrow> bool" where
  "cinv nkq s =
     (s_qidx s = int (cur nkq s) \<and>
      (case s_cons s of
         CInit \<Rightarrow>
           s_consumed s = 0 \<and> s_ridx s = 0 \<and>
           (kq_qstate (s_q s ! 0) = KQINIT \<or> kq_qstate (s_q s ! 0) = KQDRAINING)
       | CIdle \<Rightarrow>
           kq_qstate (s_q s ! cur nkq s) = KQDRAINING \<and>
           s_ridx s = int (s_consumed s mod KQLEN)
       | CReturned rv dest \<Rightarrow>
           kq_qstate (s_q s ! cur nkq s) = KQDRAINING \<and>
           s_ridx s = int (s_consumed s mod KQLEN)
       | CLoop src len dest r \<Rightarrow>
           kq_qstate (s_q s ! cur nkq s) = KQDRAINING \<and> r = int (s_consumed s mod KQLEN)
       | CWait src len dest r oldq \<Rightarrow>
           at_rollover nkq s r oldq \<and> kq_qstate (s_q s ! cur nkq s) \<noteq> KQDRAINING
       | CMark src len dest r oldq \<Rightarrow>
           at_rollover nkq s r oldq \<and> kq_qstate (s_q s ! cur nkq s) = KQDRAINING))"

definition owns :: "producer \<Rightarrow> int option" where
  "owns p = (case p_loc p of PClaimed k \<Rightarrow> Some k | PFill k n \<Rightarrow> Some k | _ \<Rightarrow> None)"

definition pinv ::
  "(u8 list \<Rightarrow> block \<Rightarrow> block) \<Rightarrow> u8 list \<Rightarrow> u8 list \<Rightarrow> int \<Rightarrow> sys \<Rightarrow> producer \<Rightarrow> bool" where
  "pinv E key iv nkq s p =
     (evp_key (p_evp p) = key \<and>
      (case p_loc p of
         PStart \<Rightarrow> True
       | PScan k \<Rightarrow> 0 \<le> k \<and> k < nkq
       | PClaimed k \<Rightarrow>
           0 \<le> k \<and> k < nkq \<and> kq_qstate (s_q s ! nat k) = KQFILLING \<and>
           kq_ctr (s_q s ! nat k) = ctr_plus iv (qstart nkq s (nat k))
       | PFill k n \<Rightarrow>
           0 \<le> k \<and> k < nkq \<and> n \<le> KQLEN \<and> kq_qstate (s_q s ! nat k) = KQFILLING \<and>
           kq_ctr (s_q s ! nat k) = ctr_plus iv (qstart nkq s (nat k) + n) \<and>
           take n (kq_keys (s_q s ! nat k))
             = map (\<lambda>i. kblock E key iv (qstart nkq s (nat k) + i)) [0..<n] \<and>
           evp_iv (p_evp p) = ctr_plus iv (qstart nkq s (nat k) + n)))"

definition owners_distinct :: "producer list \<Rightarrow> bool" where
  "owners_distinct ps =
     (\<forall>a b. a < length ps \<and> b < length ps \<and> a \<noteq> b \<and> owns (ps ! a) \<noteq> None
        \<longrightarrow> owns (ps ! a) \<noteq> owns (ps ! b))"

definition ring_inv ::
  "(u8 list \<Rightarrow> block \<Rightarrow> block) \<Rightarrow> u8 list \<Rightarrow> u8 list \<Rightarrow> int \<Rightarrow> sys \<Rightarrow> bool" where
  "ring_inv E key iv nkq s =
     (2 \<le> nkq \<and> nkq \<le> MAX_NUMKQ \<and> nat nkq \<le> length (s_q s) \<and> length iv = 16 \<and>
      cinv nkq s \<and>
      (\<forall>j<nat nkq. qinv E key iv nkq s j) \<and>
      (\<forall>i<length (s_prods s). pinv E key iv nkq s (s_prods s ! i)) \<and>
      owners_distinct (s_prods s))"

text \<open>
  The data of one call of \<open>ssh_aes_ctr\<close> on message \<open>msg\<close> of \<open>m\<close> blocks at address \<open>sb\<close>,
  with the destination at \<open>db\<close>, entered after \<open>p0\<close> blocks, when every block goes
  through one of the word branches (\<open>word_path\<close>: the build has \<open>CIPHER_UNALIGNED_OK\<close>, or
  both buffers and every key array are 4-byte aligned): after \<open>k\<close> blocks both pointers
  have advanced by \<open>16 * k\<close>, the first \<open>16 * k\<close> bytes of the destination hold the
  reference output for the first \<open>k\<close> blocks, and the source is unchanged.
\<close>

definition word_path :: "layout \<Rightarrow> int \<Rightarrow> nat \<Rightarrow> nat \<Rightarrow> bool" where
  "word_path L nkq sb db =
     (l_unaligned_ok L \<or>
      (4 dvd sb \<and> 4 dvd db \<and> (\<forall>j<nat nkq. 4 dvd l_keys_addr L (int j))))"

definition data_after ::
  "(u8 list \<Rightarrow> block \<Rightarrow> block) \<Rightarrow> u8 list \<Rightarrow> u8 list \<Rightarrow> nat \<Rightarrow> nat \<Rightarrow> nat \<Rightarrow> u8 list \<Rightarrow>
     nat \<Rightarrow> cbuf \<Rightarrow> cbuf \<Rightarrow> sys \<Rightarrow> bool" where
  "data_after E key iv p0 sb db msg k src dest s =
     (b_base src = sb \<and> b_base dest = db \<and> b_mem src = msg \<and>
      b_ptr src = sb + 16 * k \<and> b_ptr dest = db + 16 * k \<and>
      length (b_mem dest) = length msg \<and>
      take (16 * k) (b_mem dest) = ctr_crypt E key iv p0 (take (16 * k) msg) \<and>
      s_consumed s = p0 + k)"

definition data_inv ::
  "(u8 list \<Rightarrow> block \<Rightarrow> block) \<Rightarrow> u8 list \<Rightarrow> u8 list \<Rightarrow> nat \<Rightarrow> nat \<Rightarrow> nat \<Rightarrow> u8 list \<Rightarrow>
     nat \<Rightarrow> sys \<Rightarrow> bool" where
  "data_inv E key iv p0 sb db msg m s =
     (case s_cons s of
        CInit \<Rightarrow> False
      | CIdle \<Rightarrow> False
      | CLoop src len dest r \<Rightarrow>
          (\<exists>k<m. len = 16 * (m - k) \<and> data_after E key iv p0 sb db msg k src dest s)
      | CWait src len dest r oldq \<Rightarrow>
          (\<exists>k<m. len = 16 * (m - k) \<and> data_after E key iv p0 sb db msg (k + 1) src dest s)
      | CMark src len dest r oldq \<Rightarrow>
          (\<exists>k<m. len = 16 * (m - k) \<and> data_after E key iv p0 sb db msg (k + 1) src dest s)
      | CReturned rv out \<Rightarrow>
          rv = 1 \<and> out = ctr_crypt E key iv p0 msg \<and> s_consumed s = p0 + m)"

text \<open>
  A schedule under which every call returns: the first thread does all the filling and
  waits at the queue the consumer reads. \<open>canon s c\<close> is the state it keeps coming back
  to, queue \<open>c\<close> being read and every other queue full; \<open>in_loop j s\<close> is the caller's
  thread with \<open>j\<close> blocks left in the call, or returned when \<open>j = 0\<close>.
\<close>

definition canon :: "int \<Rightarrow> sys \<Rightarrow> nat \<Rightarrow> bool" where
  "canon nkq s c =
     (0 < length (s_prods s) \<and> 2 \<le> nkq \<and> nat nkq \<le> length (s_q s) \<and> c < nat nkq \<and>
      s_qidx s = int c \<and> p_loc (s_prods s ! 0) = PScan (int c) \<and>
      (\<forall>j<nat nkq. kq_qstate (s_q s ! j) = (if j = c then KQDRAINING else KQFULL)))"

definition in_loop :: "nat \<Rightarrow> sys \<Rightarrow> bool" where
  "in_loop j s =
     (case s_cons s of
        CLoop src len dest r \<Rightarrow> 0 < j \<and> len = 16 * j \<and> 0 \<le> r \<and> r < int KQLEN
      | CReturned rv dest \<Rightarrow> j = 0 \<and> rv = 1 \<and> 0 \<le> s_ridx s \<and> s_ridx s < int KQLEN
      | _ \<Rightarrow> False)"

text \<open>
  The same data when every block goes through the byte-by-byte branch (\<open>byte_path\<close>: the
  build has no \<open>CIPHER_UNALIGNED_OK\<close> and \<open>src\<close> or \<open>dest\<close> is not 4-byte aligned): after
  \<open>k \<ge> 1\<close> blocks the first 16 bytes of the destination hold the first block of the
  message XORed with keystream block \<open>p0 + k - 1\<close>, and the rest of the destination is as
  it was before the call (\<open>d0\<close>).
\<close>

definition byte_path :: "layout \<Rightarrow> nat \<Rightarrow> nat \<Rightarrow> bool" where
  "byte_path L sb db = (\<not> l_unaligned_ok L \<and> \<not> (4 dvd sb \<and> 4 dvd db))"

definition byte_out ::
  "(u8 list \<Rightarrow> block \<Rightarrow> block) \<Rightarrow> u8 list \<Rightarrow> u8 list \<Rightarrow> nat \<Rightarrow> u8 list \<Rightarrow> u8 list \<Rightarrow> nat \<Rightarrow> u8 list" where
  "byte_out E key iv p0 msg d0 k =
     (if k = 0 then d0
      else xor_block (take AES_BLOCK_SIZE msg) (keystream_block E key iv (p0 + k - 1)) @
           drop AES_BLOCK_SIZE d0)"

definition byte_after ::
  "(u8 list \<Rightarrow> block \<Rightarrow> block) \<Rightarrow> u8 list \<Rightarrow> u8 list \<Rightarrow> nat \<Rightarrow> nat \<Rightarrow> nat \<Rightarrow> u8 list \<Rightarrow>
     u8 list \<Rightarrow> nat \<Rightarrow> cbuf \<Rightarrow> cbuf \<Rightarrow> sys \<Rightarrow> bool" where
  "byte_after E key iv p0 sb db msg d0 k src dest s =
     (b_base src = sb \<and> b_base dest = db \<and> b_mem src = msg \<and>
      b_ptr src = sb + 16 * k \<and> b_ptr dest = db + 16 * k \<and>
      b_mem dest = byte_out E key iv p0 msg d0 k \<and>
      s_consumed s = p0 + k)"

definition byte_inv ::
  "(u8 list \<Rightarrow> block \<Rightarrow> block) \<Rightarrow> u8 list \<Rightarrow> u8 list \<Rightarrow> nat \<Rightarrow> nat \<Rightarrow> nat \<Rightarrow> u8 list \<Rightarrow>
     u8 list \<Rightarrow> nat \<Rightarrow> sys \<Rightarrow> bool" where
  "byte_inv E key iv p0 sb db msg d0 m s =
     (case s_cons s of
        CInit \<Rightarrow> False
      | CIdle \<Rightarrow> False
      | CLoop src len dest r \<Rightarrow>
          (\<exists>k<m. len = 16 * (m - k) \<and> byte_after E key iv p0 sb db msg d0 k src dest s)
      | CWait src len dest r oldq \<Rightarrow>
          (\<exists>k<m. len = 16 * (m - k) \<and> byte_after E key iv p0 sb db msg d0 (k + 1) src dest s)
      | CMark src len dest r oldq \<Rightarrow>
          (\<exists>k<m. len = 16 * (m - k) \<and> byte_after E key iv p0 sb db msg d0 (k + 1) src dest s)
      | CReturned rv out \<Rightarrow>
          rv = 1 \<and> out = byte_out E key iv p0 msg d0 m \<and> s_consumed s = p0 + m)"

section \<open>Counter arithmetic\<close>

lemma be_val_Nil [simp]: "be_val [] = 0"
  by (simp add: be_val_def)

lemma be_val_snoc [simp]: "be_val (xs @ [b]) = 256 * be_val xs + unat b"
  by (simp add: be_val_def)

lemma be_val_append: "be_val (xs @ ys) = be_val xs * 256 ^ length ys + be_val ys"
proof (induction ys rule: rev_induct)
  case Nil
  show ?case by simp
next
  case (snoc y ys)
  have "be_val (xs @ ys @ [y]) = 256 * be_val (xs @ ys) + unat y"
    using be_val_snoc [of "xs @ ys" y] by simp
  with snoc show ?case by (simp add: algebra_simps)
qed

lemma be_val_bound: "be_val xs < 256 ^ length xs"
proof (induction xs rule: rev_induct)
  case Nil
  show ?case by simp
next
  case (snoc b xs)
  have "unat b < 256" using unsigned_less [of b, where 'a = nat] by simp
  with snoc show ?case by simp
qed

lemma mod_shift_byte:
  fixes A M r :: nat
  assumes "r < 256"
  shows "256 * (A mod M) + r = (256 * A + r) mod (256 * M)"
proof -
  have "(256 * A + r) div 256 = A" using assms by simp
  moreover have "(256 * A + r) mod 256 = r" using assms by simp
  ultimately show ?thesis
    using mod_mult2_eq [of "256 * A + r" 256 M] by simp
qed

lemma u8_lt_256: "unat (b :: u8) < 256"
  using unsigned_less [of b, where 'a = nat] by simp

lemma u8_inc_unat: "unat (b + 1 :: u8) = (unat b + 1) mod 256"
  by (simp add: unat_word_ariths)

lemma u8_inc_zero_iff: "(b + 1 :: u8) = 0 \<longleftrightarrow> unat b = 255"
proof -
  have "(b + 1 = 0) \<longleftrightarrow> unat (b + 1) = 0" by (simp add: unat_eq_zero)
  also have "\<dots> \<longleftrightarrow> (unat b + 1) mod 256 = 0" by (simp add: u8_inc_unat)
  also have "\<dots> \<longleftrightarrow> unat b = 255" using u8_lt_256 [of b] by presburger
  finally show ?thesis .
qed

lemma ssh_ctr_inc_loop_split:
  "\<exists>xs'. ssh_ctr_inc_loop (xs @ ys) (int (length xs) - 1) = xs' @ ys \<and>
         length xs' = length xs \<and>
         be_val xs' = (be_val xs + 1) mod 256 ^ length xs"
proof (induction xs arbitrary: ys rule: rev_induct)
  case Nil
  show ?case by (simp add: ssh_ctr_inc_loop.simps)
next
  case (snoc b zs)
  let ?k = "length zs"
  have nth: "(zs @ [b] @ ys) ! ?k = b" by (simp add: nth_append)
  have upd: "(zs @ [b] @ ys)[?k := c] = zs @ [c] @ ys" for c
    by (simp add: list_update_append)
  have unf: "ssh_ctr_inc_loop ((zs @ [b]) @ ys) (int (length (zs @ [b])) - 1) =
      (if b + 1 \<noteq> 0 then zs @ [b + 1] @ ys
       else ssh_ctr_inc_loop (zs @ [b + 1] @ ys) (int ?k - 1))"
    using nth upd by (subst ssh_ctr_inc_loop.simps) (simp add: Let_def)
  show ?case
  proof (cases "b + 1 = 0")
    case False
    have lt: "unat b + 1 < 256"
      using False u8_lt_256 [of b] by (simp add: u8_inc_zero_iff)
    then have ub: "unat (b + 1) = unat b + 1"
      by (simp add: u8_inc_unat)
    have "256 * be_val zs + (unat b + 1) < 256 * 256 ^ ?k"
      using be_val_bound [of zs] lt by simp
    then have "be_val (zs @ [b + 1]) = (be_val (zs @ [b]) + 1) mod 256 ^ length (zs @ [b])"
      using ub by simp
    with unf False show ?thesis
      by (intro exI [of _ "zs @ [b + 1]"]) simp
  next
    case True
    then have b255: "unat b = 255"
      by (simp add: u8_inc_zero_iff)
    from snoc [of "[0] @ ys"] obtain zs' where
      zs': "ssh_ctr_inc_loop (zs @ [0] @ ys) (int ?k - 1) = zs' @ [0] @ ys"
        "length zs' = ?k" "be_val zs' = (be_val zs + 1) mod 256 ^ ?k"
      by auto
    have "be_val (zs' @ [0]) = 256 * ((be_val zs + 1) mod 256 ^ ?k) + 0"
      using zs'(3) by simp
    also have "\<dots> = (256 * (be_val zs + 1) + 0) mod (256 * 256 ^ ?k)"
      by (rule mod_shift_byte) simp
    finally have "be_val (zs' @ [0]) = (be_val (zs @ [b]) + 1) mod 256 ^ length (zs @ [b])"
      using b255 by simp
    with unf True zs' show ?thesis
      by (intro exI [of _ "zs' @ [0]"]) simp
  qed
qed

lemma sint_word_of_nat_small:
  assumes "m < 2 ^ 31"
  shows "sint (word_of_nat m :: u32) = int m"
proof -
  have "- (2 ^ 31) \<le> int m" by simp
  moreover have "int m < 2 ^ 31" using assms by (simp add: of_nat_less_numeral_power_cancel_iff)
  ultimately show ?thesis
    by (simp add: signed_of_nat signed_take_bit_int_eq_self)
qed

lemma c_int_of_len_minus_1_eq:
  assumes "len \<le> 2 ^ 31"
  shows "c_int_of_len_minus_1 len = int len - 1"
proof (cases len)
  case 0
  then show ?thesis by (simp add: c_int_of_len_minus_1_def)
next
  case (Suc m)
  then have m: "m < 2 ^ 31" using assms by simp
  have "(word_of_nat len - 1 :: u32) = word_of_nat m" using Suc by simp
  then show ?thesis using Suc sint_word_of_nat_small [OF m]
    by (simp add: c_int_of_len_minus_1_def)
qed

lemma u16_high: "unat (drop_bit 8 (n1 :: u16)) = unat n1 div 256"
  by (simp add: drop_bit_eq_div unat_div_distrib)

lemma u32_shift: "unat (drop_bit 8 (num :: u32)) = unat num div 256"
  by (simp add: drop_bit_eq_div unat_div_distrib)

lemma word_and_0xff: "(w :: 'a::len word) AND 0xff = take_bit 8 w"
proof -
  have "(0xff :: 'a word) = mask 8" by (simp add: mask_eq_exp_minus_1)
  then show ?thesis by (simp add: take_bit_eq_mask)
qed

lemma u32_low_byte: "unat ((num :: u32) AND 0xff) = unat num mod 256"
  by (simp add: word_and_0xff take_bit_eq_mod unat_mod_distrib)

lemma u16_low_byte: "unat (ucast ((n1 :: u16) AND 0xff) :: u8) = unat n1 mod 256"
  by (simp add: word_and_0xff unsigned_ucast_eq take_bit_eq_mod unat_mod_distrib)

lemma u16_sum_unat:
  assumes "unat (n :: u16) \<le> 1"
  shows "unat ((ucast (b :: u8) :: u16) + ucast ((num :: u32) AND 0xff) + n)
           = unat b + unat num mod 256 + unat n"
proof -
  have b: "unat (ucast b :: u16) = unat b"
    using u8_lt_256 [of b] by (simp add: unsigned_ucast_eq take_bit_eq_mod)
  have m: "unat (ucast (num AND 0xff) :: u16) = unat num mod 256"
    by (simp add: word_and_0xff unsigned_ucast_eq take_bit_eq_mod unat_mod_distrib)
  have "unat num mod 256 < 256" by simp
  then have "unat b + unat num mod 256 + unat n < 65536"
    using u8_lt_256 [of b] assms by linarith
  then show ?thesis
    using b m by (simp add: unat_word_ariths)
qed

lemma carry_step_arith:
  fixes Z b num n N1 :: nat
  assumes "N1 = b + num mod 256 + n"
  shows "256 * (Z + num div 256 + N1 div 256) + N1 mod 256 = 256 * Z + b + num + n"
proof -
  have "256 * (N1 div 256) + N1 mod 256 = N1" by simp
  moreover have "256 * (num div 256) + num mod 256 = num" by simp
  ultimately show ?thesis using assms by (simp add: algebra_simps)
qed

lemma ssh_ctr_add_loop_split:
  "unat n \<le> 1 \<Longrightarrow>
   \<exists>xs'. ssh_ctr_add_loop (xs @ ys) num n (int (length xs) - 1) = xs' @ ys \<and>
         length xs' = length xs \<and>
         be_val xs' = (be_val xs + unat num + unat n) mod 256 ^ length xs"
proof (induction xs arbitrary: ys num n rule: rev_induct)
  case Nil
  show ?case by (simp add: ssh_ctr_add_loop.simps)
next
  case (snoc b zs)
  let ?k = "length zs"
  define n1 where "n1 = (ucast b :: u16) + ucast (num AND 0xff) + n"
  define c where "c = (ucast (n1 AND 0xff) :: u8)"
  define num' where "num' = drop_bit 8 num"
  define n' where "n' = drop_bit 8 n1"
  show ?case
  proof (cases "num \<noteq> 0 \<or> n \<noteq> 0")
    case False
    then have "ssh_ctr_add_loop ((zs @ [b]) @ ys) num n (int (length (zs @ [b])) - 1)
        = (zs @ [b]) @ ys"
      by (subst ssh_ctr_add_loop.simps) simp
    moreover have "be_val (zs @ [b]) = (be_val (zs @ [b]) + unat num + unat n)
        mod 256 ^ length (zs @ [b])"
      using False be_val_bound [of "zs @ [b]"] by simp
    ultimately show ?thesis by blast
  next
    case True
    have nth: "(zs @ [b] @ ys) ! ?k = b" by (simp add: nth_append)
    have upd: "(zs @ [b] @ ys)[?k := c] = zs @ [c] @ ys"
      by (simp add: list_update_append)
    have "ssh_ctr_add_loop (zs @ [b] @ ys) num n (int ?k) =
        ssh_ctr_add_loop (zs @ [c] @ ys) num' n' (int ?k - 1)"
      apply (subst ssh_ctr_add_loop.simps)
      apply (simp only: Let_def nth upd nat_int n1_def [symmetric] c_def [symmetric]
          num'_def [symmetric] n'_def [symmetric])
      using True apply simp
      done
    then have unf: "ssh_ctr_add_loop ((zs @ [b]) @ ys) num n (int (length (zs @ [b])) - 1) =
        ssh_ctr_add_loop (zs @ [c] @ ys) num' n' (int ?k - 1)"
      by simp
    have n1: "unat n1 = unat b + unat num mod 256 + unat n"
      unfolding n1_def by (rule u16_sum_unat [OF snoc.prems])
    have "unat num mod 256 < 256" by simp
    then have "unat n1 < 512"
      using n1 u8_lt_256 [of b] snoc.prems by linarith
    then have "unat n1 div 256 \<le> 1" by simp
    then have carry: "unat n' \<le> 1"
      unfolding n'_def by (simp only: u16_high)
    have cval: "unat c = unat n1 mod 256"
      unfolding c_def by (rule u16_low_byte)
    have n'val: "unat n' = unat n1 div 256"
      unfolding n'_def by (rule u16_high)
    have num'val: "unat num' = unat num div 256"
      unfolding num'_def by (rule u32_shift)
    from snoc.IH [OF carry, of "[c] @ ys" num'] obtain zs' where
      zs': "ssh_ctr_add_loop (zs @ [c] @ ys) num' n' (int ?k - 1) = zs' @ [c] @ ys"
        "length zs' = ?k"
        "be_val zs' = (be_val zs + unat num' + unat n') mod 256 ^ ?k"
      by auto
    have "be_val (zs' @ [c]) =
        256 * ((be_val zs + unat num div 256 + unat n1 div 256) mod 256 ^ ?k) + unat n1 mod 256"
      by (simp only: be_val_snoc zs'(3) cval n'val num'val)
    also have "\<dots> = (256 * (be_val zs + unat num div 256 + unat n1 div 256) + unat n1 mod 256)
        mod (256 * 256 ^ ?k)"
      by (rule mod_shift_byte) simp
    also have "256 * (be_val zs + unat num div 256 + unat n1 div 256) + unat n1 mod 256
        = 256 * be_val zs + unat b + unat num + unat n"
      by (rule carry_step_arith [OF n1])
    finally have "be_val (zs' @ [c]) =
        (be_val (zs @ [b]) + unat num + unat n) mod 256 ^ length (zs @ [b])"
      by simp
    with unf zs'(1,2) show ?thesis
      by (intro exI [of _ "zs' @ [c]"]) simp
  qed
qed

lemma ssh_ctr_inc_loop_left:
  "j < k \<Longrightarrow> k < length xs \<Longrightarrow> xs ! k \<noteq> 0xff \<Longrightarrow>
   ssh_ctr_inc_loop (xs @ ys) (int (length xs) - 1) ! j = xs ! j"
proof (induction xs arbitrary: ys rule: rev_induct)
  case Nil
  then show ?case by simp
next
  case (snoc b zs)
  let ?k = "length zs"
  have nth: "(zs @ [b] @ ys) ! ?k = b" by (simp add: nth_append)
  have upd: "(zs @ [b] @ ys)[?k := c] = zs @ [c] @ ys" for c
    by (simp add: list_update_append)
  have unf: "ssh_ctr_inc_loop ((zs @ [b]) @ ys) (int (length (zs @ [b])) - 1) =
      (if b + 1 \<noteq> 0 then zs @ [b + 1] @ ys
       else ssh_ctr_inc_loop (zs @ [b + 1] @ ys) (int ?k - 1))"
    using nth upd by (subst ssh_ctr_inc_loop.simps) (simp add: Let_def)
  from snoc.prems have j: "j < ?k" by simp
  show ?case
  proof (cases "b + 1 = 0")
    case False
    with unf j show ?thesis by (simp add: nth_append)
  next
    case True
    then have "b = - 1" by (simp add: eq_neg_iff_add_eq_0)
    then have "b = 0xff" by simp
    with snoc.prems have k: "k < ?k"
      by (cases "k = ?k") (auto simp: nth_append)
    then have "zs ! k \<noteq> 0xff" using snoc.prems(3) by (simp add: nth_append)
    from snoc.IH [OF snoc.prems(1) k this, of "[0] @ ys"] unf True j
    show ?thesis by (simp add: nth_append)
  qed
qed

text \<open>
  Claim C3. For a counter of \<open>len\<close> bytes (\<open>1 \<le> len\<close>, and \<open>len - 1\<close> representable
  in the loop's \<open>int\<close> index), \<open>ssh_ctr_inc\<close> keeps the length and replaces the big-endian
  value \<open>v\<close> by \<open>(v + 1) mod 256 ^ len\<close>: the carry out of the most significant byte is
  dropped. Every byte that has a byte other than \<open>0xff\<close> somewhere to its right is left of
  the place where the carry stops, and is unchanged.
\<close>

theorem ssh_ctr_inc_correct:
  assumes "length ctr = len" and "1 \<le> len" and "len \<le> 2 ^ 31"
  shows "length (ssh_ctr_inc ctr len) = len \<and>
         be_val (ssh_ctr_inc ctr len) = (be_val ctr + 1) mod 256 ^ len \<and>
         (\<forall>j k. j < k \<and> k < len \<and> ctr ! k \<noteq> 0xff \<longrightarrow> ssh_ctr_inc ctr len ! j = ctr ! j)"
proof -
  have i: "c_int_of_len_minus_1 len = int (length ctr) - 1"
    using assms by (simp add: c_int_of_len_minus_1_eq)
  from ssh_ctr_inc_loop_split [of ctr "[]"] obtain xs' where
    xs': "ssh_ctr_inc_loop ctr (int (length ctr) - 1) = xs'" "length xs' = length ctr"
      "be_val xs' = (be_val ctr + 1) mod 256 ^ length ctr"
    by auto
  have left: "ssh_ctr_inc_loop ctr (int (length ctr) - 1) ! j = ctr ! j"
    if "j < k" "k < length ctr" "ctr ! k \<noteq> 0xff" for j k
    using ssh_ctr_inc_loop_left [OF that, of "[]"] by simp
  show ?thesis
    using xs' left assms(1) by (auto simp add: ssh_ctr_inc_def i)
qed

theorem ssh_ctr_inc_correct_witness:
  "length [0x12, 0x34, 0xff :: u8] = 3 \<and> (1::nat) \<le> 3 \<and> (3::nat) \<le> 2 ^ 31 \<and>
   length (ssh_ctr_inc [0x12, 0x34, 0xff] 3) = 3 \<and>
   be_val (ssh_ctr_inc [0x12, 0x34, 0xff] 3) = (be_val [0x12, 0x34, 0xff] + 1) mod 256 ^ 3 \<and>
   ssh_ctr_inc [0x12, 0x34, 0xff] 3 ! 0 = 0x12"
proof -
  have h: "length [0x12, 0x34, 0xff :: u8] = 3" "(1::nat) \<le> 3" "(3::nat) \<le> 2 ^ 31"
    by simp_all
  from ssh_ctr_inc_correct [OF h]
  have c: "length (ssh_ctr_inc [0x12, 0x34, 0xff] 3) = 3"
    "be_val (ssh_ctr_inc [0x12, 0x34, 0xff] 3) = (be_val [0x12, 0x34, 0xff] + 1) mod 256 ^ 3"
    "\<forall>j k. j < k \<and> k < 3 \<and> [0x12, 0x34, 0xff :: u8] ! k \<noteq> 0xff \<longrightarrow>
       ssh_ctr_inc [0x12, 0x34, 0xff] 3 ! j = [0x12, 0x34, 0xff :: u8] ! j"
    by blast+
  from c(3) have "(0::nat) < 1 \<and> (1::nat) < 3 \<and> [0x12, 0x34, 0xff :: u8] ! 1 \<noteq> 0xff \<longrightarrow>
       ssh_ctr_inc [0x12, 0x34, 0xff] 3 ! 0 = [0x12, 0x34, 0xff :: u8] ! 0"
    by blast
  then have "ssh_ctr_inc [0x12, 0x34, 0xff] 3 ! 0 = 0x12" by simp
  with h c(1,2) show ?thesis by blast
qed

text \<open>
  Claim C4. For a counter of \<open>len\<close> bytes and every 32-bit \<open>num\<close>, \<open>ssh_ctr_add\<close> keeps the
  length and replaces the big-endian value \<open>v\<close> by \<open>(v + num) mod 256 ^ len\<close>: the carry
  past the most significant byte is dropped.
\<close>

theorem ssh_ctr_add_correct:
  assumes "length ctr = len" and "1 \<le> len" and "len \<le> 2 ^ 31"
  shows "length (ssh_ctr_add ctr num len) = len \<and>
         be_val (ssh_ctr_add ctr num len) = (be_val ctr + unat num) mod 256 ^ len"
proof -
  have i: "c_int_of_len_minus_1 len = int (length ctr) - 1"
    using assms by (simp add: c_int_of_len_minus_1_eq)
  have "unat (0 :: u16) \<le> 1" by simp
  from ssh_ctr_add_loop_split [OF this, of ctr "[]" num] obtain xs' where
    "ssh_ctr_add_loop ctr num 0 (int (length ctr) - 1) = xs'" "length xs' = length ctr"
    "be_val xs' = (be_val ctr + unat num) mod 256 ^ length ctr"
    by auto
  then show ?thesis
    using assms(1) by (simp add: ssh_ctr_add_def i)
qed

theorem ssh_ctr_add_correct_witness:
  "length [0xff, 0xff, 0xfe :: u8] = 3 \<and> (1::nat) \<le> 3 \<and> (3::nat) \<le> 2 ^ 31 \<and>
   length (ssh_ctr_add [0xff, 0xff, 0xfe] 0x10203 3) = 3 \<and>
   be_val (ssh_ctr_add [0xff, 0xff, 0xfe] 0x10203 3)
     = (be_val [0xff, 0xff, 0xfe] + unat (0x10203 :: u32)) mod 256 ^ 3"
proof -
  have h: "length [0xff, 0xff, 0xfe :: u8] = 3" "(1::nat) \<le> 3" "(3::nat) \<le> 2 ^ 31"
    by simp_all
  from ssh_ctr_add_correct [OF h, of "0x10203"] h show ?thesis by blast
qed

subsection \<open>Counters as numbers\<close>

lemma length_be_bytes [simp]: "length (be_bytes n v) = n"
  by (induction n arbitrary: v) simp_all

lemma u8_of_nat_mod: "unat (of_nat (v mod 256) :: u8) = v mod 256"
  by (simp add: unsigned_of_nat take_bit_eq_mod)

lemma be_val_be_bytes: "be_val (be_bytes n v) = v mod 256 ^ n"
proof (induction n arbitrary: v)
  case 0
  show ?case by simp
next
  case (Suc n)
  have "be_val (be_bytes (Suc n) v) = 256 * ((v div 256) mod 256 ^ n) + v mod 256"
    by (simp add: Suc u8_of_nat_mod)
  also have "\<dots> = v mod (256 * 256 ^ n)"
    by (simp add: mod_mult2_eq)
  finally show ?case by simp
qed

lemma be_val_inject:
  "length xs = length ys \<Longrightarrow> be_val xs = be_val ys \<Longrightarrow> xs = ys"
proof (induction xs arbitrary: ys rule: rev_induct)
  case Nil
  then show ?case by simp
next
  case (snoc a xs)
  then obtain b ys' where ys: "ys = ys' @ [b]"
    by (cases ys rule: rev_cases) auto
  from snoc.prems ys have eq: "256 * be_val xs + unat a = 256 * be_val ys' + unat b"
    by simp
  have a: "unat a < 256" and b: "unat b < 256" by (rule u8_lt_256)+
  have "(256 * be_val xs + unat a) mod 256 = unat a" using a by simp
  moreover have "(256 * be_val ys' + unat b) mod 256 = unat b" using b by simp
  ultimately have "unat a = unat b" using eq by simp
  then have ab: "a = b" by (simp add: word_unat_eq_iff)
  with eq have "be_val xs = be_val ys'" by simp
  moreover from snoc.prems ys have "length xs = length ys'" by simp
  ultimately have "xs = ys'" using snoc.IH by blast
  with ab ys show ?case by simp
qed


lemma be_bytes_be_val: "be_bytes (length c) (be_val c) = c"
  by (rule be_val_inject) (simp_all add: be_val_be_bytes be_val_bound)

lemma length_ctr_plus [simp]: "length (ctr_plus c n) = length c"
  by (simp add: ctr_plus_def)

lemma be_val_ctr_plus: "be_val (ctr_plus c n) = (be_val c + n) mod 256 ^ length c"
  by (simp add: ctr_plus_def be_val_be_bytes)

lemma ctr_plus_0 [simp]: "ctr_plus c 0 = c"
  by (simp add: ctr_plus_def be_val_bound be_bytes_be_val)

lemma ctr_plus_plus: "ctr_plus (ctr_plus c a) b = ctr_plus c (a + b)"
  by (rule be_val_inject) (simp_all add: be_val_ctr_plus mod_simps add.assoc)

lemma ctr_eqI:
  "length xs = length c \<Longrightarrow> be_val xs = (be_val c + n) mod 256 ^ length c \<Longrightarrow> xs = ctr_plus c n"
  by (rule be_val_inject) (simp_all add: be_val_ctr_plus)

lemma ssh_ctr_inc_eq:
  assumes "length c \<le> 2 ^ 31"
  shows "ssh_ctr_inc c (length c) = ctr_plus c 1"
proof -
  have i: "c_int_of_len_minus_1 (length c) = int (length c) - 1"
    using assms by (rule c_int_of_len_minus_1_eq)
  from ssh_ctr_inc_loop_split [of c "[]"] show ?thesis
    by (auto simp: ssh_ctr_inc_def i intro!: ctr_eqI)
qed

lemma ssh_ctr_add_eq:
  assumes "length c \<le> 2 ^ 31"
  shows "ssh_ctr_add c num (length c) = ctr_plus c (unat num)"
proof -
  have i: "c_int_of_len_minus_1 (length c) = int (length c) - 1"
    using assms by (rule c_int_of_len_minus_1_eq)
  have "unat (0 :: u16) \<le> 1" by simp
  from ssh_ctr_add_loop_split [OF this, of c "[]" num] show ?thesis
    by (auto simp: ssh_ctr_add_def i intro!: ctr_eqI)
qed

lemma ssh_ctr_inc_16:
  "length c = 16 \<Longrightarrow> ssh_ctr_inc c AES_BLOCK_SIZE = ctr_plus c 1"
  using ssh_ctr_inc_eq [of c] by (simp add: AES_BLOCK_SIZE_def)

lemma ssh_ctr_add_16:
  "length c = 16 \<Longrightarrow> ssh_ctr_add c num AES_BLOCK_SIZE = ctr_plus c (unat num)"
  using ssh_ctr_add_eq [of c] by (simp add: AES_BLOCK_SIZE_def)

subsection \<open>The fill pass\<close>

lemma fill_slot_eq:
  assumes "length (kq_ctr q) = 16"
  shows "fill_slot E i (ctx, q) =
     (ctx\<lparr>evp_iv := ssh_ctr_inc (evp_iv ctx) AES_BLOCK_SIZE\<rparr>,
      q\<lparr>kq_keys := (kq_keys q)[i := xor_block (E (evp_key ctx) (evp_iv ctx)) mynull],
        kq_ctr := ctr_plus (kq_ctr q) 1\<rparr>)"
  using assms by (simp add: fill_slot_def EVP_EncryptUpdate_def ssh_ctr_inc_16)

lemma map_upt_shift:
  "f 0 # map (\<lambda>j. f (Suc j)) [0..<n] = map f [0..<Suc n]"
proof -
  have "map f [0..<Suc n] = f 0 # map f [Suc 0..<Suc n]"
    by (simp add: upt_conv_Cons del: upt_Suc)
  also have "map f [Suc 0..<Suc n] = map (\<lambda>j. f (Suc j)) [0..<n]"
    by (simp add: map_Suc_upt [symmetric] del: upt_Suc)
  finally show ?thesis by simp
qed

lemma fill_loop_eq:
  assumes "n = KQLEN - i" "i \<le> KQLEN" "length (kq_keys q) = KQLEN"
    "length (kq_ctr q) = 16" "length (evp_iv ctx) = 16"
  shows "fill_loop E i (ctx, q) =
     (ctx\<lparr>evp_iv := ctr_plus (evp_iv ctx) (KQLEN - i)\<rparr>,
      q\<lparr>kq_keys := take i (kq_keys q) @
          map (\<lambda>j. xor_block (E (evp_key ctx) (ctr_plus (evp_iv ctx) j)) mynull) [0..<KQLEN - i],
        kq_ctr := ctr_plus (kq_ctr q) (KQLEN - i)\<rparr>)"
  using assms
proof (induction n arbitrary: i ctx q)
  case 0
  then have "i = KQLEN" by simp
  then show ?case using 0 by (subst fill_loop.simps) simp
next
  case (Suc n)
  then have lt: "i < KQLEN" by simp
  let ?out = "xor_block (E (evp_key ctx) (evp_iv ctx)) mynull"
  let ?ctx1 = "ctx\<lparr>evp_iv := ctr_plus (evp_iv ctx) 1\<rparr>"
  let ?q1 = "q\<lparr>kq_keys := (kq_keys q)[i := ?out], kq_ctr := ctr_plus (kq_ctr q) 1\<rparr>"
  have slot: "fill_slot E i (ctx, q) = (?ctx1, ?q1)"
    using Suc.prems by (simp add: fill_slot_eq ssh_ctr_inc_16)
  have step: "fill_loop E i (ctx, q) = fill_loop E (i + 1) (?ctx1, ?q1)"
    using lt slot by (subst fill_loop.simps) simp
  have n: "n = KQLEN - (i + 1)" using Suc.prems by simp
  have rem: "KQLEN - i = Suc (KQLEN - (i + 1))" using lt by simp
  have tk: "take (Suc i) ((kq_keys q)[i := ?out]) = take i (kq_keys q) @ [?out]"
    using lt Suc.prems(3) by (simp add: take_Suc_conv_app_nth)
  have IH: "fill_loop E (i + 1) (?ctx1, ?q1) =
     (?ctx1\<lparr>evp_iv := ctr_plus (evp_iv ?ctx1) (KQLEN - (i + 1))\<rparr>,
      ?q1\<lparr>kq_keys := take (i + 1) (kq_keys ?q1) @
          map (\<lambda>j. xor_block (E (evp_key ?ctx1) (ctr_plus (evp_iv ?ctx1) j)) mynull)
            [0..<KQLEN - (i + 1)],
        kq_ctr := ctr_plus (kq_ctr ?q1) (KQLEN - (i + 1))\<rparr>)"
    using lt Suc.prems by (intro Suc.IH [OF n]) simp_all
  have keys: "take i (kq_keys q) @ [?out] @
      map (\<lambda>j. xor_block (E (evp_key ctx) (ctr_plus (evp_iv ctx) (Suc j))) mynull)
        [0..<KQLEN - (i + 1)]
    = take i (kq_keys q) @
      map (\<lambda>j. xor_block (E (evp_key ctx) (ctr_plus (evp_iv ctx) j)) mynull) [0..<KQLEN - i]"
    using map_upt_shift [of "\<lambda>j. xor_block (E (evp_key ctx) (ctr_plus (evp_iv ctx) j)) mynull"
        "KQLEN - (i + 1)"]
    by (simp only: rem append_Cons append_Nil ctr_plus_0)
  show ?case
    unfolding step IH using keys
    by (simp add: tk ctr_plus_plus rem del: upt_Suc)
qed

lemma funpow_inc_16:
  "length c = 16 \<Longrightarrow> ((\<lambda>c. ssh_ctr_inc c AES_BLOCK_SIZE) ^^ n) c = ctr_plus c n"
proof (induction n)
  case 0
  show ?case by simp
next
  case (Suc n)
  then show ?case by (simp add: ssh_ctr_inc_16 ctr_plus_plus)
qed

lemma fill_loop_ctr:
  assumes "n = KQLEN - i" "i \<le> KQLEN" "length (kq_ctr q) = 16"
  shows "kq_ctr (snd (fill_loop E i (ctx, q))) = ctr_plus (kq_ctr q) (KQLEN - i)"
  using assms
proof (induction n arbitrary: i ctx q)
  case 0
  then have "i = KQLEN" by simp
  then show ?case by (subst fill_loop.simps) simp
next
  case (Suc n)
  then have lt: "i < KQLEN" by simp
  obtain ctx1 q1 where slot: "fill_slot E i (ctx, q) = (ctx1, q1)"
    by (cases "fill_slot E i (ctx, q)")
  then have "kq_ctr q1 = ssh_ctr_inc (kq_ctr q) AES_BLOCK_SIZE"
    by (auto simp: fill_slot_def EVP_EncryptUpdate_def)
  then have q1: "kq_ctr q1 = ctr_plus (kq_ctr q) 1"
    using Suc.prems(3) by (simp add: ssh_ctr_inc_16)
  have step: "fill_loop E i (ctx, q) = fill_loop E (i + 1) (ctx1, q1)"
    using lt slot by (subst fill_loop.simps) simp
  have n: "n = KQLEN - (i + 1)" using Suc.prems by simp
  have rem: "KQLEN - i = Suc (KQLEN - (i + 1))" using lt by simp
  have "i + 1 \<le> KQLEN" using lt by simp
  moreover have "length (kq_ctr q1) = 16" using q1 Suc.prems(3) by simp
  ultimately have
    "kq_ctr (snd (fill_loop E (i + 1) (ctx1, q1))) = ctr_plus (kq_ctr q1) (KQLEN - (i + 1))"
    by (rule Suc.IH [OF n])
  then show ?case
    unfolding step rem by (simp add: q1 ctr_plus_plus)
qed

lemma unat_ring_advance:
  assumes "1 \<le> numkq" "numkq \<le> MAX_NUMKQ"
  shows "unat (ring_advance numkq) = KQLEN * nat (numkq - 1)"
proof -
  have "int KQLEN * (numkq - 1) = int (KQLEN * nat (numkq - 1))"
    using assms by simp
  moreover have "KQLEN * nat (numkq - 1) < 2 ^ 32"
  proof -
    have "nat (numkq - 1) \<le> 23"
      using assms by (simp add: MAX_NUMKQ_def MAX_THREADS_def)
    then have "KQLEN * nat (numkq - 1) \<le> 8192 * 23"
      by (simp add: KQLEN_def)
    then show ?thesis by simp
  qed
  ultimately show ?thesis
    by (simp add: ring_advance_def unsigned_of_nat take_bit_nat_eq_self del: of_nat_mult)
qed

lemma fill_pass_ctr:
  assumes "length (kq_ctr q) = 16" "1 \<le> numkq" "numkq \<le> MAX_NUMKQ"
  shows "kq_ctr (snd (fill_pass E numkq ctx q)) = ctr_plus (kq_ctr q) (nat numkq * KQLEN)"
    and "kq_ctr (snd (fill_pass E numkq ctx q)) =
      ssh_ctr_add (((\<lambda>c. ssh_ctr_inc c AES_BLOCK_SIZE) ^^ KQLEN) (kq_ctr q))
        (ring_advance numkq) AES_BLOCK_SIZE"
proof -
  let ?r = "fill_loop E 0 (EVP_EncryptInit_iv ctx (kq_ctr q), q)"
  have loop2: "kq_ctr (snd ?r) = ctr_plus (kq_ctr q) KQLEN"
    using fill_loop_ctr [of KQLEN 0 q E "EVP_EncryptInit_iv ctx (kq_ctr q)"] assms(1)
    by simp
  then have loop1: "kq_ctr (snd ?r) = ((\<lambda>c. ssh_ctr_inc c AES_BLOCK_SIZE) ^^ KQLEN) (kq_ctr q)"
    using assms(1) by (simp add: funpow_inc_16)
  have pass: "kq_ctr (snd (fill_pass E numkq ctx q)) =
      ssh_ctr_add (kq_ctr (snd ?r)) (ring_advance numkq) AES_BLOCK_SIZE"
    by (simp add: fill_pass_def split_beta)
  show "kq_ctr (snd (fill_pass E numkq ctx q)) =
      ssh_ctr_add (((\<lambda>c. ssh_ctr_inc c AES_BLOCK_SIZE) ^^ KQLEN) (kq_ctr q))
        (ring_advance numkq) AES_BLOCK_SIZE"
    using pass loop1 by simp
  have "KQLEN + KQLEN * nat (numkq - 1) = nat numkq * KQLEN"
  proof -
    have "nat numkq = Suc (nat (numkq - 1))" using assms(2) by simp
    then show ?thesis by simp
  qed
  then show "kq_ctr (snd (fill_pass E numkq ctx q)) = ctr_plus (kq_ctr q) (nat numkq * KQLEN)"
    using pass loop2 assms
    by (simp add: ssh_ctr_add_16 unat_ring_advance ctr_plus_plus)
qed

text \<open>
  Claim C2. One fill pass over a queue (the startup fill of queue 0 and the normal fill
  of any slot run the same \<open>fill_pass\<close>) performs \<open>KQLEN\<close> single increments of the
  16-byte counter followed by one bulk add of \<open>KQLEN * (numkq - 1)\<close>, and so leaves the
  counter \<open>numkq * KQLEN\<close> ahead of the counter the pass started with, modulo \<open>2 ^ 128\<close>.
  \<open>numkq\<close> ranges over the ring sizes the context can hold (\<open>1 .. MAX_NUMKQ\<close>).
\<close>

theorem fill_pass_counter_advance:
  assumes "length (kq_ctr q) = AES_BLOCK_SIZE" and "1 \<le> numkq" and "numkq \<le> MAX_NUMKQ"
  shows "kq_ctr (snd (fill_pass E numkq ctx q)) =
           ssh_ctr_add (((\<lambda>c. ssh_ctr_inc c AES_BLOCK_SIZE) ^^ KQLEN) (kq_ctr q))
             (word_of_int (int KQLEN * (numkq - 1))) AES_BLOCK_SIZE \<and>
         length (kq_ctr (snd (fill_pass E numkq ctx q))) = AES_BLOCK_SIZE \<and>
         be_val (kq_ctr (snd (fill_pass E numkq ctx q)))
           = (be_val (kq_ctr q) + nat numkq * KQLEN) mod 2 ^ 128"
proof -
  have len: "length (kq_ctr q) = 16" using assms(1) by (simp add: AES_BLOCK_SIZE_def)
  have "be_val (ctr_plus (kq_ctr q) (nat numkq * KQLEN))
      = (be_val (kq_ctr q) + nat numkq * KQLEN) mod 2 ^ 128"
    by (simp add: be_val_ctr_plus len)
  then show ?thesis
    using fill_pass_ctr [OF len assms(2,3), of E ctx] len
    by (simp add: ring_advance_def AES_BLOCK_SIZE_def)
qed

theorem fill_pass_counter_advance_witness:
  "length (kq_ctr \<lparr>kq_keys = [], kq_ctr = replicate 16 0xff, kq_qstate = KQEMPTY\<rparr>)
     = AES_BLOCK_SIZE \<and> (1::int) \<le> 8 \<and> (8::int) \<le> MAX_NUMKQ \<and>
   be_val (kq_ctr (snd (fill_pass (\<lambda>k b. b) 8 \<lparr>evp_key = [], evp_iv = []\<rparr>
       \<lparr>kq_keys = [], kq_ctr = replicate 16 0xff, kq_qstate = KQEMPTY\<rparr>)))
     = (be_val (kq_ctr \<lparr>kq_keys = [], kq_ctr = replicate 16 0xff, kq_qstate = KQEMPTY\<rparr>)
          + nat 8 * KQLEN) mod 2 ^ 128"
proof -
  have h: "length (kq_ctr \<lparr>kq_keys = [], kq_ctr = replicate 16 0xff, kq_qstate = KQEMPTY\<rparr>)
     = AES_BLOCK_SIZE" "(1::int) \<le> 8" "(8::int) \<le> MAX_NUMKQ"
    by (simp_all add: AES_BLOCK_SIZE_def MAX_NUMKQ_def MAX_THREADS_def)
  note c = fill_pass_counter_advance [OF h, of "\<lambda>k b. b" "\<lparr>evp_key = [], evp_iv = []\<rparr>"]
  from h c [THEN conjunct2, THEN conjunct2] show ?thesis by blast
qed

subsection \<open>Seeding the ring\<close>

lemma seed_loop_frame:
  "n = nat (nkq - i) \<Longrightarrow> seed_loop nkq i c = c\<lparr>c_q := c_q (seed_loop nkq i c)\<rparr>"
proof (induction n arbitrary: i c)
  case 0
  then show ?case by (subst (1 2) seed_loop.simps) simp
next
  case (Suc n)
  then have lt: "i < nkq" by simp
  let ?c1 = "c\<lparr>c_q := (c_q c)[nat i := seed_queue (c_aes_counter c) i (c_q c ! nat i)]\<rparr>"
  have step: "seed_loop nkq i c = seed_loop nkq (i + 1) ?c1"
    using lt by (subst seed_loop.simps) simp
  have "n = nat (nkq - (i + 1))" using Suc.prems by simp
  from Suc.IH [OF this, of ?c1]
  have "seed_loop nkq (i + 1) ?c1 = ?c1\<lparr>c_q := c_q (seed_loop nkq (i + 1) ?c1)\<rparr>" .
  then show ?case unfolding step by simp
qed

lemma seed_loop_q:
  assumes "n = nat (nkq - i)" "0 \<le> i" "nkq \<le> int (length (c_q c))"
  shows "length (c_q (seed_loop nkq i c)) = length (c_q c) \<and>
         (\<forall>j < length (c_q c). c_q (seed_loop nkq i c) ! j =
            (if i \<le> int j \<and> int j < nkq then seed_queue (c_aes_counter c) (int j) (c_q c ! j)
             else c_q c ! j))"
  using assms
proof (induction n arbitrary: i c)
  case 0
  then have "\<not> i < nkq" by simp
  then show ?case by (subst (1 2) seed_loop.simps) auto
next
  case (Suc n)
  then have lt: "i < nkq" by simp
  let ?c1 = "c\<lparr>c_q := (c_q c)[nat i := seed_queue (c_aes_counter c) i (c_q c ! nat i)]\<rparr>"
  have step: "seed_loop nkq i c = seed_loop nkq (i + 1) ?c1"
    using lt by (subst seed_loop.simps) simp
  have n: "n = nat (nkq - (i + 1))" using Suc.prems by simp
  have i1: "0 \<le> i + 1" using Suc.prems by simp
  have len1: "nkq \<le> int (length (c_q ?c1))" using Suc.prems by simp
  note IH = Suc.IH [OF n i1 len1]
  have il: "nat i < length (c_q c)" using lt Suc.prems by simp
  show ?case
  proof (intro conjI allI impI)
    show "length (c_q (seed_loop nkq i c)) = length (c_q c)"
      unfolding step using IH by simp
  next
    fix j assume j: "j < length (c_q c)"
    then have "c_q (seed_loop nkq (i + 1) ?c1) ! j =
        (if i + 1 \<le> int j \<and> int j < nkq then seed_queue (c_aes_counter ?c1) (int j) (c_q ?c1 ! j)
         else c_q ?c1 ! j)"
      using IH by simp
    moreover have "int j = i \<longleftrightarrow> j = nat i" using Suc.prems(2) by auto
    ultimately show "c_q (seed_loop nkq i c) ! j =
        (if i \<le> int j \<and> int j < nkq then seed_queue (c_aes_counter c) (int j) (c_q c ! j)
         else c_q c ! j)"
      unfolding step using j il lt by (cases "j = nat i") (auto simp: nth_list_update)
  qed
qed


lemma spawn_one_frame:
  "c_q (fst (spawn_one p i cw)) = c_q (fst cw) \<and>
   c_qidx (fst (spawn_one p i cw)) = c_qidx (fst cw) \<and>
   c_ridx (fst (spawn_one p i cw)) = c_ridx (fst cw) \<and>
   c_state (fst (spawn_one p i cw)) = c_state (fst cw) \<and>
   c_keylen (fst (spawn_one p i cw)) = c_keylen (fst cw) \<and>
   c_orig_key (fst (spawn_one p i cw)) = c_orig_key (fst cw) \<and>
   c_aes_key (fst (spawn_one p i cw)) = c_aes_key (fst cw) \<and>
   c_aes_counter (fst (spawn_one p i cw)) = c_aes_counter (fst cw) \<and>
   w_mem (snd (spawn_one p i cw)) = w_mem (snd cw) \<and>
   w_heap (snd (spawn_one p i cw)) = w_heap (snd cw) \<and>
   w_released (snd (spawn_one p i cw)) = w_released (snd cw) \<and>
   g_numkq (snd (spawn_one p i cw)) = g_numkq (snd cw) \<and>
   g_cipher_threads (snd (spawn_one p i cw)) = g_cipher_threads (snd cw)"
  by (simp add: spawn_one_def Let_def)

lemma fold_spawn_frame:
  "c_q (fst (fold (spawn_one p) js cw)) = c_q (fst cw) \<and>
   c_qidx (fst (fold (spawn_one p) js cw)) = c_qidx (fst cw) \<and>
   c_ridx (fst (fold (spawn_one p) js cw)) = c_ridx (fst cw) \<and>
   c_state (fst (fold (spawn_one p) js cw)) = c_state (fst cw) \<and>
   c_keylen (fst (fold (spawn_one p) js cw)) = c_keylen (fst cw) \<and>
   c_orig_key (fst (fold (spawn_one p) js cw)) = c_orig_key (fst cw) \<and>
   c_aes_key (fst (fold (spawn_one p) js cw)) = c_aes_key (fst cw) \<and>
   c_aes_counter (fst (fold (spawn_one p) js cw)) = c_aes_counter (fst cw) \<and>
   w_mem (snd (fold (spawn_one p) js cw)) = w_mem (snd cw) \<and>
   w_heap (snd (fold (spawn_one p) js cw)) = w_heap (snd cw) \<and>
   w_released (snd (fold (spawn_one p) js cw)) = w_released (snd cw) \<and>
   g_numkq (snd (fold (spawn_one p) js cw)) = g_numkq (snd cw) \<and>
   g_cipher_threads (snd (fold (spawn_one p) js cw)) = g_cipher_threads (snd cw)"
proof (induction js arbitrary: cw)
  case Nil
  show ?case by simp
next
  case (Cons j js)
  show ?case
    using Cons [of "spawn_one p j cw"] spawn_one_frame [of p j cw] by simp
qed

lemmas spawn_threads_frame = fold_spawn_frame [of p "[0..<nat (g_cipher_threads (snd cw))]" cw,
    folded spawn_threads_def] for p cw

lemma unat_seed_offset:
  assumes "0 \<le> i" "i \<le> MAX_NUMKQ"
  shows "unat (word_of_int (i * int KQLEN) :: u32) = nat i * KQLEN"
proof -
  have "i * int KQLEN = int (nat i * KQLEN)" using assms by simp
  moreover have "nat i * KQLEN < 2 ^ 32"
  proof -
    have "nat i \<le> 24" using assms by (simp add: MAX_NUMKQ_def MAX_THREADS_def)
    then have "nat i * KQLEN \<le> 24 * 8192" by (simp add: KQLEN_def)
    then show ?thesis by simp
  qed
  ultimately show ?thesis
    by (simp add: unsigned_of_nat take_bit_nat_eq_self del: of_nat_mult)
qed

lemma seed_queue_eq:
  assumes "length counter = 16" "0 \<le> i" "i \<le> MAX_NUMKQ"
  shows "seed_queue counter i qu =
     qu\<lparr>kq_ctr := ctr_plus counter (nat i * KQLEN), kq_qstate := KQEMPTY\<rparr>"
proof -
  have "memcpy_block counter = counter"
    using assms(1) by (simp add: memcpy_block_def AES_BLOCK_SIZE_def)
  moreover have "ssh_ctr_add counter (word_of_int (i * int KQLEN)) AES_BLOCK_SIZE
      = ctr_plus counter (nat i * KQLEN)"
    by (simp only: ssh_ctr_add_16 [OF assms(1)] unat_seed_offset [OF assms(2,3)])
  ultimately show ?thesis by (simp only: seed_queue_def)
qed

lemma seed_ring_props:
  assumes "length (c_q c) = nat MAX_NUMKQ" "length (c_aes_counter c) = 16"
    "1 \<le> nkq" "nkq \<le> MAX_NUMKQ"
  shows "c_q (seed_ring nkq c) ! 0 = (c_q c ! 0)\<lparr>kq_ctr := c_aes_counter c, kq_qstate := KQINIT\<rparr>"
    and "\<And>j. 1 \<le> j \<Longrightarrow> int j < nkq \<Longrightarrow>
       c_q (seed_ring nkq c) ! j =
         (c_q c ! j)\<lparr>kq_ctr := ctr_plus (c_aes_counter c) (j * KQLEN), kq_qstate := KQEMPTY\<rparr>"
    and "\<And>j. nkq \<le> int j \<Longrightarrow> j < length (c_q c) \<Longrightarrow> c_q (seed_ring nkq c) ! j = c_q c ! j"
    and "length (c_q (seed_ring nkq c)) = length (c_q c)"
    and "c_qidx (seed_ring nkq c) = 0" and "c_ridx (seed_ring nkq c) = 0"
    and "seed_ring nkq c = c\<lparr>c_q := c_q (seed_ring nkq c), c_qidx := 0, c_ridx := 0\<rparr>"
proof -
  let ?q0 = "(c_q c ! 0)\<lparr>kq_ctr := memcpy_block (c_aes_counter c), kq_qstate := KQINIT\<rparr>"
  let ?c1 = "c\<lparr>c_q := (c_q c)[0 := ?q0]\<rparr>"
  have len24: "length (c_q c) = 24" using assms(1) by (simp add: MAX_NUMKQ_def MAX_THREADS_def)
  have mc: "memcpy_block (c_aes_counter c) = c_aes_counter c"
    using assms(2) by (simp add: memcpy_block_def AES_BLOCK_SIZE_def)
  have sr: "seed_ring nkq c = (seed_loop nkq 1 ?c1)\<lparr>c_qidx := 0, c_ridx := 0\<rparr>"
    by (simp add: seed_ring_def Let_def)
  have bound: "nkq \<le> int (length (c_q ?c1))"
    using assms(1,4) by (simp add: MAX_NUMKQ_def MAX_THREADS_def)
  note L = seed_loop_q [OF refl _ bound, of 1, simplified]
  show "length (c_q (seed_ring nkq c)) = length (c_q c)"
    using L by (simp add: sr)
  show "c_q (seed_ring nkq c) ! 0 = (c_q c ! 0)\<lparr>kq_ctr := c_aes_counter c, kq_qstate := KQINIT\<rparr>"
    using L len24 by (simp add: sr mc)
  show "c_q (seed_ring nkq c) ! j =
         (c_q c ! j)\<lparr>kq_ctr := ctr_plus (c_aes_counter c) (j * KQLEN), kq_qstate := KQEMPTY\<rparr>"
    if "1 \<le> j" "int j < nkq" for j
  proof -
    have j: "j < length (c_q c)" using that assms(1,4) by simp
    have "0 \<le> int j" "int j \<le> MAX_NUMKQ" using that assms(4) by simp_all
    from seed_queue_eq [OF assms(2) this]
    show ?thesis using L j that by (simp add: sr)
  qed
  show "c_q (seed_ring nkq c) ! j = c_q c ! j" if "nkq \<le> int j" "j < length (c_q c)" for j
    using L that assms(3) by (simp add: sr)
  show "c_qidx (seed_ring nkq c) = 0" "c_ridx (seed_ring nkq c) = 0"
    by (simp_all add: sr)
  show "seed_ring nkq c = c\<lparr>c_q := c_q (seed_ring nkq c), c_qidx := 0, c_ridx := 0\<rparr>"
    using seed_loop_frame [OF refl, of nkq 1 ?c1] by (simp add: sr)
qed

text \<open>
  Claim C5. When \<open>ssh_aes_ctr_init\<close> finds both key and IV present it runs \<open>start_pool\<close>
  on the context, which seeds the ring first and creates the threads after that. The
  seeded ring has queue 0 at the IV in state \<open>KQINIT\<close>, every other queue \<open>i < numkq\<close> at
  \<open>IV + i * KQLEN\<close> modulo \<open>2 ^ 128\<close> in state \<open>KQEMPTY\<close>, and both consumer indices at
  zero; creating the threads changes none of this.
\<close>

theorem init_seeds_ring:
  assumes "c_state c = (HAVE_KEY OR HAVE_IV)"
    and "length (c_q c) = nat MAX_NUMKQ"
    and "length (c_aes_counter c) = AES_BLOCK_SIZE"
    and "1 \<le> g_numkq w" and "g_numkq w \<le> MAX_NUMKQ"
  shows "start_pool E p (c, w) =
           await_first_fill E p (spawn_threads p (seed_ring (g_numkq w) c, w)) \<and>
         kq_ctr (c_q (seed_ring (g_numkq w) c) ! 0) = c_aes_counter c \<and>
         kq_qstate (c_q (seed_ring (g_numkq w) c) ! 0) = KQINIT \<and>
         (\<forall>i. 1 \<le> i \<and> int i < g_numkq w \<longrightarrow>
            length (kq_ctr (c_q (seed_ring (g_numkq w) c) ! i)) = AES_BLOCK_SIZE \<and>
            be_val (kq_ctr (c_q (seed_ring (g_numkq w) c) ! i))
              = (be_val (c_aes_counter c) + i * KQLEN) mod 2 ^ 128 \<and>
            kq_qstate (c_q (seed_ring (g_numkq w) c) ! i) = KQEMPTY) \<and>
         c_qidx (seed_ring (g_numkq w) c) = 0 \<and>
         c_ridx (seed_ring (g_numkq w) c) = 0 \<and>
         c_q (fst (spawn_threads p (seed_ring (g_numkq w) c, w))) = c_q (seed_ring (g_numkq w) c) \<and>
         c_qidx (fst (spawn_threads p (seed_ring (g_numkq w) c, w))) = 0 \<and>
         c_ridx (fst (spawn_threads p (seed_ring (g_numkq w) c, w))) = 0"
proof -
  have len: "length (c_aes_counter c) = 16" using assms(3) by (simp add: AES_BLOCK_SIZE_def)
  note S = seed_ring_props [OF assms(2) len assms(4,5)]
  have a: "start_pool E p (c, w) =
           await_first_fill E p (spawn_threads p (seed_ring (g_numkq w) c, w))"
    using assms(1) by (simp add: start_pool_def)
  have b: "length (kq_ctr (c_q (seed_ring (g_numkq w) c) ! i)) = AES_BLOCK_SIZE \<and>
            be_val (kq_ctr (c_q (seed_ring (g_numkq w) c) ! i))
              = (be_val (c_aes_counter c) + i * KQLEN) mod 2 ^ 128 \<and>
            kq_qstate (c_q (seed_ring (g_numkq w) c) ! i) = KQEMPTY"
    if "1 \<le> i" "int i < g_numkq w" for i
    using S(2) [OF that] len by (simp add: be_val_ctr_plus AES_BLOCK_SIZE_def)
  note F = spawn_threads_frame [of p "(seed_ring (g_numkq w) c, w)"]
  show ?thesis
    using a b S(1,5,6) F by simp
qed

theorem init_seeds_ring_witness:
  "kq_qstate (c_q (seed_ring 8
      \<lparr>c_struct_id = 0, c_keylen = 128, c_state = 3, c_qidx = 5, c_ridx = 7,
       c_id = replicate 6 0, c_aes_key = [], c_orig_key = Some 0,
       c_aes_counter = replicate 16 0xff, c_tid = replicate 6 0,
       c_q = replicate 24 \<lparr>kq_keys = [], kq_ctr = replicate 16 0, kq_qstate = KQFULL\<rparr>\<rparr>) ! 0)
     = KQINIT \<and>
   be_val (kq_ctr (c_q (seed_ring 8
      \<lparr>c_struct_id = 0, c_keylen = 128, c_state = 3, c_qidx = 5, c_ridx = 7,
       c_id = replicate 6 0, c_aes_key = [], c_orig_key = Some 0,
       c_aes_counter = replicate 16 0xff, c_tid = replicate 6 0,
       c_q = replicate 24 \<lparr>kq_keys = [], kq_ctr = replicate 16 0, kq_qstate = KQFULL\<rparr>\<rparr>) ! 1))
     = (be_val (replicate 16 0xff) + 1 * KQLEN) mod 2 ^ 128"
proof -
  let ?c = "\<lparr>c_struct_id = 0, c_keylen = 128, c_state = 3, c_qidx = 5, c_ridx = 7,
       c_id = replicate 6 0, c_aes_key = [], c_orig_key = Some 0,
       c_aes_counter = replicate 16 0xff, c_tid = replicate 6 0,
       c_q = replicate 24 \<lparr>kq_keys = [], kq_ctr = replicate 16 0, kq_qstate = KQFULL\<rparr>\<rparr>"
  let ?w = "\<lparr>w_heap = Map.empty, w_mem = Map.empty, w_released = [], w_threads = [],
       w_next_tid = 1, w_log = [], g_cipher_threads = 2, g_numkq = 8, g_X = 0\<rparr>"
  have h: "c_state ?c = (HAVE_KEY OR HAVE_IV)" "length (c_q ?c) = nat MAX_NUMKQ"
    "length (c_aes_counter ?c) = AES_BLOCK_SIZE" "1 \<le> g_numkq ?w" "g_numkq ?w \<le> MAX_NUMKQ"
    by (simp_all add: HAVE_KEY_def HAVE_IV_def MAX_NUMKQ_def MAX_THREADS_def AES_BLOCK_SIZE_def)
  note T = init_seeds_ring [OF h, of "\<lambda>k b. b"
      "\<lparr>nprocs = 4, smt_active = 0, malloc_result = None, malloc_content = ?c, create_ok = []\<rparr>"]
  from T have "kq_qstate (c_q (seed_ring (g_numkq ?w) ?c) ! 0) = KQINIT" by blast
  moreover from T have "\<forall>i. 1 \<le> i \<and> int i < g_numkq ?w \<longrightarrow>
      be_val (kq_ctr (c_q (seed_ring (g_numkq ?w) ?c) ! i))
        = (be_val (c_aes_counter ?c) + i * KQLEN) mod 2 ^ 128" by blast
  then have "be_val (kq_ctr (c_q (seed_ring (g_numkq ?w) ?c) ! 1))
        = (be_val (c_aes_counter ?c) + 1 * KQLEN) mod 2 ^ 128"
    by (rule allE [where x = 1]) simp
  ultimately show ?thesis by simp
qed

subsection \<open>Stopping the producers and cleanup\<close>

lemma each_cancel_eq:
  "each_tid pthread_cancel ts w =
     (if set ts \<subseteq> set (w_threads w) then Inr (w\<lparr>w_log := w_log w @ map Cancel ts\<rparr>)
      else Inl MemoryFault)"
  by (induction ts arbitrary: w) (auto simp: pthread_cancel_def)

lemma join_one_eq:
  "join_one t w =
     (if t \<in> set (w_threads w) then
        Inr (w\<lparr>w_threads := removeAll t (w_threads w), w_log := w_log w @ [Join t]\<rparr>)
      else Inl MemoryFault)"
  by (simp add: join_one_def pthread_kill0_def pthread_join_def)

lemma filter_removeAll_notin:
  "filter (\<lambda>x. x \<notin> set ts) (removeAll t xs) = filter (\<lambda>x. x \<noteq> t \<and> x \<notin> set ts) xs"
  by (induction xs) auto

lemma each_join_eq:
  "each_tid join_one ts w =
     (if distinct ts \<and> set ts \<subseteq> set (w_threads w) then
        Inr (w\<lparr>w_threads := filter (\<lambda>t. t \<notin> set ts) (w_threads w),
               w_log := w_log w @ map Join ts\<rparr>)
      else Inl MemoryFault)"
proof (induction ts arbitrary: w)
  case Nil
  show ?case by simp
next
  case (Cons t ts)
  show ?case
  proof (cases "t \<in> set (w_threads w)")
    case False
    then show ?thesis by (simp add: join_one_eq)
  next
    case True
    let ?w1 = "w\<lparr>w_threads := removeAll t (w_threads w), w_log := w_log w @ [Join t]\<rparr>"
    have sub: "set ts \<subseteq> set (w_threads ?w1) \<longleftrightarrow> t \<notin> set ts \<and> set ts \<subseteq> set (w_threads w)"
      by auto
    have "each_tid join_one (t # ts) w = each_tid join_one ts ?w1"
      using True by (simp add: join_one_eq)
    also have "\<dots> =
       (if distinct ts \<and> set ts \<subseteq> set (w_threads ?w1) then
          Inr (?w1\<lparr>w_threads := filter (\<lambda>t. t \<notin> set ts) (w_threads ?w1),
                   w_log := w_log ?w1 @ map Join ts\<rparr>)
        else Inl MemoryFault)"
      by (rule Cons.IH)
    finally show ?thesis
      unfolding sub using True by (auto simp: filter_removeAll_notin)
  qed
qed

text \<open>
  \<open>stop_and_join_pregen_threads\<close> returns exactly when the ids it reads are those of
  distinct threads that exist. It then cancels them in the order of \<open>c->tid\<close>, joins
  them in the same order, and touches nothing else.
\<close>

lemma stop_and_join_eq:
  "stop_and_join_pregen_threads c w =
     (if distinct (stop_tids c w) \<and> set (stop_tids c w) \<subseteq> set (w_threads w) then
        Inr (w\<lparr>w_threads := filter (\<lambda>t. t \<notin> set (stop_tids c w)) (w_threads w),
               w_log := w_log w @ map Cancel (stop_tids c w) @ map Join (stop_tids c w)\<rparr>)
      else Inl MemoryFault)"
  by (simp add: stop_and_join_pregen_threads_def each_cancel_eq each_join_eq)

lemma stop_and_join_Inr:
  assumes "stop_and_join_pregen_threads c w = Inr w1"
  shows "distinct (stop_tids c w) \<and> set (stop_tids c w) \<subseteq> set (w_threads w) \<and>
     w1 = w\<lparr>w_threads := filter (\<lambda>t. t \<notin> set (stop_tids c w)) (w_threads w),
            w_log := w_log w @ map Cancel (stop_tids c w) @ map Join (stop_tids c w)\<rparr>"
  using assms unfolding stop_and_join_eq by (auto split: if_splits)

lemma stop_and_join_frame:
  assumes "stop_and_join_pregen_threads c w = Inr w1"
  shows "w_mem w1 = w_mem w \<and> w_heap w1 = w_heap w \<and> w_released w1 = w_released w \<and>
     g_numkq w1 = g_numkq w \<and> g_cipher_threads w1 = g_cipher_threads w \<and>
     w_next_tid w1 = w_next_tid w \<and> g_X w1 = g_X w \<and>
     w_threads w1 = filter (\<lambda>t. t \<notin> set (stop_tids c w)) (w_threads w) \<and>
     w_log w1 = w_log w @ map Cancel (stop_tids c w) @ map Join (stop_tids c w)"
  using stop_and_join_Inr [OF assms] by simp


lemma length_zero_bytes [simp]: "length (zero_bytes bs) = length bs"
  by (simp add: zero_bytes_def)



lemma cleanup_attached:
  assumes "app_data ctx = Some a" and "w_heap w a = Some c"
  shows "ssh_aes_ctr_cleanup ctx w =
     (case stop_and_join_pregen_threads c w of
        Inl e \<Rightarrow> Inl e
      | Inr w1 \<Rightarrow> Inr (1, ctx\<lparr>app_data := None\<rparr>, free_ctx a (memset_ctx c) w1))"
  using assms by (simp add: ssh_aes_ctr_cleanup_def Let_def split: sum.splits)


text \<open>
  On a detached context, and on an attached one whose recorded thread ids are those of
  distinct threads that exist, \<open>ssh_aes_ctr_cleanup\<close> returns 1. With no state attached it
  changes nothing. Otherwise it detaches the state pointer, so that a second call finds
  nothing attached: it returns 1 again, changes nothing and releases no block a second
  time.
\<close>

lemma cleanup_returns_and_detaches:
  assumes "app_data ctx = None \<or>
     (\<exists>a c. app_data ctx = Some a \<and> w_heap w a = Some c \<and>
            distinct (stop_tids c w) \<and> set (stop_tids c w) \<subseteq> set (w_threads w))"
  shows "\<exists>ctx' w'. ssh_aes_ctr_cleanup ctx w = Inr (1, ctx', w') \<and>
           app_data ctx' = None \<and>
           ssh_aes_ctr_cleanup ctx' w' = Inr (1, ctx', w') \<and>
           (app_data ctx = None \<longrightarrow> ctx' = ctx \<and> w' = w) \<and>
           (\<forall>a. app_data ctx = Some a \<longrightarrow>
              w_heap w' a = None \<and> length (w_released w') = length (w_released w) + 1)"
proof (cases "app_data ctx")
  case None
  then show ?thesis by (simp add: ssh_aes_ctr_cleanup_def)
next
  case (Some a)
  with assms obtain c where c: "w_heap w a = Some c"
    and v: "distinct (stop_tids c w) \<and> set (stop_tids c w) \<subseteq> set (w_threads w)" by auto
  from v obtain w1 where w1: "stop_and_join_pregen_threads c w = Inr w1"
    by (simp add: stop_and_join_eq)
  let ?w' = "free_ctx a (memset_ctx c) w1"
  have "ssh_aes_ctr_cleanup ctx w = Inr (1, ctx\<lparr>app_data := None\<rparr>, ?w')"
    using cleanup_attached [OF Some c] w1 by simp
  moreover have "ssh_aes_ctr_cleanup (ctx\<lparr>app_data := None\<rparr>) ?w'
      = Inr (1, ctx\<lparr>app_data := None\<rparr>, ?w')"
    by (simp add: ssh_aes_ctr_cleanup_def)
  moreover have "w_heap ?w' a = None" "length (w_released ?w') = length (w_released w) + 1"
    using stop_and_join_frame [OF w1] by (simp_all add: free_ctx_def)
  ultimately show ?thesis using Some by simp
qed

lemma init_iv_only_fresh:
  "ssh_aes_ctr_init ex_KS ex_E ex_platform \<lparr>app_data = None, key_length = 16\<rparr> None (Some 200)
       ex_world0 =
     Inr (1, \<lparr>app_data = Some 2, key_length = 16\<rparr>,
          ex_world0\<lparr>w_heap := [2 \<mapsto> ex_c\<lparr>c_aes_counter := memcpy_block ex_iv, c_state := HAVE_IV\<rparr>]\<rparr>)"
  by (simp add: ssh_aes_ctr_init_def attach_def ex_platform_def ex_world0_def rekey_reset_def
      install_key_def install_iv_def start_pool_def sizing_def c_div_def Let_def
      HAVE_NONE_def HAVE_KEY_def HAVE_IV_def MAX_THREADS_def MAX_NUMKQ_def)

text \<open>
  Claim C7. \<open>ssh_aes_ctr_cleanup\<close> does not always return. It hands \<open>c->tid[i]\<close> to
  \<open>pthread_cancel\<close> for every \<open>i < cipher_threads\<close> whatever the state of the context,
  while \<open>ssh_aes_ctr_init\<close> writes \<open>c->tid\<close> only when it starts the producers, in a block
  that \<open>xmalloc\<close> did not clear. In a process without any context, the first call of
  \<open>ssh_aes_ctr_init\<close> with an IV and no key (as \<open>EVP_CipherInit\<close> makes it for a cipher
  with \<open>EVP_CIPH_ALWAYS_CALL_INIT\<close>) returns 1 and leaves an attached context in state
  \<open>HAVE_IV\<close>; no thread exists and none was ever created. \<open>ssh_aes_ctr_cleanup\<close> on this
  context reads \<open>c->tid[0]\<close>, which is not the id of a thread, and does not return.
\<close>

theorem cleanup_faults_on_unstarted_context:
  "\<exists>ctx1 w1 c1.
     ssh_aes_ctr_init ex_KS ex_E ex_platform \<lparr>app_data = None, key_length = 16\<rparr> None (Some 200)
       ex_world0 = Inr (1, ctx1, w1) \<and>
     app_data ctx1 = Some 2 \<and> w_heap w1 2 = Some c1 \<and> c_state c1 = HAVE_IV \<and>
     w_threads w1 = [] \<and> w_log w1 = [] \<and>
     stop_tids c1 w1 = [1, 2] \<and>
     ssh_aes_ctr_cleanup ctx1 w1 = Inl MemoryFault"
proof -
  let ?ctx1 = "\<lparr>app_data = Some 2, key_length = 16\<rparr>"
  let ?c1 = "ex_c\<lparr>c_aes_counter := memcpy_block ex_iv, c_state := HAVE_IV\<rparr>"
  let ?w1 = "ex_world0\<lparr>w_heap := [2 \<mapsto> ?c1]\<rparr>"
  have st: "stop_tids ?c1 ?w1 = [1, 2]"
    by (simp add: stop_tids_def ex_c_def ex_world0_def)
  have thr: "w_threads ?w1 = []" "w_log ?w1 = []"
    by (simp_all add: ex_world0_def)
  have "stop_and_join_pregen_threads ?c1 ?w1 = Inl MemoryFault"
    unfolding stop_and_join_eq st thr by simp
  then have "ssh_aes_ctr_cleanup ?ctx1 ?w1 = Inl MemoryFault"
    using cleanup_attached [of ?ctx1 2 ?w1 ?c1] by simp
  then show ?thesis
    using init_iv_only_fresh st thr by (intro exI [of _ ?ctx1] exI [of _ ?w1] exI [of _ ?c1]) simp
qed




subsection \<open>Initialisation: key length and rekey\<close>

lemma sizing_frame [simp]:
  "w_heap (sizing p w) = w_heap w" "w_mem (sizing p w) = w_mem w"
  "w_threads (sizing p w) = w_threads w" "w_log (sizing p w) = w_log w"
  "w_released (sizing p w) = w_released w" "w_next_tid (sizing p w) = w_next_tid w"
  by (simp_all add: sizing_def Let_def)

lemma fold_spawn_log:
  "\<exists>evs. w_log (snd (fold (spawn_one p) js cw)) = w_log (snd cw) @ evs \<and>
         set evs \<subseteq> range Create \<union> {CreateFailed} \<and>
         set (w_threads (snd cw)) \<subseteq> set (w_threads (snd (fold (spawn_one p) js cw)))"
proof (induction js arbitrary: cw)
  case Nil
  show ?case by simp
next
  case (Cons j js)
  obtain e where e: "w_log (snd (spawn_one p j cw)) = w_log (snd cw) @ [e]"
      "e \<in> range Create \<union> {CreateFailed}"
      "set (w_threads (snd cw)) \<subseteq> set (w_threads (snd (spawn_one p j cw)))"
    by (cases "j < length (create_ok p) \<and> create_ok p ! j") (auto simp: spawn_one_def Let_def)
  from Cons [of "spawn_one p j cw"] obtain evs where
    evs: "w_log (snd (fold (spawn_one p) js (spawn_one p j cw)))
            = w_log (snd (spawn_one p j cw)) @ evs"
      "set evs \<subseteq> range Create \<union> {CreateFailed}"
      "set (w_threads (snd (spawn_one p j cw)))
         \<subseteq> set (w_threads (snd (fold (spawn_one p) js (spawn_one p j cw))))"
    by blast
  show ?case
    using e evs by (intro exI [of _ "e # evs"]) auto
qed

lemmas spawn_threads_log = fold_spawn_log [of p "[0..<nat (g_cipher_threads (snd cw))]" cw,
    folded spawn_threads_def] for p cw




lemma await_first_fill_world:
  "await_first_fill E p cw = Inr (c', w') \<Longrightarrow>
     w' = snd cw \<and> keylen_supported (c_keylen (fst cw)) \<and>
     c_keylen c' = c_keylen (fst cw) \<and> c_state c' = c_state (fst cw) \<and>
     c_tid c' = c_tid (fst cw)"
  by (auto simp: await_first_fill_def Let_def split: if_splits option.splits)

lemma await_first_fill_unsupported:
  "\<not> keylen_supported (c_keylen (fst cw)) \<Longrightarrow>
     await_first_fill E p cw =
       (if created p (snd cw) = [] then Inl BlockedForever else Inl (ProcessExit 1))"
  by (simp add: await_first_fill_def Let_def)



lemma created_spawn [simp]:
  "created p (snd (spawn_threads p cw)) = created p (snd cw)"
  using spawn_threads_frame [of p cw] by (simp add: created_def)

lemma seed_loop_fields:
  "c_keylen (seed_loop nkq i c) = c_keylen c \<and> c_state (seed_loop nkq i c) = c_state c \<and>
   c_orig_key (seed_loop nkq i c) = c_orig_key c \<and> c_tid (seed_loop nkq i c) = c_tid c"
proof -
  have "seed_loop nkq i c = c\<lparr>c_q := c_q (seed_loop nkq i c)\<rparr>"
    by (rule seed_loop_frame [OF refl])
  then show ?thesis by (metis ssh_aes_ctr_ctx_mt.select_convs(2,3,8,10) ssh_aes_ctr_ctx_mt.surjective
        ssh_aes_ctr_ctx_mt.update_convs(11))
qed

lemma seed_ring_fields [simp]:
  "c_keylen (seed_ring nkq c) = c_keylen c" "c_state (seed_ring nkq c) = c_state c"
  "c_orig_key (seed_ring nkq c) = c_orig_key c" "c_tid (seed_ring nkq c) = c_tid c"
  using seed_loop_fields by (simp_all add: seed_ring_def Let_def)

lemma start_pool_unsupported:
  assumes "c_state c = (HAVE_KEY OR HAVE_IV)" "\<not> keylen_supported (c_keylen c)"
  shows "start_pool E p (c, w) =
     (if created p w = [] then Inl BlockedForever else Inl (ProcessExit 1))"
proof -
  let ?cw = "spawn_threads p (seed_ring (g_numkq w) c, w)"
  have "c_keylen (fst ?cw) = c_keylen c"
    using spawn_threads_frame [of p "(seed_ring (g_numkq w) c, w)"] by simp
  then have "\<not> keylen_supported (c_keylen (fst ?cw))" using assms(2) by simp
  from await_first_fill_unsupported [OF this, of E p]
  show ?thesis using assms(1) by (simp add: start_pool_def)
qed

lemma start_pool_Inr:
  assumes "start_pool E p (c, w) = Inr (c', w')"
  shows "c_state c' = c_state c \<and> c_keylen c' = c_keylen c \<and>
         (c_state c = (HAVE_KEY OR HAVE_IV) \<longrightarrow> keylen_supported (c_keylen c))"
proof (cases "c_state c = (HAVE_KEY OR HAVE_IV)")
  case False
  then show ?thesis using assms by (auto simp: start_pool_def)
next
  case True
  let ?cw = "spawn_threads p (seed_ring (g_numkq w) c, w)"
  have "await_first_fill E p ?cw = Inr (c', w')"
    using assms True by (simp add: start_pool_def)
  from await_first_fill_world [OF this]
  show ?thesis
    using spawn_threads_frame [of p "(seed_ring (g_numkq w) c, w)"] by simp
qed

lemma attach_Inr:
  "attach p ctx w = Inr (a, c0, ctx1, w1) \<Longrightarrow>
     app_data ctx1 = Some a \<and> key_length ctx1 = key_length ctx \<and> w_mem w1 = w_mem w"
  by (auto simp: attach_def Let_def split: option.splits)

lemma install_key_Some:
  "install_key KS ctx (Some k) w c = Inr c2 \<Longrightarrow> c_keylen c2 = key_length ctx * 8"
  by (auto simp: install_key_def split: option.splits)

lemma install_iv_keylen:
  "install_iv iv w c = Inr c3 \<Longrightarrow> c_keylen c3 = c_keylen c"
  by (auto simp: install_iv_def split: option.splits)

lemma init_Inr_cases:
  assumes "ssh_aes_ctr_init KS E p ctx key iv w = Inr (r, ctx', w')"
  obtains a c0 w1 c1 w2 c2 c3 c4 w3 where
    "attach p ctx (sizing p w) = Inr (a, c0, ctx', w1)"
    "rekey_reset (c0, w1) = Inr (c1, w2)"
    "install_key KS ctx' key w2 c1 = Inr c2"
    "install_iv iv w2 c2 = Inr c3"
    "start_pool E p (c3, w2) = Inr (c4, w3)"
    "r = 1" "w' = w3\<lparr>w_heap := (w_heap w3)(a \<mapsto> c4)\<rparr>"
  using assms
  by (auto simp: ssh_aes_ctr_init_def Let_def split: sum.splits prod.splits)

text \<open>
  The call of the counterexample below: a fresh context, a 20-byte key (160 bits) and no
  IV, in the example process.
\<close>

lemma init_key160:
  "ssh_aes_ctr_init ex_KS ex_E ex_platform \<lparr>app_data = None, key_length = 20\<rparr>
       (Some 300) None ex_world =
     Inr (1, \<lparr>app_data = Some 2, key_length = 20\<rparr>,
          ex_world\<lparr>w_heap := (w_heap ex_world)
            (2 \<mapsto> ex_c\<lparr>c_aes_key := ex_KS ex_key20 160, c_orig_key := Some 300,
                        c_keylen := 160, c_state := HAVE_KEY\<rparr>)\<rparr>)"
  by (simp add: ssh_aes_ctr_init_def attach_def ex_platform_def ex_world_def rekey_reset_def
      install_key_def install_iv_def start_pool_def sizing_def c_div_def Let_def
      HAVE_NONE_def HAVE_KEY_def HAVE_IV_def MAX_THREADS_def MAX_NUMKQ_def)

text \<open>
  Claim C9, as amended. \<open>ssh_aes_ctr_init\<close> itself does not look at the key length: a
  call that is given a key stores its length, supported or not, and every call that
  returns, returns 1 with the context attached. A context that a call returns is never
  in the running state \<open>HAVE_KEY | HAVE_IV\<close> with a key length other than 128, 192 or 256
  bits, whatever key and IV the call was given and whatever the context held before.
  Whenever the installation of key and IV leaves the context with both a key and an IV
  and an unsupported length, the producers are started and the first one that runs
  ends the process with \<open>exit(1)\<close>; when no thread could be created,
  \<open>ssh_aes_ctr_init\<close> waits for ever.
\<close>

theorem init_unsupported_keylen:
  "(\<forall>r ctx' w'. ssh_aes_ctr_init KS E p ctx key iv w = Inr (r, ctx', w') \<longrightarrow>
      r = 1 \<and>
      (\<exists>a c'. app_data ctx' = Some a \<and> w_heap w' a = Some c' \<and>
         (key \<noteq> None \<longrightarrow> c_keylen c' = key_length ctx * 8) \<and>
         (c_state c' = (HAVE_KEY OR HAVE_IV) \<longrightarrow> keylen_supported (c_keylen c')))) \<and>
   (\<forall>a c0 ctx1 w1 c1 w2 c2 c3.
      attach p ctx (sizing p w) = Inr (a, c0, ctx1, w1) \<and>
      rekey_reset (c0, w1) = Inr (c1, w2) \<and>
      install_key KS ctx1 key w2 c1 = Inr c2 \<and>
      install_iv iv w2 c2 = Inr c3 \<and>
      c_state c3 = (HAVE_KEY OR HAVE_IV) \<and> \<not> keylen_supported (c_keylen c3) \<longrightarrow>
      ssh_aes_ctr_init KS E p ctx key iv w =
        (if created p w2 = [] then Inl BlockedForever else Inl (ProcessExit 1)))"
proof (intro conjI allI impI)
  fix r ctx' w'
  assume "ssh_aes_ctr_init KS E p ctx key iv w = Inr (r, ctx', w')"
  then obtain a c0 w1 c1 w2 c2 c3 c4 w3 where
    at: "attach p ctx (sizing p w) = Inr (a, c0, ctx', w1)" and
    ik: "install_key KS ctx' key w2 c1 = Inr c2" and
    iv: "install_iv iv w2 c2 = Inr c3" and
    sp: "start_pool E p (c3, w2) = Inr (c4, w3)" and
    r: "r = 1" and w': "w' = w3\<lparr>w_heap := (w_heap w3)(a \<mapsto> c4)\<rparr>"
    by (rule init_Inr_cases)
  show "r = 1" by (rule r)
  have kl: "c_keylen c3 = key_length ctx * 8" if "key \<noteq> None"
  proof -
    from that obtain k where "key = Some k" by auto
    then show ?thesis
      using install_key_Some [of KS ctx' k w2 c1 c2] ik install_iv_keylen [OF iv]
        attach_Inr [OF at] by simp
  qed
  from start_pool_Inr [OF sp]
  have "key \<noteq> None \<longrightarrow> c_keylen c4 = key_length ctx * 8"
    "c_state c4 = (HAVE_KEY OR HAVE_IV) \<longrightarrow> keylen_supported (c_keylen c4)"
    using kl by auto
  then show "\<exists>a c'. app_data ctx' = Some a \<and> w_heap w' a = Some c' \<and>
         (key \<noteq> None \<longrightarrow> c_keylen c' = key_length ctx * 8) \<and>
         (c_state c' = (HAVE_KEY OR HAVE_IV) \<longrightarrow> keylen_supported (c_keylen c'))"
    using attach_Inr [OF at] w' by simp
next
  fix a c0 ctx1 w1 c1 w2 c2 c3
  assume h: "attach p ctx (sizing p w) = Inr (a, c0, ctx1, w1) \<and>
      rekey_reset (c0, w1) = Inr (c1, w2) \<and>
      install_key KS ctx1 key w2 c1 = Inr c2 \<and>
      install_iv iv w2 c2 = Inr c3 \<and>
      c_state c3 = (HAVE_KEY OR HAVE_IV) \<and> \<not> keylen_supported (c_keylen c3)"
  then have "start_pool E p (c3, w2) =
      (if created p w2 = [] then Inl BlockedForever else Inl (ProcessExit 1))"
    by (simp add: start_pool_unsupported)
  then show "ssh_aes_ctr_init KS E p ctx key iv w =
        (if created p w2 = [] then Inl BlockedForever else Inl (ProcessExit 1))"
    using h by (simp add: ssh_aes_ctr_init_def)
qed

text \<open>
  The theorem at work: the context that the call of the counterexample below leaves
  (address 2, state \<open>HAVE_KEY\<close>, 160 bits) is given its IV by a second call, without a
  key. That call starts two producers and ends in \<open>exit(1)\<close>.
\<close>

theorem init_unsupported_keylen_witness:
  "attach ex_platform \<lparr>app_data = Some 2, key_length = 20\<rparr>
      (sizing ex_platform
        (ex_world\<lparr>w_heap := (w_heap ex_world)
            (2 \<mapsto> ex_c\<lparr>c_aes_key := ex_KS ex_key20 160, c_orig_key := Some 300,
                        c_keylen := 160, c_state := HAVE_KEY\<rparr>)\<rparr>))
     = Inr (2, ex_c\<lparr>c_aes_key := ex_KS ex_key20 160, c_orig_key := Some 300,
                    c_keylen := 160, c_state := HAVE_KEY\<rparr>,
            \<lparr>app_data = Some 2, key_length = 20\<rparr>,
            ex_world\<lparr>w_heap := (w_heap ex_world)
              (2 \<mapsto> ex_c\<lparr>c_aes_key := ex_KS ex_key20 160, c_orig_key := Some 300,
                          c_keylen := 160, c_state := HAVE_KEY\<rparr>)\<rparr>) \<and>
   \<not> keylen_supported 160 \<and>
   ssh_aes_ctr_init ex_KS ex_E ex_platform \<lparr>app_data = Some 2, key_length = 20\<rparr> None (Some 200)
      (ex_world\<lparr>w_heap := (w_heap ex_world)
          (2 \<mapsto> ex_c\<lparr>c_aes_key := ex_KS ex_key20 160, c_orig_key := Some 300,
                      c_keylen := 160, c_state := HAVE_KEY\<rparr>)\<rparr>)
     = Inl (ProcessExit 1)"
proof -
  let ?c = "ex_c\<lparr>c_aes_key := ex_KS ex_key20 160, c_orig_key := Some 300,
                 c_keylen := 160, c_state := HAVE_KEY\<rparr>"
  let ?w = "ex_world\<lparr>w_heap := (w_heap ex_world)(2 \<mapsto> ?c)\<rparr>"
  let ?ctx = "\<lparr>app_data = Some 2, key_length = 20\<rparr>"
  let ?c3 = "?c\<lparr>c_aes_counter := memcpy_block ex_iv, c_state := HAVE_KEY OR HAVE_IV\<rparr>"
  have sz: "sizing ex_platform ?w = ?w"
    by (simp add: sizing_def ex_platform_def ex_world_def c_div_def Let_def MAX_THREADS_def
        MAX_NUMKQ_def)
  have at: "attach ex_platform ?ctx (sizing ex_platform ?w) = Inr (2, ?c, ?ctx, ?w)"
    unfolding sz by (simp add: attach_def)
  have rk: "rekey_reset (?c, ?w) = Inr (?c, ?w)"
    by (simp add: rekey_reset_def Let_def HAVE_KEY_def HAVE_IV_def)
  have ik: "install_key ex_KS ?ctx None ?w ?c = Inr ?c"
    by (simp add: install_key_def)
  have ii: "install_iv (Some 200) ?w ?c = Inr ?c3"
    by (simp add: install_iv_def ex_world_def)
  have st: "c_state ?c3 = (HAVE_KEY OR HAVE_IV)" "\<not> keylen_supported (c_keylen ?c3)"
    by (simp_all add: keylen_supported_def)
  have cr: "created ex_platform ?w \<noteq> []"
    by (simp add: created_def ex_platform_def ex_world_def upt_conv_Cons)
  note T = init_unsupported_keylen [of ex_KS ex_E ex_platform ?ctx None "Some 200" ?w,
      THEN conjunct2, rule_format, of 2 ?c ?ctx ?w ?c ?w ?c ?c3]
  have "ssh_aes_ctr_init ex_KS ex_E ex_platform ?ctx None (Some 200) ?w =
      (if created ex_platform ?w = [] then Inl BlockedForever else Inl (ProcessExit 1))"
    by (rule T) (intro conjI at rk ik ii st)
  then have "ssh_aes_ctr_init ex_KS ex_E ex_platform ?ctx None (Some 200) ?w = Inl (ProcessExit 1)"
    using cr by simp
  moreover have "\<not> keylen_supported 160" by (simp add: keylen_supported_def)
  ultimately show ?thesis using at by blast
qed

text \<open>
  Claim C9 as stated fails when the key arrives before the IV: a fresh context, a
  20-byte key (160 bits) and no IV. \<open>ssh_aes_ctr_init\<close> returns 1 and the returned
  context holds the unsupported length.
\<close>

theorem init_unsupported_keylen_succeeds:
  "\<not> keylen_supported (20 * 8) \<and>
   \<not> isl (ssh_aes_ctr_init ex_KS ex_E ex_platform \<lparr>app_data = None, key_length = 20\<rparr>
            (Some 300) None ex_world) \<and>
   fst (projr (ssh_aes_ctr_init ex_KS ex_E ex_platform \<lparr>app_data = None, key_length = 20\<rparr>
            (Some 300) None ex_world)) = 1 \<and>
   map_option c_keylen (w_heap (snd (snd (projr
       (ssh_aes_ctr_init ex_KS ex_E ex_platform \<lparr>app_data = None, key_length = 20\<rparr>
            (Some 300) None ex_world)))) 2) = Some 160"
  unfolding init_key160 by (simp add: keylen_supported_def)













subsection \<open>The consumer's indices\<close>

lemma len_minus_block_eq:
  assumes "k < m" "16 * m < (2::nat) ^ 64"
  shows "len_minus_block (16 * (m - k)) = 16 * (m - (k + 1))"
proof -
  have "16 * (m - k) + 2 ^ 64 - AES_BLOCK_SIZE = 2 ^ 64 + 16 * (m - (k + 1))"
    using assms(1) by (simp add: AES_BLOCK_SIZE_def algebra_simps)
  moreover have "16 * (m - (k + 1)) < (2::nat) ^ 64" using assms by simp
  ultimately show ?thesis by (simp add: len_minus_block_def)
qed

lemma idx_after_next:
  assumes "idx_after nkq r0 q0 k r qi"
  shows "(r + 1) mod int KQLEN \<noteq> 0 \<Longrightarrow> idx_after nkq r0 q0 (k + 1) ((r + 1) mod int KQLEN) qi"
    and "(r + 1) mod int KQLEN = 0 \<Longrightarrow>
           idx_after nkq r0 q0 (k + 1) ((r + 1) mod int KQLEN) ((qi + 1) mod nkq)"
proof -
  let ?K = "int KQLEN"
  have Kpos: "0 < ?K" by (simp add: KQLEN_def)
  have r: "r = (r0 + int k) mod ?K" and q: "qi = (q0 + (r0 + int k) div ?K) mod nkq"
    using assms by (simp_all add: idx_after_def)
  have r': "(r + 1) mod ?K = (r0 + int (k + 1)) mod ?K"
    by (simp add: r mod_simps ac_simps)
  define d where "d = (r0 + int k) div ?K"
  have split: "r0 + int k = ?K * d + r"
    by (simp add: r d_def)
  have rb: "0 \<le> r" "r < ?K" using Kpos by (simp_all add: r)
  have next_eq: "r0 + int (k + 1) = ?K * d + (r + 1)"
    using split by simp
  {
    assume nz: "(r + 1) mod ?K \<noteq> 0"
    have "r + 1 < ?K"
    proof (cases "r + 1 = ?K")
      case True
      then show ?thesis using nz by simp
    next
      case False
      then show ?thesis using rb by simp
    qed
    then have "(r + 1) div ?K = 0" using rb by simp
    then have "(?K * d + (r + 1)) div ?K = d" using Kpos by simp
    then have "(r0 + int (k + 1)) div ?K = d" by (simp only: next_eq)
    then show "idx_after nkq r0 q0 (k + 1) ((r + 1) mod ?K) qi"
      using r' q by (simp add: idx_after_def d_def)
  }
  {
    assume z: "(r + 1) mod ?K = 0"
    have "r + 1 = ?K"
    proof (rule ccontr)
      assume "r + 1 \<noteq> ?K"
      then have "r + 1 < ?K" using rb by simp
      then have "(r + 1) mod ?K = r + 1" using rb by simp
      then show False using z rb by simp
    qed
    then have "(r + 1) div ?K = 1" using Kpos by simp
    then have "(?K * d + (r + 1)) div ?K = d + 1" using Kpos by simp
    then have "(r0 + int (k + 1)) div ?K = d + 1" by (simp only: next_eq)
    then show "idx_after nkq r0 q0 (k + 1) ((r + 1) mod ?K) ((qi + 1) mod nkq)"
      using r' q by (simp add: idx_after_def d_def mod_simps ac_simps)
  }
qed

lemma loop_test_call_inv:
  assumes "k < m" "16 * m < (2::nat) ^ 64" "idx_after nkq r0 q0 (k + 1) r (s_qidx s)"
  shows "call_inv nkq r0 q0 m (loop_test src (16 * (m - k)) dest r s)"
proof (cases "k + 1 < m")
  case True
  then have "len_minus_block (16 * (m - k)) \<noteq> 0"
    using len_minus_block_eq [OF assms(1,2)] by simp
  then show ?thesis
    using True assms(3) len_minus_block_eq [OF assms(1,2)]
    by (auto simp: loop_test_def call_inv_def)
next
  case False
  then have m: "m = k + 1" using assms(1) by simp
  then have "len_minus_block (16 * (m - k)) = 0"
    using len_minus_block_eq [OF assms(1,2)] by simp
  then show ?thesis
    using assms(3) m by (simp add: loop_test_def call_inv_def)
qed

lemma cons_step_call_inv:
  assumes "call_inv nkq r0 q0 m s" "16 * m < (2::nat) ^ 64" "cons_step L nkq s = Some s'"
  shows "call_inv nkq r0 q0 m s'"
proof (cases "s_cons s")
  case CInit
  then show ?thesis using assms(1) by (simp add: call_inv_def)
next
  case CIdle
  then show ?thesis using assms(1) by (simp add: call_inv_def)
next
  case (CReturned rv dest)
  then show ?thesis using assms(3) by (simp add: cons_step_def)
next
  case (CLoop src len dest r)
  with assms(1) obtain k where k: "k < m" "len = 16 * (m - k)"
      "idx_after nkq r0 q0 k r (s_qidx s)"
    by (auto simp: call_inv_def)
  let ?r' = "(r + 1) mod int KQLEN"
  let ?s1 = "s\<lparr>s_consumed := s_consumed s + 1\<rparr>"
  let ?dest = "(xor_one_block L dest src (l_keys_addr L (s_qidx s) + AES_BLOCK_SIZE * nat r)
      (kq_keys (s_q s ! nat (s_qidx s)) ! nat r))\<lparr>b_ptr := b_ptr dest + AES_BLOCK_SIZE\<rparr>"
  let ?src = "src\<lparr>b_ptr := b_ptr src + AES_BLOCK_SIZE\<rparr>"
  show ?thesis
  proof (cases "?r' = 0")
    case True
    then have s': "s' = ?s1\<lparr>s_qidx := (s_qidx s + 1) mod nkq,
        s_cons := CWait ?src len ?dest ?r' (s_qidx s)\<rparr>"
      using assms(3) CLoop by (simp add: cons_step_def Let_def)
    from idx_after_next(2) [OF k(3) True]
    show ?thesis using k(1,2) by (auto simp: s' call_inv_def)
  next
    case False
    then have s': "s' = loop_test ?src len ?dest ?r' ?s1"
      using assms(3) CLoop by (simp add: cons_step_def Let_def)
    from idx_after_next(1) [OF k(3) False]
    have "idx_after nkq r0 q0 (k + 1) ?r' (s_qidx ?s1)" by simp
    from loop_test_call_inv [OF k(1) assms(2) this]
    show ?thesis by (simp add: s' k(2))
  qed
next
  case (CWait src len dest r oldq)
  with assms(1) obtain k where k: "k < m" "len = 16 * (m - k)"
      "idx_after nkq r0 q0 (k + 1) r (s_qidx s)"
    by (auto simp: call_inv_def)
  from assms(3) CWait have
    "s' = s\<lparr>s_q := (s_q s)[nat (s_qidx s) := (s_q s ! nat (s_qidx s))\<lparr>kq_qstate := KQDRAINING\<rparr>],
            s_cons := CMark src len dest r oldq\<rparr>"
    by (auto simp: cons_step_def Let_def split: if_splits)
  then show ?thesis using k by (auto simp: call_inv_def)
next
  case (CMark src len dest r oldq)
  with assms(1) obtain k where k: "k < m" "len = 16 * (m - k)"
      "idx_after nkq r0 q0 (k + 1) r (s_qidx s)"
    by (auto simp: call_inv_def)
  let ?s1 = "s\<lparr>s_q := (s_q s)[nat oldq := (s_q s ! nat oldq)\<lparr>kq_qstate := KQEMPTY\<rparr>]\<rparr>"
  have s': "s' = loop_test src len dest r ?s1"
    using assms(3) CMark by (simp add: cons_step_def)
  have "idx_after nkq r0 q0 (k + 1) r (s_qidx ?s1)" using k(3) by simp
  from loop_test_call_inv [OF k(1) assms(2) this]
  show ?thesis by (simp add: s' k(2))
qed

lemma call_inv_frame:
  assumes "s_cons s' = s_cons s" "s_qidx s' = s_qidx s" "s_ridx s' = s_ridx s"
  shows "call_inv nkq r0 q0 m s' = call_inv nkq r0 q0 m s"
  unfolding call_inv_def assms ..

lemma step_call_inv:
  assumes "step L E nkq s s'" "call_inv nkq r0 q0 m s" "16 * m < (2::nat) ^ 64"
  shows "call_inv nkq r0 q0 m s'"
  using assms(1)
proof (cases rule: step.cases)
  case (prod_acts i p' qs')
  then have "call_inv nkq r0 q0 m s' = call_inv nkq r0 q0 m s"
    by (intro call_inv_frame) simp_all
  then show ?thesis using assms(2) by simp
next
  case cons_acts
  from cons_step_call_inv [OF assms(2,3) this] show ?thesis .
qed

lemma run_call_inv:
  assumes "run L E nkq s s'" "call_inv nkq r0 q0 m s" "16 * m < (2::nat) ^ 64"
  shows "call_inv nkq r0 q0 m s'"
  using assms
proof (induction rule: run.induct)
  case (run_nil s)
  then show ?case by simp
next
  case (run_snoc s s' s'')
  then have "call_inv nkq r0 q0 m s'" by simp
  from step_call_inv [OF run_snoc.hyps(2) this run_snoc.prems(2)] show ?case .
qed

lemma enter_call_inv:
  assumes "0 \<le> s_ridx s" "s_ridx s < int KQLEN" "0 \<le> s_qidx s" "s_qidx s < nkq"
  shows "call_inv nkq (s_ridx s) (s_qidx s) m (ssh_aes_ctr_enter dest src (16 * m) s)"
proof -
  have r: "s_ridx s mod int KQLEN = s_ridx s" using assms(1,2) by simp
  have d: "s_ridx s div int KQLEN = 0" using assms(1,2) by simp
  have q: "s_qidx s mod nkq = s_qidx s" using assms(3,4) by simp
  have idx: "idx_after nkq (s_ridx s) (s_qidx s) 0 (s_ridx s) (s_qidx s)"
    by (simp add: idx_after_def r d q)
  show ?thesis
  proof (cases "m = 0")
    case True
    then show ?thesis using idx by (simp add: ssh_aes_ctr_enter_def call_inv_def)
  next
    case False
    then have "\<exists>k<m. 16 * m = 16 * (m - k) \<and>
        idx_after nkq (s_ridx s) (s_qidx s) k (s_ridx s) (s_qidx s)"
      using idx by (intro exI [of _ 0]) simp
    then show ?thesis using False by (simp add: ssh_aes_ctr_enter_def call_inv_def)
  qed
qed

text \<open>
  Claim C10. A call of \<open>ssh_aes_ctr\<close> with a length of \<open>m\<close> blocks, entered with
  \<open>0 \<le> ridx < KQLEN\<close> and \<open>0 \<le> qidx < numkq\<close>, returns 1 with the read index at
  \<open>(ridx + m) mod KQLEN\<close> and the queue index advanced by the number of rollovers,
  \<open>(ridx + m) div KQLEN\<close>, modulo \<open>numkq\<close>; both are within bounds again. This holds
  whatever the producers do during the call.
\<close>

theorem ssh_aes_ctr_indices:
  assumes "0 \<le> s_ridx s" and "s_ridx s < int KQLEN"
    and "0 \<le> s_qidx s" and "s_qidx s < nkq"
    and "len = 16 * m" and "len < 2 ^ 64"
    and "run L E nkq (ssh_aes_ctr_enter dest src len s) s'"
    and "s_cons s' = CReturned r out"
  shows "r = 1 \<and>
         s_ridx s' = (s_ridx s + int m) mod int KQLEN \<and>
         s_qidx s' = (s_qidx s + (s_ridx s + int m) div int KQLEN) mod nkq \<and>
         0 \<le> s_ridx s' \<and> s_ridx s' < int KQLEN \<and> 0 \<le> s_qidx s' \<and> s_qidx s' < nkq"
proof -
  have "call_inv nkq (s_ridx s) (s_qidx s) m (ssh_aes_ctr_enter dest src len s)"
    unfolding assms(5) using assms(1-4) by (rule enter_call_inv)
  moreover have "16 * m < (2::nat) ^ 64" using assms(5,6) by simp
  ultimately have "call_inv nkq (s_ridx s) (s_qidx s) m s'"
    by (rule run_call_inv [OF assms(7)])
  then have res: "r = 1" "idx_after nkq (s_ridx s) (s_qidx s) m (s_ridx s') (s_qidx s')"
    using assms(8) by (simp_all add: call_inv_def)
  have "0 < int KQLEN" by (simp add: KQLEN_def)
  moreover have "0 < nkq" using assms(3,4) by simp
  ultimately show ?thesis
    using res by (simp add: idx_after_def)
qed

lemma ex_sys_one_block:
  "cons_step ex_L 8 (ssh_aes_ctr_enter ex_dest1 ex_src1 16 ex_sys) =
     Some (ex_sys\<lparr>s_ridx := 6, s_cons := CReturned 1 (replicate 16 0xba), s_consumed := 1\<rparr>)"
proof -
  have "kq_keys (replicate 24 ex_kq ! 3) ! 5 = replicate 16 0xab"
    by (simp add: ex_kq_def KQLEN_def)
  moreover have "xor_block (replicate 16 0x11) (replicate 16 0xab) = replicate 16 (0xba :: u8)"
    by (simp add: xor_block_def zip_replicate)
  moreover have "len_minus_block 16 = 0"
    by (simp add: len_minus_block_def AES_BLOCK_SIZE_def)
  ultimately show ?thesis
    by (simp add: cons_step_def ssh_aes_ctr_enter_def ex_sys_def Let_def AES_BLOCK_SIZE_def
        loop_test_def KQLEN_def xor_one_block_def ex_L_def ex_src1_def ex_dest1_def
        read_block_def write_block_def)
qed

theorem ssh_aes_ctr_indices_witness:
  "run ex_L ex_E 8 (ssh_aes_ctr_enter ex_dest1 ex_src1 16 ex_sys)
     (ex_sys\<lparr>s_ridx := 6, s_cons := CReturned 1 (replicate 16 0xba), s_consumed := 1\<rparr>) \<and>
   s_ridx (ex_sys\<lparr>s_ridx := 6, s_cons := CReturned 1 (replicate 16 0xba), s_consumed := 1\<rparr>)
     = (s_ridx ex_sys + int 1) mod int KQLEN \<and>
   s_qidx (ex_sys\<lparr>s_ridx := 6, s_cons := CReturned 1 (replicate 16 0xba), s_consumed := 1\<rparr>)
     = (s_qidx ex_sys + (s_ridx ex_sys + int 1) div int KQLEN) mod 8"
proof -
  let ?s' = "ex_sys\<lparr>s_ridx := 6, s_cons := CReturned 1 (replicate 16 0xba), s_consumed := 1\<rparr>"
  have r: "run ex_L ex_E 8 (ssh_aes_ctr_enter ex_dest1 ex_src1 16 ex_sys) ?s'"
    by (rule run_snoc [OF run_nil cons_acts [OF ex_sys_one_block]])
  have h: "0 \<le> s_ridx ex_sys" "s_ridx ex_sys < int KQLEN" "0 \<le> s_qidx ex_sys" "s_qidx ex_sys < 8"
    "(16::nat) = 16 * 1" "(16::nat) < 2 ^ 64"
    by (simp_all add: ex_sys_def KQLEN_def)
  have c: "s_cons ?s' = CReturned 1 (replicate 16 0xba)" by simp
  from ssh_aes_ctr_indices [OF h r c] r show ?thesis by blast
qed

section \<open>The ring at run time\<close>

subsection \<open>Ring offsets\<close>

lemma ring_off_eq:
  assumes "c < n" "j < n"
  shows "ring_off n c j = (if c \<le> j then j - c else j + n - c)"
proof (cases "c \<le> j")
  case True
  then have "j + n - c = (j - c) + n" using assms by simp
  then have "(j + n - c) mod n = (j - c) mod n" by simp
  then show ?thesis using True assms by (simp add: ring_off_def)
next
  case False
  then have "j + n - c < n" using assms by simp
  then show ?thesis using False by (simp add: ring_off_def)
qed

lemma ring_off_self: "c < n \<Longrightarrow> ring_off n c c = 0"
  by (simp add: ring_off_eq)

lemma ring_off_lt: "0 < n \<Longrightarrow> ring_off n c j < n"
  by (simp add: ring_off_def)

lemma ring_off_zero_iff:
  assumes "c < n" "j < n"
  shows "ring_off n c j = 0 \<longleftrightarrow> j = c"
  using assms by (auto simp: ring_off_eq split: if_splits)

lemma succ_mod_cases:
  assumes "c < (n::nat)"
  shows "(c + 1) mod n = (if c + 1 = n then 0 else c + 1)"
  using assms by auto

lemma ring_off_shift:
  assumes "2 \<le> n" "c < n" "j < n" "j \<noteq> c"
  shows "Suc (ring_off n ((c + 1) mod n) j) = ring_off n c j"
proof (cases "c + 1 = n")
  case True
  then have "(c + 1) mod n = 0" by simp
  moreover have "ring_off n 0 j = j" using assms by (simp add: ring_off_eq)
  moreover have "ring_off n c j = j + n - c" using assms True by (simp add: ring_off_eq)
  ultimately show ?thesis using True by simp
next
  case False
  then have lt: "c + 1 < n" using assms by simp
  then have m: "(c + 1) mod n = c + 1" by simp
  show ?thesis
    unfolding m using assms lt by (auto simp: ring_off_eq)
qed

lemma ring_off_old:
  assumes "2 \<le> n" "c < n"
  shows "ring_off n ((c + 1) mod n) c = n - 1"
proof (cases "c + 1 = n")
  case True
  then have "(c + 1) mod n = 0" by simp
  moreover have "ring_off n 0 c = c" using assms by (simp add: ring_off_eq)
  ultimately show ?thesis using True by simp
next
  case False
  then have lt: "c + 1 < n" using assms by simp
  then have m: "(c + 1) mod n = c + 1" by simp
  show ?thesis
    unfolding m using assms lt by (simp add: ring_off_eq)
qed

lemma old_index:
  fixes n c :: nat
  assumes "2 \<le> n" "c < n"
  shows "((c + 1) mod n + n - 1) mod n = c"
proof (cases "c + 1 = n")
  case True
  then have "(c + 1) mod n = 0" by simp
  then show ?thesis using True assms by simp
next
  case False
  then have lt: "c + 1 < n" using assms by simp
  then have m: "(c + 1) mod n = c + 1" by simp
  have "c + 1 + n - 1 = c + n" by simp
  then show ?thesis unfolding m using assms by simp
qed

lemma old_index_neq:
  fixes n c :: nat
  assumes "2 \<le> n" "c < n"
  shows "(c + n - 1) mod n \<noteq> c"
proof (cases "c = 0")
  case True
  then show ?thesis using assms by simp
next
  case False
  then have "c + n - 1 = (c - 1) + n" by simp
  then have "(c + n - 1) mod n = (c - 1) mod n" by simp
  then show ?thesis using False assms by simp
qed

lemma old_index_lt:
  fixes n c :: nat
  shows "0 < n \<Longrightarrow> (c + n - 1) mod n < n"
  by simp

lemma KQLEN_pos [simp]: "0 < KQLEN"
  by (simp add: KQLEN_def)

lemma div_mod_plus:
  fixes k q x :: nat
  assumes "x < k"
  shows "(k * q + x) div k = q" "(k * q + x) mod k = x"
  using assms by simp_all

lemma no_rollover:
  assumes "(c + 1) mod KQLEN \<noteq> 0"
  shows "(c + 1) div KQLEN = c div KQLEN" "(c + 1) mod KQLEN = c mod KQLEN + 1"
proof -
  have "c mod KQLEN + 1 \<noteq> KQLEN"
  proof
    assume "c mod KQLEN + 1 = KQLEN"
    then have "(c mod KQLEN + 1) mod KQLEN = 0" by simp
    then have "(c + 1) mod KQLEN = 0" by (simp add: mod_simps)
    with assms show False by simp
  qed
  moreover have "c mod KQLEN < KQLEN" by simp
  ultimately have lt: "c mod KQLEN + 1 < KQLEN" by linarith
  have e: "c + 1 = KQLEN * (c div KQLEN) + (c mod KQLEN + 1)" by simp
  show "(c + 1) div KQLEN = c div KQLEN"
    by (subst e) (rule div_mod_plus(1) [OF lt])
  show "(c + 1) mod KQLEN = c mod KQLEN + 1"
    by (subst e) (rule div_mod_plus(2) [OF lt])
qed

lemma at_rollover_div:
  assumes "(c + 1) mod KQLEN = 0"
  shows "(c + 1) div KQLEN = c div KQLEN + 1"
proof -
  have "c mod KQLEN + 1 = KQLEN"
  proof (rule ccontr)
    assume "c mod KQLEN + 1 \<noteq> KQLEN"
    moreover have "c mod KQLEN < KQLEN" by simp
    ultimately have "c mod KQLEN + 1 < KQLEN" by linarith
    then have "(c mod KQLEN + 1) mod KQLEN = c mod KQLEN + 1" by simp
    then have "(c + 1) mod KQLEN = c mod KQLEN + 1" by (simp add: mod_simps)
    with assms show False by simp
  qed
  moreover have "c + 1 = KQLEN * (c div KQLEN) + (c mod KQLEN + 1)" by simp
  ultimately have "c + 1 = KQLEN * (c div KQLEN + 1)" by simp
  then have "(c + 1) div KQLEN = (KQLEN * (c div KQLEN + 1)) div KQLEN" by simp
  then show ?thesis by simp
qed

subsection \<open>Frame lemmas\<close>

lemma rnd_frame: "s_consumed s' = s_consumed s \<Longrightarrow> rnd s' = rnd s"
  by (simp add: rnd_def)

lemma cur_frame: "s_consumed s' = s_consumed s \<Longrightarrow> cur nkq s' = cur nkq s"
  by (simp add: cur_def rnd_def)

lemma qstart_frame: "s_consumed s' = s_consumed s \<Longrightarrow> qstart nkq s' j = qstart nkq s j"
  by (simp add: qstart_def cur_def rnd_def)

lemma is_old_frame: "s_cons s' = s_cons s \<Longrightarrow> is_old s' j = is_old s j"
  by (simp add: is_old_def)

lemma waiting_frame: "s_cons s' = s_cons s \<Longrightarrow> waiting s' = waiting s"
  by (simp add: waiting_def)

lemma qinv_frame:
  assumes "s_q s' ! j = s_q s ! j" "s_consumed s' = s_consumed s" "s_cons s' = s_cons s"
  shows "qinv E key iv nkq s' j = qinv E key iv nkq s j"
  unfolding qinv_def assms(1) qstart_frame [OF assms(2)] cur_frame [OF assms(2)]
    is_old_frame [OF assms(3)] waiting_frame [OF assms(3)] assms(3) ..

lemma pinv_frame:
  assumes "s_consumed s' = s_consumed s"
    and "\<And>k. owns p = Some k \<Longrightarrow> s_q s' ! nat k = s_q s ! nat k"
  shows "pinv E key iv nkq s' p = pinv E key iv nkq s p"
proof (cases "p_loc p")
  case PStart
  then show ?thesis by (simp add: pinv_def)
next
  case (PScan k)
  then show ?thesis by (simp add: pinv_def)
next
  case (PClaimed k)
  then have "s_q s' ! nat k = s_q s ! nat k" using assms(2) by (simp add: owns_def)
  then show ?thesis using PClaimed by (simp add: pinv_def qstart_frame [OF assms(1)])
next
  case (PFill k n)
  then have "s_q s' ! nat k = s_q s ! nat k" using assms(2) by (simp add: owns_def)
  then show ?thesis using PFill by (simp add: pinv_def qstart_frame [OF assms(1)])
qed

lemma at_rollover_frame:
  assumes "s_consumed s' = s_consumed s"
    and "\<And>j. kq_qstate (s_q s' ! j) = kq_qstate (s_q s ! j)"
  shows "at_rollover nkq s' r oldq = at_rollover nkq s r oldq"
  unfolding at_rollover_def assms(1) assms(2) rnd_frame [OF assms(1)] cur_frame [OF assms(1)] ..

lemma cinv_frame:
  assumes "s_qidx s' = s_qidx s" "s_ridx s' = s_ridx s" "s_cons s' = s_cons s"
    "s_consumed s' = s_consumed s"
    and "\<And>j. kq_qstate (s_q s' ! j) = kq_qstate (s_q s ! j)"
  shows "cinv nkq s' = cinv nkq s"
  unfolding cinv_def assms(1-4) assms(5) cur_frame [OF assms(4)]
    at_rollover_frame [OF assms(4) assms(5)] ..

lemma owners_distinct_update_same:
  assumes "owners_distinct ps" "owns p' = owns (ps ! i)"
  shows "owners_distinct (ps[i := p'])"
  unfolding owners_distinct_def
proof (intro allI impI)
  fix a b
  assume h: "a < length (ps[i := p']) \<and> b < length (ps[i := p']) \<and> a \<noteq> b \<and>
      owns (ps[i := p'] ! a) \<noteq> None"
  have o: "owns (ps[i := p'] ! x) = owns (ps ! x)" if "x < length ps" for x
    using that assms(2) by (cases "x = i") simp_all
  from h have ab: "a < length ps" "b < length ps" "a \<noteq> b" by simp_all
  from h have "owns (ps[i := p'] ! a) \<noteq> None" by simp
  then have "owns (ps ! a) \<noteq> None" using o [OF ab(1)] by simp
  then have "owns (ps ! a) \<noteq> owns (ps ! b)"
    using assms(1) ab by (simp add: owners_distinct_def)
  then show "owns (ps[i := p'] ! a) \<noteq> owns (ps[i := p'] ! b)"
    using o [OF ab(1)] o [OF ab(2)] by simp
qed

lemma owners_distinct_update_none:
  assumes "owners_distinct ps" "owns p' = None"
  shows "owners_distinct (ps[i := p'])"
  unfolding owners_distinct_def
proof (intro allI impI)
  fix a b
  assume h: "a < length (ps[i := p']) \<and> b < length (ps[i := p']) \<and> a \<noteq> b \<and>
      owns (ps[i := p'] ! a) \<noteq> None"
  then have a: "a < length ps" "b < length ps" "a \<noteq> b" by simp_all
  from h assms(2) have ai: "a \<noteq> i" by (cases "a = i") auto
  then have oa: "owns (ps[i := p'] ! a) = owns (ps ! a)" by simp
  show "owns (ps[i := p'] ! a) \<noteq> owns (ps[i := p'] ! b)"
  proof (cases "b = i")
    case True
    then show ?thesis using h a assms(2) by simp
  next
    case False
    then have "owns (ps[i := p'] ! b) = owns (ps ! b)" by simp
    moreover have "owns (ps ! a) \<noteq> owns (ps ! b)"
      using assms(1) a h oa by (simp add: owners_distinct_def)
    ultimately show ?thesis using oa by simp
  qed
qed

lemma owners_distinct_update_new:
  assumes "owners_distinct ps" "owns p' = Some k"
    and "\<And>b. b < length ps \<Longrightarrow> b \<noteq> i \<Longrightarrow> owns (ps ! b) \<noteq> Some k"
  shows "owners_distinct (ps[i := p'])"
  unfolding owners_distinct_def
proof (intro allI impI)
  fix a b
  assume h: "a < length (ps[i := p']) \<and> b < length (ps[i := p']) \<and> a \<noteq> b \<and>
      owns (ps[i := p'] ! a) \<noteq> None"
  then have a: "a < length ps" "b < length ps" "a \<noteq> b" by simp_all
  show "owns (ps[i := p'] ! a) \<noteq> owns (ps[i := p'] ! b)"
  proof (cases "a = i")
    case True
    then have "b \<noteq> i" using a by simp
    then show ?thesis using True a assms(2) assms(3) [of b] by auto
  next
    case False
    then have oa: "owns (ps[i := p'] ! a) = owns (ps ! a)" by simp
    show ?thesis
    proof (cases "b = i")
      case True
      then show ?thesis using False a assms(2) assms(3) [of a] oa by auto
    next
      case False
      then have "owns (ps[i := p'] ! b) = owns (ps ! b)" by simp
      moreover have "owns (ps ! a) \<noteq> owns (ps ! b)"
        using assms(1) a h oa by (simp add: owners_distinct_def)
      ultimately show ?thesis using oa by simp
    qed
  qed
qed

subsection \<open>Reading the invariant\<close>

lemma fill_pass_eq:
  assumes "length (kq_keys qu) = KQLEN" "length (kq_ctr qu) = 16"
    "1 \<le> nkq" "nkq \<le> MAX_NUMKQ"
  shows "fill_pass E nkq ctx qu =
     (ctx\<lparr>evp_iv := ctr_plus (kq_ctr qu) KQLEN\<rparr>,
      qu\<lparr>kq_keys := map (\<lambda>j. xor_block (E (evp_key ctx) (ctr_plus (kq_ctr qu) j)) mynull)
                        [0..<KQLEN],
         kq_ctr := ctr_plus (kq_ctr qu) (nat nkq * KQLEN)\<rparr>)"
proof -
  let ?ctx0 = "EVP_EncryptInit_iv ctx (kq_ctr qu)"
  have iv0: "evp_iv ?ctx0 = kq_ctr qu" "evp_key ?ctx0 = evp_key ctx"
    by (simp_all add: EVP_EncryptInit_iv_def)
  have "fill_loop E 0 (?ctx0, qu) =
     (?ctx0\<lparr>evp_iv := ctr_plus (evp_iv ?ctx0) (KQLEN - 0)\<rparr>,
      qu\<lparr>kq_keys := take 0 (kq_keys qu) @
          map (\<lambda>j. xor_block (E (evp_key ?ctx0) (ctr_plus (evp_iv ?ctx0) j)) mynull) [0..<KQLEN - 0],
        kq_ctr := ctr_plus (kq_ctr qu) (KQLEN - 0)\<rparr>)"
    using assms(1,2) iv0 by (intro fill_loop_eq [OF refl]) simp_all
  then have loop: "fill_loop E 0 (?ctx0, qu) =
     (ctx\<lparr>evp_iv := ctr_plus (kq_ctr qu) KQLEN\<rparr>,
      qu\<lparr>kq_keys := map (\<lambda>j. xor_block (E (evp_key ctx) (ctr_plus (kq_ctr qu) j)) mynull)
                        [0..<KQLEN],
         kq_ctr := ctr_plus (kq_ctr qu) KQLEN\<rparr>)"
    by (simp add: EVP_EncryptInit_iv_def)
  have "KQLEN + KQLEN * nat (nkq - 1) = nat nkq * KQLEN"
  proof -
    have "nat nkq = Suc (nat (nkq - 1))" using assms(3) by simp
    then show ?thesis by simp
  qed
  then have "ssh_ctr_add (ctr_plus (kq_ctr qu) KQLEN) (ring_advance nkq) AES_BLOCK_SIZE
      = ctr_plus (kq_ctr qu) (nat nkq * KQLEN)"
    using assms(2-4) by (simp add: ssh_ctr_add_16 unat_ring_advance ctr_plus_plus)
  then show ?thesis
    by (simp add: fill_pass_def loop)
qed

lemma ring_invD:
  assumes "ring_inv E key iv nkq s"
  shows "2 \<le> nkq" "nkq \<le> MAX_NUMKQ" "nat nkq \<le> length (s_q s)" "length iv = 16"
    "cinv nkq s" "\<And>j. j < nat nkq \<Longrightarrow> qinv E key iv nkq s j"
    "\<And>i. i < length (s_prods s) \<Longrightarrow> pinv E key iv nkq s (s_prods s ! i)"
    "owners_distinct (s_prods s)"
  using assms by (simp_all add: ring_inv_def)

lemma ring_invI:
  assumes "2 \<le> nkq" "nkq \<le> MAX_NUMKQ" "nat nkq \<le> length (s_q s)" "length iv = 16"
    "cinv nkq s" "\<And>j. j < nat nkq \<Longrightarrow> qinv E key iv nkq s j"
    "\<And>i. i < length (s_prods s) \<Longrightarrow> pinv E key iv nkq s (s_prods s ! i)"
    "owners_distinct (s_prods s)"
  shows "ring_inv E key iv nkq s"
  using assms by (simp add: ring_inv_def)

lemma qinv_lengths:
  "qinv E key iv nkq s j \<Longrightarrow>
     length (kq_keys (s_q s ! j)) = KQLEN \<and> length (kq_ctr (s_q s ! j)) = 16"
  by (simp add: qinv_def Let_def)

lemma qinv_INIT:
  "qinv E key iv nkq s j \<Longrightarrow> kq_qstate (s_q s ! j) = KQINIT \<Longrightarrow>
     s_cons s = CInit \<and> j = 0 \<and> kq_ctr (s_q s ! j) = ctr_plus iv (qstart nkq s j)"
  by (auto simp: qinv_def Let_def)

lemma qinv_EMPTY:
  "qinv E key iv nkq s j \<Longrightarrow> kq_qstate (s_q s ! j) = KQEMPTY \<Longrightarrow>
     kq_ctr (s_q s ! j) = ctr_plus iv (qstart nkq s j)"
  by (simp add: qinv_def Let_def)

lemma qinv_FULL:
  "qinv E key iv nkq s j \<Longrightarrow> kq_qstate (s_q s ! j) = KQFULL \<Longrightarrow>
     kq_ctr (s_q s ! j) = ctr_plus iv (qstart nkq s j + nat nkq * KQLEN) \<and>
     kq_keys (s_q s ! j) = full_keys E key iv (qstart nkq s j)"
  by (simp add: qinv_def Let_def)

lemma qinv_DRAINING:
  "qinv E key iv nkq s j \<Longrightarrow> kq_qstate (s_q s ! j) = KQDRAINING \<Longrightarrow>
     (if is_old s j then kq_ctr (s_q s ! j) = ctr_plus iv (qstart nkq s j)
      else j = cur nkq s \<and> \<not> waiting s \<and>
           kq_ctr (s_q s ! j) = ctr_plus iv (qstart nkq s j + nat nkq * KQLEN) \<and>
           kq_keys (s_q s ! j) = full_keys E key iv (qstart nkq s j))"
  by (simp add: qinv_def Let_def)

lemma pinv_owns:
  assumes "pinv E key iv nkq s p" "owns p = Some k"
  shows "0 \<le> k" "k < nkq" "kq_qstate (s_q s ! nat k) = KQFILLING"
  using assms by (auto simp: pinv_def owns_def split: ploc.splits)

lemma cinv_states:
  assumes "cinv nkq s" "s_qidx s' = s_qidx s" "s_ridx s' = s_ridx s" "s_cons s' = s_cons s"
    "s_consumed s' = s_consumed s"
    and "\<And>j. (kq_qstate (s_q s' ! j) = KQDRAINING) = (kq_qstate (s_q s ! j) = KQDRAINING)"
    and "s_cons s = CInit \<Longrightarrow>
           kq_qstate (s_q s' ! 0) = KQINIT \<or> kq_qstate (s_q s' ! 0) = KQDRAINING"
  shows "cinv nkq s'"
proof -
  have ar: "at_rollover nkq s' r oldq = at_rollover nkq s r oldq" for r oldq
    unfolding at_rollover_def assms(5) assms(6) rnd_frame [OF assms(5)] cur_frame [OF assms(5)] ..
  show ?thesis
  proof (cases "s_cons s")
    case CInit
    then show ?thesis
      using assms(1,7) by (simp add: cinv_def assms(2-5) cur_frame [OF assms(5)])
  next
    case CIdle
    then show ?thesis
      using assms(1) by (simp add: cinv_def assms(2-6) cur_frame [OF assms(5)])
  next
    case (CLoop src len dest r)
    then show ?thesis
      using assms(1) by (simp add: cinv_def assms(2-6) cur_frame [OF assms(5)])
  next
    case (CWait src len dest r oldq)
    then show ?thesis
      using assms(1) by (simp add: cinv_def assms(2-6) cur_frame [OF assms(5)] ar)
  next
    case (CMark src len dest r oldq)
    then show ?thesis
      using assms(1) by (simp add: cinv_def assms(2-6) cur_frame [OF assms(5)] ar)
  next
    case (CReturned rv dest)
    then show ?thesis
      using assms(1) by (simp add: cinv_def assms(2-6) cur_frame [OF assms(5)])
  qed
qed

subsection \<open>Producer steps\<close>

lemma prod_update_inv:
  assumes inv: "ring_inv E key iv nkq s" and i: "i < length (s_prods s)"
    and len: "length qs' = length (s_q s)"
    and same: "\<And>j. j \<noteq> kk \<Longrightarrow> qs' ! j = s_q s ! j"
    and others: "\<And>b. b < length (s_prods s) \<Longrightarrow> b \<noteq> i \<Longrightarrow>
        owns (s_prods s ! b) \<noteq> Some (int kk)"
    and q: "kk < nat nkq \<Longrightarrow>
        qinv E key iv nkq (s\<lparr>s_prods := (s_prods s)[i := p'], s_q := qs'\<rparr>) kk"
    and p: "pinv E key iv nkq (s\<lparr>s_prods := (s_prods s)[i := p'], s_q := qs'\<rparr>) p'"
    and c: "cinv nkq (s\<lparr>s_prods := (s_prods s)[i := p'], s_q := qs'\<rparr>)"
    and u: "owners_distinct ((s_prods s)[i := p'])"
  shows "ring_inv E key iv nkq (s\<lparr>s_prods := (s_prods s)[i := p'], s_q := qs'\<rparr>)"
proof (rule ring_invI)
  let ?s' = "s\<lparr>s_prods := (s_prods s)[i := p'], s_q := qs'\<rparr>"
  note D = ring_invD [OF inv]
  show "2 \<le> nkq" "nkq \<le> MAX_NUMKQ" "length iv = 16" by (rule D)+
  show "nat nkq \<le> length (s_q ?s')" using D(3) len by simp
  show "cinv nkq ?s'" by (rule c)
  show "owners_distinct (s_prods ?s')" using u by simp
  show "qinv E key iv nkq ?s' j" if "j < nat nkq" for j
  proof (cases "j = kk")
    case True
    then show ?thesis using q that by simp
  next
    case False
    have "qinv E key iv nkq ?s' j = qinv E key iv nkq s j"
      using same [OF False] by (intro qinv_frame) simp_all
    then show ?thesis using D(6) [OF that] by simp
  qed
  show "pinv E key iv nkq ?s' (s_prods ?s' ! b)" if "b < length (s_prods ?s')" for b
  proof (cases "b = i")
    case True
    then show ?thesis using p i by simp
  next
    case False
    from that have b: "b < length (s_prods s)" by simp
    have "pinv E key iv nkq ?s' (s_prods s ! b) = pinv E key iv nkq s (s_prods s ! b)"
    proof (rule pinv_frame)
      show "s_consumed ?s' = s_consumed s" by simp
      fix k assume k: "owns (s_prods s ! b) = Some k"
      from pinv_owns(1) [OF D(7) [OF b] k] others [OF b False] k
      have "nat k \<noteq> kk" by auto
      then show "s_q ?s' ! nat k = s_q s ! nat k" using same by simp
    qed
    then show ?thesis using D(7) [OF b] False by simp
  qed
qed

lemma owners_not_state:
  assumes inv: "ring_inv E key iv nkq s" and b: "b < length (s_prods s)"
    and st: "kq_qstate (s_q s ! kk) \<noteq> KQFILLING"
  shows "owns (s_prods s ! b) \<noteq> Some (int kk)"
proof
  assume "owns (s_prods s ! b) = Some (int kk)"
  from pinv_owns(3) [OF ring_invD(7) [OF inv b] this] st show False by simp
qed

lemma owners_not_out:
  assumes inv: "ring_inv E key iv nkq s" and b: "b < length (s_prods s)"
  shows "owns (s_prods s ! b) \<noteq> Some (int (nat nkq))"
proof
  assume "owns (s_prods s ! b) = Some (int (nat nkq))"
  from pinv_owns(2) [OF ring_invD(7) [OF inv b] this] ring_invD(1) [OF inv]
  show False by simp
qed

lemma prod_move_inv:
  assumes inv: "ring_inv E key iv nkq s" and i: "i < length (s_prods s)"
    and p: "pinv E key iv nkq s p'" and o: "owns p' = None \<or> owns p' = owns (s_prods s ! i)"
  shows "ring_inv E key iv nkq (s\<lparr>s_prods := (s_prods s)[i := p'], s_q := s_q s\<rparr>)"
proof (rule prod_update_inv [OF inv i, where kk = "nat nkq"])
  let ?s' = "s\<lparr>s_prods := (s_prods s)[i := p'], s_q := s_q s\<rparr>"
  show "length (s_q s) = length (s_q s)" by simp
  show "s_q s ! j = s_q s ! j" for j by simp
  show "owns (s_prods s ! b) \<noteq> Some (int (nat nkq))" if "b < length (s_prods s)" for b
    by (rule owners_not_out [OF inv that])
  show "qinv E key iv nkq ?s' (nat nkq)" if "nat nkq < nat nkq" using that by simp
  have "pinv E key iv nkq ?s' p' = pinv E key iv nkq s p'"
    by (rule pinv_frame) simp_all
  then show "pinv E key iv nkq ?s' p'" using p by simp
  have "cinv nkq ?s' = cinv nkq s" by (rule cinv_frame) simp_all
  then show "cinv nkq ?s'" using ring_invD(5) [OF inv] by simp
  show "owners_distinct ((s_prods s)[i := p'])"
    using o owners_distinct_update_none [OF ring_invD(8) [OF inv]]
      owners_distinct_update_same [OF ring_invD(8) [OF inv]] by blast
qed

subsection \<open>Producer start-up and scan\<close>

lemma cinv_CInit:
  assumes "cinv nkq s" "s_cons s = CInit"
  shows "s_consumed s = 0" "s_ridx s = 0" "s_qidx s = 0"
    "kq_qstate (s_q s ! 0) = KQINIT \<or> kq_qstate (s_q s ! 0) = KQDRAINING"
    "rnd s = 0" "cur nkq s = 0"
  using assms by (simp_all add: cinv_def rnd_def cur_def)

lemma qstart_cur:
  assumes "2 \<le> nkq"
  shows "qstart nkq s (cur nkq s) = rnd s * KQLEN"
proof -
  have "cur nkq s < nat nkq" using assms by (simp add: cur_def)
  then show ?thesis by (simp add: qstart_def ring_off_self)
qed

lemma step_PStart_fill:
  assumes inv: "ring_inv E key iv nkq s" and i: "i < length (s_prods s)"
    and loc: "p_loc (s_prods s ! i) = PStart" and first: "p_first (s_prods s ! i)"
    and st: "kq_qstate (s_q s ! 0) = KQINIT"
    and step: "prod_step E nkq (s_prods s ! i) (s_q s) = Some (p', qs')"
  shows "ring_inv E key iv nkq (s\<lparr>s_prods := (s_prods s)[i := p'], s_q := qs'\<rparr>)"
proof -
  let ?p = "s_prods s ! i"
  let ?q0 = "s_q s ! 0"
  note D = ring_invD [OF inv]
  have N: "0 < nat nkq" using D(1) by simp
  note Q0 = D(6) [OF N]
  note L = qinv_lengths [OF Q0]
  from qinv_INIT [OF Q0 st] have ci: "s_cons s = CInit" and
    ctr: "kq_ctr ?q0 = ctr_plus iv (qstart nkq s 0)" by simp_all
  note C = cinv_CInit [OF D(5) ci]
  have st0: "qstart nkq s 0 = 0"
    using qstart_cur [OF D(1), of s] C(5,6) by simp
  have ctr0: "kq_ctr ?q0 = iv" using ctr st0 by simp
  have key: "evp_key (p_evp ?p) = key" using D(7) [OF i] by (simp add: pinv_def)
  have nk: "1 \<le> nkq" using D(1) by simp
  note FP = fill_pass_eq [OF L [THEN conjunct1] L [THEN conjunct2] nk D(2), of E "p_evp ?p"]
  define q0' where "q0' = ?q0\<lparr>kq_keys := full_keys E key iv 0,
      kq_ctr := ctr_plus iv (nat nkq * KQLEN), kq_qstate := KQDRAINING\<rparr>"
  have ts: "thread_startup E nkq (p_evp ?p) ?q0 =
      ((p_evp ?p)\<lparr>evp_iv := ctr_plus iv KQLEN\<rparr>, q0')"
    using st by (simp add: thread_startup_def FP ctr0 key q0'_def full_keys_def kblock_def)
  have p': "p' = ?p\<lparr>p_loc := PScan 1, p_evp := (p_evp ?p)\<lparr>evp_iv := ctr_plus iv KQLEN\<rparr>\<rparr>"
    and qs': "qs' = (s_q s)[0 := q0']"
    using step loc first ts by (simp_all add: prod_step_def)
  let ?s' = "s\<lparr>s_prods := (s_prods s)[i := p'], s_q := qs'\<rparr>"
  have l0: "0 < length (s_q s)" using D(3) N by linarith
  show ?thesis
  proof (rule prod_update_inv [OF inv i, where kk = 0])
    show "length qs' = length (s_q s)" by (simp add: qs')
    show "qs' ! j = s_q s ! j" if "j \<noteq> 0" for j using that by (simp add: qs')
    show "owns (s_prods s ! b) \<noteq> Some (int 0)" if "b < length (s_prods s)" for b
      using owners_not_state [OF inv that, of 0] st by simp
    have "qstart nkq ?s' 0 = 0" "cur nkq ?s' = 0"
      using st0 C(6) qstart_frame [of ?s' s nkq 0] cur_frame [of ?s' s nkq] by simp_all
    then show "qinv E key iv nkq ?s' 0"
      using l0 ci D(4)
      by (simp add: qinv_def Let_def qs' q0'_def is_old_def waiting_def full_keys_def)
    show "pinv E key iv nkq ?s' p'"
      using key D(1) by (simp add: pinv_def p')
    show "cinv nkq ?s'"
      using D(5) ci l0 by (simp add: cinv_def qs' q0'_def cur_def rnd_def)
    show "owners_distinct ((s_prods s)[i := p'])"
      by (rule owners_distinct_update_none [OF D(8)]) (simp add: owns_def p')
  qed
qed

lemma step_PStart_skip:
  assumes inv: "ring_inv E key iv nkq s" and i: "i < length (s_prods s)"
    and loc: "p_loc (s_prods s ! i) = PStart"
    and no: "\<not> (p_first (s_prods s ! i) \<and> kq_qstate (s_q s ! 0) = KQINIT)"
    and step: "prod_step E nkq (s_prods s ! i) (s_q s) = Some (p', qs')"
  shows "ring_inv E key iv nkq (s\<lparr>s_prods := (s_prods s)[i := p'], s_q := qs'\<rparr>)"
proof -
  let ?p = "s_prods s ! i"
  note D = ring_invD [OF inv]
  have "qs' = s_q s \<and> p_loc p' = PScan 1 \<and> p_evp p' = p_evp ?p"
    using step loc no by (auto simp: prod_step_def thread_startup_def split: if_splits)
  then have qs': "qs' = s_q s" and p': "p_loc p' = PScan 1" "p_evp p' = p_evp ?p" by simp_all
  have "pinv E key iv nkq s p'"
    using D(7) [OF i] D(1) p' by (simp add: pinv_def)
  moreover have "owns p' = None" using p' by (simp add: owns_def)
  ultimately show ?thesis
    unfolding qs' by (intro prod_move_inv [OF inv i]) simp_all
qed

lemma step_PScan:
  assumes inv: "ring_inv E key iv nkq s" and i: "i < length (s_prods s)"
    and loc: "p_loc (s_prods s ! i) = PScan k"
    and step: "prod_step E nkq (s_prods s ! i) (s_q s) = Some (p', qs')"
  shows "ring_inv E key iv nkq (s\<lparr>s_prods := (s_prods s)[i := p'], s_q := qs'\<rparr>)"
proof -
  let ?p = "s_prods s ! i"
  let ?qu = "s_q s ! nat k"
  note D = ring_invD [OF inv]
  have k: "0 \<le> k" "k < nkq" and key: "evp_key (p_evp ?p) = key"
    using D(7) [OF i] loc by (simp_all add: pinv_def)
  have kn: "nat k < nat nkq" using k by simp
  have nd: "kq_qstate ?qu \<noteq> KQDRAINING" "kq_qstate ?qu \<noteq> KQINIT"
    using step loc by (auto simp: prod_step_def Let_def split: if_splits)
  show ?thesis
  proof (cases "kq_qstate ?qu = KQEMPTY")
    case False
    then have p': "p' = ?p\<lparr>p_loc := PScan ((k + 1) mod nkq)\<rparr>" and qs': "qs' = s_q s"
      using step loc nd by (simp_all add: prod_step_def Let_def)
    have "0 \<le> (k + 1) mod nkq" "(k + 1) mod nkq < nkq" using D(1) by simp_all
    then have "pinv E key iv nkq s p'" using key by (simp add: pinv_def p')
    moreover have "owns p' = None" by (simp add: owns_def p')
    ultimately show ?thesis
      unfolding qs' by (intro prod_move_inv [OF inv i]) simp_all
  next
    case True
    then have p': "p' = ?p\<lparr>p_loc := PClaimed k\<rparr>"
      and qs': "qs' = (s_q s)[nat k := ?qu\<lparr>kq_qstate := KQFILLING\<rparr>]"
      using step loc by (simp_all add: prod_step_def Let_def)
    let ?s' = "s\<lparr>s_prods := (s_prods s)[i := p'], s_q := qs'\<rparr>"
    have lk: "nat k < length (s_q s)" using D(3) kn by linarith
    note Q = D(6) [OF kn]
    have ik: "int (nat k) = k" using k by simp
    show ?thesis
    proof (rule prod_update_inv [OF inv i, where kk = "nat k"])
      show "length qs' = length (s_q s)" by (simp add: qs')
      show "qs' ! j = s_q s ! j" if "j \<noteq> nat k" for j using that by (simp add: qs')
      show "owns (s_prods s ! b) \<noteq> Some (int (nat k))" if "b < length (s_prods s)" for b
        using owners_not_state [OF inv that, of "nat k"] True by simp
      show "qinv E key iv nkq ?s' (nat k)"
        using qinv_lengths [OF Q] lk by (simp add: qinv_def Let_def qs')
      have "qstart nkq ?s' (nat k) = qstart nkq s (nat k)" by (rule qstart_frame) simp
      then show "pinv E key iv nkq ?s' p'"
        using key k qinv_EMPTY [OF Q True] lk by (simp add: pinv_def p' qs')
      show "cinv nkq ?s'"
      proof (rule cinv_states [OF D(5)])
        show "(kq_qstate (s_q ?s' ! j) = KQDRAINING) = (kq_qstate (s_q s ! j) = KQDRAINING)" for j
          using True lk by (cases "j = nat k") (simp_all add: qs')
        show "kq_qstate (s_q ?s' ! 0) = KQINIT \<or> kq_qstate (s_q ?s' ! 0) = KQDRAINING"
          if "s_cons s = CInit"
        proof -
          from cinv_CInit(4) [OF D(5) that] True have "nat k \<noteq> 0" by auto
          then show ?thesis using cinv_CInit(4) [OF D(5) that] by (simp add: qs')
        qed
      qed simp_all
      show "owners_distinct ((s_prods s)[i := p'])"
      proof (rule owners_distinct_update_new [OF D(8), where k = k])
        show "owns p' = Some k" by (simp add: owns_def p')
        show "owns (s_prods s ! b) \<noteq> Some k" if "b < length (s_prods s)" "b \<noteq> i" for b
          using owners_not_state [OF inv that(1), of "nat k"] True ik by simp
      qed
    qed
  qed
qed

lemma step_PClaimed:
  assumes inv: "ring_inv E key iv nkq s" and i: "i < length (s_prods s)"
    and loc: "p_loc (s_prods s ! i) = PClaimed k"
    and step: "prod_step E nkq (s_prods s ! i) (s_q s) = Some (p', qs')"
  shows "ring_inv E key iv nkq (s\<lparr>s_prods := (s_prods s)[i := p'], s_q := qs'\<rparr>)"
proof -
  let ?p = "s_prods s ! i"
  note D = ring_invD [OF inv]
  have P: "0 \<le> k" "k < nkq" "evp_key (p_evp ?p) = key"
    "kq_qstate (s_q s ! nat k) = KQFILLING"
    "kq_ctr (s_q s ! nat k) = ctr_plus iv (qstart nkq s (nat k))"
    using D(7) [OF i] loc by (simp_all add: pinv_def)
  have p': "p' = ?p\<lparr>p_loc := PFill k 0,
      p_evp := EVP_EncryptInit_iv (p_evp ?p) (kq_ctr (s_q s ! nat k))\<rparr>" and qs': "qs' = s_q s"
    using step loc by (auto simp: prod_step_def)
  have "pinv E key iv nkq s p'"
    using P by (simp add: pinv_def p' EVP_EncryptInit_iv_def)
  moreover have "owns p' = owns ?p" using loc by (simp add: owns_def p')
  ultimately show ?thesis
    unfolding qs' by (intro prod_move_inv [OF inv i]) simp_all
qed

subsection \<open>Producer fill loop\<close>

lemma qstart_upd [simp]:
  "qstart nkq (s\<lparr>s_prods := ps\<rparr>) j = qstart nkq s j"
  "qstart nkq (s\<lparr>s_q := qs\<rparr>) j = qstart nkq s j"
  "qstart nkq (s\<lparr>s_cons := cl\<rparr>) j = qstart nkq s j"
  "qstart nkq (s\<lparr>s_ridx := r\<rparr>) j = qstart nkq s j"
  "qstart nkq (s\<lparr>s_qidx := qi\<rparr>) j = qstart nkq s j"
  by (simp_all add: qstart_def cur_def rnd_def)

lemma cur_upd [simp]:
  "cur nkq (s\<lparr>s_prods := ps\<rparr>) = cur nkq s"
  "cur nkq (s\<lparr>s_q := qs\<rparr>) = cur nkq s"
  "cur nkq (s\<lparr>s_cons := cl\<rparr>) = cur nkq s"
  "cur nkq (s\<lparr>s_ridx := r\<rparr>) = cur nkq s"
  "cur nkq (s\<lparr>s_qidx := qi\<rparr>) = cur nkq s"
  by (simp_all add: cur_def rnd_def)

lemma rnd_upd [simp]:
  "rnd (s\<lparr>s_prods := ps\<rparr>) = rnd s"
  "rnd (s\<lparr>s_q := qs\<rparr>) = rnd s"
  "rnd (s\<lparr>s_cons := cl\<rparr>) = rnd s"
  "rnd (s\<lparr>s_ridx := r\<rparr>) = rnd s"
  "rnd (s\<lparr>s_qidx := qi\<rparr>) = rnd s"
  by (simp_all add: rnd_def)

lemma is_old_upd [simp]:
  "is_old (s\<lparr>s_prods := ps\<rparr>) j = is_old s j"
  "is_old (s\<lparr>s_q := qs\<rparr>) j = is_old s j"
  "is_old (s\<lparr>s_ridx := r\<rparr>) j = is_old s j"
  "is_old (s\<lparr>s_qidx := qi\<rparr>) j = is_old s j"
  "is_old (s\<lparr>s_consumed := n\<rparr>) j = is_old s j"
  by (simp_all add: is_old_def)

lemma waiting_upd [simp]:
  "waiting (s\<lparr>s_prods := ps\<rparr>) = waiting s"
  "waiting (s\<lparr>s_q := qs\<rparr>) = waiting s"
  "waiting (s\<lparr>s_ridx := r\<rparr>) = waiting s"
  "waiting (s\<lparr>s_qidx := qi\<rparr>) = waiting s"
  "waiting (s\<lparr>s_consumed := n\<rparr>) = waiting s"
  by (simp_all add: waiting_def)

lemma owners_distinctD:
  assumes "owners_distinct ps" "a < length ps" "b < length ps" "a \<noteq> b"
    "owns (ps ! a) = Some k"
  shows "owns (ps ! b) \<noteq> Some k"
proof -
  have "owns (ps ! a) \<noteq> None" using assms(5) by simp
  with assms(1-4) have "owns (ps ! a) \<noteq> owns (ps ! b)"
    unfolding owners_distinct_def by blast
  then show ?thesis using assms(5) by simp
qed

lemma map_upt_snoc:
  "map f [0..<n] @ [f n] = map f [0..<Suc n]"
  by simp

lemma step_PFill_slot:
  assumes inv: "ring_inv E key iv nkq s" and i: "i < length (s_prods s)"
    and loc: "p_loc (s_prods s ! i) = PFill k n" and n: "n < KQLEN"
    and step: "prod_step E nkq (s_prods s ! i) (s_q s) = Some (p', qs')"
  shows "ring_inv E key iv nkq (s\<lparr>s_prods := (s_prods s)[i := p'], s_q := qs'\<rparr>)"
proof -
  let ?p = "s_prods s ! i"
  let ?qu = "s_q s ! nat k"
  let ?st = "qstart nkq s (nat k)"
  note D = ring_invD [OF inv]
  have P: "0 \<le> k" "k < nkq" "evp_key (p_evp ?p) = key" "kq_qstate ?qu = KQFILLING"
    "kq_ctr ?qu = ctr_plus iv (?st + n)"
    "take n (kq_keys ?qu) = map (\<lambda>i. kblock E key iv (?st + i)) [0..<n]"
    "evp_iv (p_evp ?p) = ctr_plus iv (?st + n)"
    using D(7) [OF i] loc by (simp_all add: pinv_def)
  have kn: "nat k < nat nkq" using P(1,2) by simp
  have lk: "nat k < length (s_q s)" using D(3) kn by linarith
  note L = qinv_lengths [OF D(6) [OF kn]]
  have l16: "length (kq_ctr ?qu) = 16" using L by simp
  have iv16: "length (evp_iv (p_evp ?p)) = 16" using P(7) D(4) by simp
  define qu' where "qu' = ?qu\<lparr>kq_keys := (kq_keys ?qu)[n := kblock E key iv (?st + n)],
      kq_ctr := ctr_plus iv (?st + (n + 1))\<rparr>"
  define ctx' where "ctx' = (p_evp ?p)\<lparr>evp_iv := ctr_plus iv (?st + (n + 1))\<rparr>"
  have slot: "fill_slot E n (p_evp ?p, ?qu) = (ctx', qu')"
    using P(3,5,7) iv16
    by (simp add: fill_slot_eq [OF l16] ssh_ctr_inc_16 ctr_plus_plus kblock_def qu'_def ctx'_def)
  have p': "p' = ?p\<lparr>p_loc := PFill k (n + 1), p_evp := ctx'\<rparr>"
    and qs': "qs' = (s_q s)[nat k := qu']"
    using step loc n slot by (auto simp: prod_step_def)
  let ?s' = "s\<lparr>s_prods := (s_prods s)[i := p'], s_q := qs'\<rparr>"
  have st': "qstart nkq ?s' (nat k) = ?st" by (rule qstart_frame) simp
  have tk: "take (Suc n) (kq_keys qu') = map (\<lambda>i. kblock E key iv (?st + i)) [0..<Suc n]"
  proof -
    have "n < length (kq_keys ?qu)" using L n by simp
    then have "take (Suc n) ((kq_keys ?qu)[n := kblock E key iv (?st + n)])
        = take n (kq_keys ?qu) @ [kblock E key iv (?st + n)]"
      by (simp add: take_Suc_conv_app_nth)
    then show ?thesis
      unfolding P(6) map_upt_snoc [of "\<lambda>i. kblock E key iv (?st + i)" n, symmetric]
      by (simp add: qu'_def)
  qed
  show ?thesis
  proof (rule prod_update_inv [OF inv i, where kk = "nat k"])
    show "length qs' = length (s_q s)" by (simp add: qs')
    show "qs' ! j = s_q s ! j" if "j \<noteq> nat k" for j using that by (simp add: qs')
    show "owns (s_prods s ! b) \<noteq> Some (int (nat k))"
      if b: "b < length (s_prods s)" "b \<noteq> i" for b
    proof -
      have "owns ?p = Some k" using loc by (simp add: owns_def)
      from owners_distinctD [OF D(8) i b(1) b(2) [symmetric] this]
      show ?thesis using P(1) by simp
    qed
    show "qinv E key iv nkq ?s' (nat k)"
      using L lk P(4) D(4) by (simp add: qinv_def Let_def qs' qu'_def)
    show "pinv E key iv nkq ?s' p'"
      using P(1-4) n lk tk by (simp add: pinv_def p' st' qs' ctx'_def) (simp add: qu'_def)
    show "cinv nkq ?s'"
    proof (rule cinv_states [OF D(5)])
      have same: "kq_qstate (s_q ?s' ! j) = kq_qstate (s_q s ! j)" for j
        using lk by (cases "j = nat k") (simp_all add: qs' qu'_def)
      show "(kq_qstate (s_q ?s' ! j) = KQDRAINING) = (kq_qstate (s_q s ! j) = KQDRAINING)" for j
        by (simp only: same)
      show "kq_qstate (s_q ?s' ! 0) = KQINIT \<or> kq_qstate (s_q ?s' ! 0) = KQDRAINING"
        if "s_cons s = CInit"
        using cinv_CInit(4) [OF D(5) that] by (simp only: same)
    qed simp_all
    show "owners_distinct ((s_prods s)[i := p'])"
      by (rule owners_distinct_update_same [OF D(8)]) (simp add: owns_def p' loc)
  qed
qed

lemma step_PFill_done:
  assumes inv: "ring_inv E key iv nkq s" and i: "i < length (s_prods s)"
    and loc: "p_loc (s_prods s ! i) = PFill k n" and n: "\<not> n < KQLEN"
    and step: "prod_step E nkq (s_prods s ! i) (s_q s) = Some (p', qs')"
  shows "ring_inv E key iv nkq (s\<lparr>s_prods := (s_prods s)[i := p'], s_q := qs'\<rparr>)"
proof -
  let ?p = "s_prods s ! i"
  let ?qu = "s_q s ! nat k"
  let ?st = "qstart nkq s (nat k)"
  note D = ring_invD [OF inv]
  have P: "0 \<le> k" "k < nkq" "evp_key (p_evp ?p) = key" "kq_qstate ?qu = KQFILLING"
    "kq_ctr ?qu = ctr_plus iv (?st + n)"
    "take n (kq_keys ?qu) = map (\<lambda>i. kblock E key iv (?st + i)) [0..<n]" "n \<le> KQLEN"
    using D(7) [OF i] loc by (simp_all add: pinv_def)
  have nK: "n = KQLEN" using n P(7) by simp
  have kn: "nat k < nat nkq" using P(1,2) by simp
  have lk: "nat k < length (s_q s)" using D(3) kn by linarith
  note L = qinv_lengths [OF D(6) [OF kn]]
  have keys: "kq_keys ?qu = full_keys E key iv ?st"
    using P(6) L by (simp add: nK full_keys_def)
  have nk: "1 \<le> nkq" using D(1) by simp
  have "KQLEN + KQLEN * nat (nkq - 1) = nat nkq * KQLEN"
  proof -
    have "nat nkq = Suc (nat (nkq - 1))" using nk by simp
    then show ?thesis by simp
  qed
  then have adv: "ssh_ctr_add (kq_ctr ?qu) (ring_advance nkq) AES_BLOCK_SIZE
      = ctr_plus iv (?st + nat nkq * KQLEN)"
    using L D(4) by (simp add: P(5) nK ssh_ctr_add_16 unat_ring_advance [OF nk D(2)]
        ctr_plus_plus add.assoc)
  define qu' where "qu' = ?qu\<lparr>kq_ctr := ctr_plus iv (?st + nat nkq * KQLEN),
      kq_qstate := KQFULL\<rparr>"
  have p': "p' = ?p\<lparr>p_loc := PScan ((k + 1) mod nkq)\<rparr>"
    and qs': "qs' = (s_q s)[nat k := qu']"
    using step loc n adv by (auto simp: prod_step_def Let_def qu'_def)
  let ?s' = "s\<lparr>s_prods := (s_prods s)[i := p'], s_q := qs'\<rparr>"
  have st': "qstart nkq ?s' (nat k) = ?st" by (rule qstart_frame) simp
  show ?thesis
  proof (rule prod_update_inv [OF inv i, where kk = "nat k"])
    show "length qs' = length (s_q s)" by (simp add: qs')
    show "qs' ! j = s_q s ! j" if "j \<noteq> nat k" for j using that by (simp add: qs')
    show "owns (s_prods s ! b) \<noteq> Some (int (nat k))"
      if b: "b < length (s_prods s)" "b \<noteq> i" for b
    proof -
      have "owns ?p = Some k" using loc by (simp add: owns_def)
      from owners_distinctD [OF D(8) i b(1) b(2) [symmetric] this]
      show ?thesis using P(1) by simp
    qed
    show "qinv E key iv nkq ?s' (nat k)"
      using L lk D(4) keys by (simp add: qinv_def Let_def qs' qu'_def st')
    have "0 \<le> (k + 1) mod nkq" "(k + 1) mod nkq < nkq" using D(1) by simp_all
    then show "pinv E key iv nkq ?s' p'"
      using P(3) by (simp add: pinv_def p')
    show "cinv nkq ?s'"
    proof (rule cinv_states [OF D(5)])
      show "(kq_qstate (s_q ?s' ! j) = KQDRAINING) = (kq_qstate (s_q s ! j) = KQDRAINING)" for j
        using lk P(4) by (cases "j = nat k") (simp_all add: qs' qu'_def)
      show "kq_qstate (s_q ?s' ! 0) = KQINIT \<or> kq_qstate (s_q ?s' ! 0) = KQDRAINING"
        if "s_cons s = CInit"
      proof -
        from cinv_CInit(4) [OF D(5) that] P(4) have "nat k \<noteq> 0" by auto
        then show ?thesis using cinv_CInit(4) [OF D(5) that] by (simp add: qs')
      qed
    qed simp_all
    show "owners_distinct ((s_prods s)[i := p'])"
      by (rule owners_distinct_update_none [OF D(8)]) (simp add: owns_def p')
  qed
qed

lemma prod_step_inv:
  assumes inv: "ring_inv E key iv nkq s" and i: "i < length (s_prods s)"
    and step: "prod_step E nkq (s_prods s ! i) (s_q s) = Some (p', qs')"
  shows "ring_inv E key iv nkq (s\<lparr>s_prods := (s_prods s)[i := p'], s_q := qs'\<rparr>)"
proof (cases "p_loc (s_prods s ! i)")
  case PStart
  show ?thesis
  proof (cases "p_first (s_prods s ! i) \<and> kq_qstate (s_q s ! 0) = KQINIT")
    case True
    then show ?thesis using step_PStart_fill [OF inv i PStart _ _ step] by simp
  next
    case False
    then show ?thesis by (rule step_PStart_skip [OF inv i PStart _ step])
  qed
next
  case (PScan k)
  then show ?thesis by (rule step_PScan [OF inv i _ step])
next
  case (PClaimed k)
  then show ?thesis by (rule step_PClaimed [OF inv i _ step])
next
  case (PFill k n)
  show ?thesis
  proof (cases "n < KQLEN")
    case True
    then show ?thesis by (rule step_PFill_slot [OF inv i PFill _ step])
  next
    case False
    then show ?thesis by (rule step_PFill_done [OF inv i PFill _ step])
  qed
qed

subsection \<open>Consumer: initialisation and call entry\<close>

lemma pinv_frame2:
  assumes "\<And>k. owns p = Some k \<Longrightarrow>
      s_q s' ! nat k = s_q s ! nat k \<and> qstart nkq s' (nat k) = qstart nkq s (nat k)"
  shows "pinv E key iv nkq s' p = pinv E key iv nkq s p"
proof (cases "p_loc p")
  case PStart
  then show ?thesis by (simp add: pinv_def)
next
  case (PScan k)
  then show ?thesis by (simp add: pinv_def)
next
  case (PClaimed k)
  then have "s_q s' ! nat k = s_q s ! nat k \<and> qstart nkq s' (nat k) = qstart nkq s (nat k)"
    using assms by (simp add: owns_def)
  then show ?thesis using PClaimed by (simp add: pinv_def)
next
  case (PFill k n)
  then have "s_q s' ! nat k = s_q s ! nat k \<and> qstart nkq s' (nat k) = qstart nkq s (nat k)"
    using assms by (simp add: owns_def)
  then show ?thesis using PFill by (simp add: pinv_def)
qed

lemma cons_update_inv:
  assumes inv: "ring_inv E key iv nkq s"
    and prods: "s_prods s' = s_prods s"
    and len: "length (s_q s') = length (s_q s)"
    and c: "cinv nkq s'"
    and q: "\<And>j. j < nat nkq \<Longrightarrow> qinv E key iv nkq s' j"
    and fill: "\<And>k. k < nat nkq \<Longrightarrow> kq_qstate (s_q s ! k) = KQFILLING \<Longrightarrow>
        s_q s' ! k = s_q s ! k \<and> qstart nkq s' k = qstart nkq s k"
  shows "ring_inv E key iv nkq s'"
proof (rule ring_invI)
  note D = ring_invD [OF inv]
  show "2 \<le> nkq" "nkq \<le> MAX_NUMKQ" "length iv = 16" by (rule D)+
  show "nat nkq \<le> length (s_q s')" using D(3) len by simp
  show "cinv nkq s'" by (rule c)
  show "owners_distinct (s_prods s')" using D(8) prods by simp
  show "qinv E key iv nkq s' j" if "j < nat nkq" for j by (rule q [OF that])
  show "pinv E key iv nkq s' (s_prods s' ! b)" if "b < length (s_prods s')" for b
  proof -
    from that have b: "b < length (s_prods s)" by (simp add: prods)
    have "pinv E key iv nkq s' (s_prods s ! b) = pinv E key iv nkq s (s_prods s ! b)"
    proof (rule pinv_frame2)
      fix k assume k: "owns (s_prods s ! b) = Some k"
      note O = pinv_owns [OF D(7) [OF b] k]
      have "nat k < nat nkq" using O(1,2) by simp
      from fill [OF this O(3)]
      show "s_q s' ! nat k = s_q s ! nat k \<and> qstart nkq s' (nat k) = qstart nkq s (nat k)" .
    qed
    then show ?thesis using D(7) [OF b] by (simp add: prods)
  qed
qed

lemma qinv_cong:
  assumes "qinv E key iv nkq s j"
    and "s_q s' ! j = s_q s ! j" "qstart nkq s' j = qstart nkq s j" "cur nkq s' = cur nkq s"
    and "is_old s' j = is_old s j" "waiting s' \<Longrightarrow> waiting s"
    and "kq_qstate (s_q s ! j) = KQINIT \<Longrightarrow> s_cons s' = CInit"
  shows "qinv E key iv nkq s' j"
proof (cases "kq_qstate (s_q s ! j)")
  case KQINIT
  then show ?thesis using assms by (auto simp: qinv_def Let_def)
next
  case KQEMPTY
  then show ?thesis using assms(1-3) by (auto simp: qinv_def Let_def)
next
  case KQFILLING
  then show ?thesis using assms(1-3) by (auto simp: qinv_def Let_def)
next
  case KQFULL
  then show ?thesis using assms(1-3) by (auto simp: qinv_def Let_def)
next
  case KQDRAINING
  then show ?thesis using assms(1-6) by (auto simp: qinv_def Let_def)
qed

lemma no_INIT_after_init:
  assumes inv: "ring_inv E key iv nkq s" and c: "s_cons s \<noteq> CInit" and j: "j < nat nkq"
  shows "kq_qstate (s_q s ! j) \<noteq> KQINIT"
proof
  assume "kq_qstate (s_q s ! j) = KQINIT"
  from qinv_INIT [OF ring_invD(6) [OF inv j] this] c show False by simp
qed

lemma step_CInit:
  assumes inv: "ring_inv E key iv nkq s" and loc: "s_cons s = CInit"
    and step: "cons_step L nkq s = Some s'"
  shows "ring_inv E key iv nkq s'"
proof -
  note D = ring_invD [OF inv]
  have ni: "kq_qstate (s_q s ! 0) \<noteq> KQINIT" and s': "s' = s\<lparr>s_cons := CIdle\<rparr>"
    using step loc by (auto simp: cons_step_def split: if_splits)
  note C = cinv_CInit [OF D(5) loc]
  show ?thesis
  proof (rule cons_update_inv [OF inv])
    show "s_prods s' = s_prods s" "length (s_q s') = length (s_q s)" by (simp_all add: s')
    show "cinv nkq s'"
      using D(5) C ni by (simp add: cinv_def s' KQLEN_def)
    show "qinv E key iv nkq s' j" if j: "j < nat nkq" for j
    proof (rule qinv_cong [OF D(6) [OF j]])
      show "kq_qstate (s_q s ! j) = KQINIT \<Longrightarrow> s_cons s' = CInit"
        using qinv_INIT [OF D(6) [OF j]] ni by auto
    qed (simp_all add: s' is_old_def waiting_def loc)
    show "s_q s' ! k = s_q s ! k \<and> qstart nkq s' k = qstart nkq s k" for k
      by (simp add: s')
  qed
qed

lemma enter_inv:
  assumes inv: "ring_inv E key iv nkq s"
    and idle: "s_cons s = CIdle \<or> (\<exists>r d. s_cons s = CReturned r d)"
  shows "ring_inv E key iv nkq (ssh_aes_ctr_enter dest src len s)"
proof -
  note D = ring_invD [OF inv]
  let ?s' = "ssh_aes_ctr_enter dest src len s"
  have ci: "kq_qstate (s_q s ! cur nkq s) = KQDRAINING" "s_ridx s = int (s_consumed s mod KQLEN)"
    "s_qidx s = int (cur nkq s)"
    using D(5) idle by (auto simp: cinv_def)
  have nI: "s_cons s \<noteq> CInit" using idle by auto
  have old: "is_old s j = False" "waiting s = False" for j
    using idle by (auto simp: is_old_def waiting_def)
  have s'c: "s_cons ?s' = CReturned 1 (b_mem dest) \<or>
      s_cons ?s' = CLoop (src\<lparr>b_ptr := b_base src\<rparr>) len (dest\<lparr>b_ptr := b_base dest\<rparr>) (s_ridx s)"
    by (simp add: ssh_aes_ctr_enter_def)
  have fr: "s_q ?s' = s_q s" "s_prods ?s' = s_prods s" "s_consumed ?s' = s_consumed s"
    "s_qidx ?s' = s_qidx s" "s_ridx ?s' = s_ridx s"
    by (simp_all add: ssh_aes_ctr_enter_def)
  have old': "is_old ?s' j = False" "waiting ?s' = False" for j
    using s'c by (auto simp: is_old_def waiting_def)
  show ?thesis
  proof (rule cons_update_inv [OF inv])
    show "s_prods ?s' = s_prods s" "length (s_q ?s') = length (s_q s)" by (simp_all add: fr)
    show "cinv nkq ?s'"
      using s'c ci by (auto simp: cinv_def fr cur_frame [OF fr(3)])
    show "qinv E key iv nkq ?s' j" if j: "j < nat nkq" for j
    proof (rule qinv_cong [OF D(6) [OF j]])
      show "kq_qstate (s_q s ! j) = KQINIT \<Longrightarrow> s_cons ?s' = CInit"
        using no_INIT_after_init [OF inv nI j] by simp
    qed (simp_all add: fr old old' qstart_frame [OF fr(3)] cur_frame [OF fr(3)])
    show "s_q ?s' ! k = s_q s ! k \<and> qstart nkq ?s' k = qstart nkq s k" for k
      by (simp add: fr qstart_frame [OF fr(3)])
  qed
qed

subsection \<open>Consumer: a block within a queue\<close>

lemma cur_lt: "0 < nkq \<Longrightarrow> cur nkq s < nat nkq"
  by (simp add: cur_def)

lemma loop_test_cons [simp]:
  "loop_test src len dest r (s\<lparr>s_cons := x\<rparr>) = loop_test src len dest r s"
  by (simp add: loop_test_def)

lemma loop_test_inv:
  assumes inv: "ring_inv E key iv nkq (s\<lparr>s_cons := CLoop src0 len0 dest0 r\<rparr>)"
  shows "ring_inv E key iv nkq (loop_test src len dest r s)"
proof -
  let ?s = "s\<lparr>s_cons := CLoop src0 len0 dest0 r\<rparr>"
  let ?s' = "loop_test src len dest r s"
  note D = ring_invD [OF inv]
  have ci: "kq_qstate (s_q s ! cur nkq s) = KQDRAINING" "r = int (s_consumed s mod KQLEN)"
    "s_qidx s = int (cur nkq s)"
    using D(5) by (auto simp: cinv_def)
  have s'c: "s_cons ?s' = CReturned 1 (b_mem dest) \<and> s_ridx ?s' = r \<or>
             s_cons ?s' = CLoop src (len_minus_block len) dest r"
    by (simp add: loop_test_def)
  have fr: "s_q ?s' = s_q ?s" "s_prods ?s' = s_prods ?s" "s_consumed ?s' = s_consumed ?s"
    "s_qidx ?s' = s_qidx s"
    by (simp_all add: loop_test_def)
  have old: "is_old ?s j = False" "waiting ?s = False" for j
    by (simp_all add: is_old_def waiting_def)
  have old': "is_old ?s' j = False" "waiting ?s' = False" for j
    using s'c by (auto simp: is_old_def waiting_def)
  show ?thesis
  proof (rule cons_update_inv [OF inv])
    show "s_prods ?s' = s_prods ?s" "length (s_q ?s') = length (s_q ?s)" by (simp_all add: fr)
    show "cinv nkq ?s'"
      using ci by (simp add: loop_test_def cinv_def)
    show "qinv E key iv nkq ?s' j" if j: "j < nat nkq" for j
    proof (rule qinv_cong [OF D(6) [OF j]])
      show "kq_qstate (s_q ?s ! j) = KQINIT \<Longrightarrow> s_cons ?s' = CInit"
        using no_INIT_after_init [OF inv _ j] by simp
    qed (simp_all add: fr old old' qstart_frame [OF fr(3)] cur_frame [OF fr(3)])
    show "s_q ?s' ! k = s_q ?s ! k \<and> qstart nkq ?s' k = qstart nkq ?s k" for k
      by (simp add: fr qstart_frame [OF fr(3)])
  qed
qed

lemma ridx_succ:
  "(int (c mod KQLEN) + 1) mod int KQLEN = int ((c + 1) mod KQLEN)"
proof -
  have "int ((c + 1) mod KQLEN) = int (c + 1) mod int KQLEN"
    by (rule zmod_int)
  also have "int (c + 1) = int c + 1" by simp
  also have "(int c + 1) mod int KQLEN = (int c mod int KQLEN + 1) mod int KQLEN"
    by (simp add: mod_simps)
  finally show ?thesis by (simp add: zmod_int)
qed

lemma step_CLoop_stay:
  assumes inv: "ring_inv E key iv nkq s" and loc: "s_cons s = CLoop src len dest r"
    and stay: "(r + 1) mod int KQLEN \<noteq> 0"
  shows "ring_inv E key iv nkq
           (s\<lparr>s_consumed := s_consumed s + 1,
               s_cons := CLoop src' len' dest' ((r + 1) mod int KQLEN)\<rparr>)"
proof -
  let ?s' = "s\<lparr>s_consumed := s_consumed s + 1,
               s_cons := CLoop src' len' dest' ((r + 1) mod int KQLEN)\<rparr>"
  note D = ring_invD [OF inv]
  have ci: "kq_qstate (s_q s ! cur nkq s) = KQDRAINING" "r = int (s_consumed s mod KQLEN)"
    "s_qidx s = int (cur nkq s)"
    using D(5) loc by (auto simp: cinv_def)
  have r': "(r + 1) mod int KQLEN = int ((s_consumed s + 1) mod KQLEN)"
    unfolding ci(2) by (rule ridx_succ)
  have nz: "(s_consumed s + 1) mod KQLEN \<noteq> 0" using stay r' by simp
  have rn: "rnd (s\<lparr>s_consumed := Suc (s_consumed s)\<rparr>) = rnd s"
    using no_rollover(1) [OF nz] by (simp add: rnd_def)
  have cu1: "cur nkq (s\<lparr>s_consumed := Suc (s_consumed s)\<rparr>) = cur nkq s"
    by (simp add: cur_def rn)
  have cu: "cur nkq ?s' = cur nkq s" by (simp add: cu1)
  have qs: "qstart nkq ?s' j = qstart nkq s j" for j by (simp add: qstart_def rn cu1)
  have old: "is_old s j = False" "waiting s = False" "is_old ?s' j = False" "waiting ?s' = False" for j
    by (simp_all add: is_old_def waiting_def loc)
  have nI: "s_cons s \<noteq> CInit" using loc by simp
  show ?thesis
  proof (rule cons_update_inv [OF inv])
    show "s_prods ?s' = s_prods s" "length (s_q ?s') = length (s_q s)" by simp_all
    show "cinv nkq ?s'"
      unfolding cinv_def cu using ci r' by simp
    show "qinv E key iv nkq ?s' j" if j: "j < nat nkq" for j
    proof (rule qinv_cong [OF D(6) [OF j]])
      show "kq_qstate (s_q s ! j) = KQINIT \<Longrightarrow> s_cons ?s' = CInit"
        using no_INIT_after_init [OF inv nI j] by simp
      show "qstart nkq ?s' j = qstart nkq s j" by (rule qs)
      show "cur nkq ?s' = cur nkq s" by (rule cu)
    qed (simp_all add: is_old_def waiting_def loc)
    show "s_q ?s' ! k = s_q s ! k \<and> qstart nkq ?s' k = qstart nkq s k" for k
      using qs by simp
  qed
qed

subsection \<open>Consumer: rollover\<close>

lemma qinv_cong_mid:
  assumes "qinv E key iv nkq s j"
    and "s_q s' ! j = s_q s ! j" "qstart nkq s' j = qstart nkq s j"
    and "kq_qstate (s_q s ! j) \<noteq> KQINIT" "kq_qstate (s_q s ! j) \<noteq> KQDRAINING"
  shows "qinv E key iv nkq s' j"
proof (cases "kq_qstate (s_q s ! j)")
  case KQINIT
  then show ?thesis using assms(4) by simp
next
  case KQEMPTY
  then show ?thesis using assms(1-3) by (auto simp: qinv_def Let_def)
next
  case KQFILLING
  then show ?thesis using assms(1-3) by (auto simp: qinv_def Let_def)
next
  case KQFULL
  then show ?thesis using assms(1-3) by (auto simp: qinv_def Let_def)
next
  case KQDRAINING
  then show ?thesis using assms(5) by simp
qed

lemma nat_int_mod:
  assumes "0 < nkq"
  shows "(int c + 1) mod nkq = int ((c + 1) mod nat nkq)"
proof -
  have "int ((c + 1) mod nat nkq) = int (c + 1) mod int (nat nkq)" by (rule zmod_int)
  also have "int (nat nkq) = nkq" using assms by simp
  also have "int (c + 1) = int c + 1" by simp
  finally show ?thesis by simp
qed

lemma step_CLoop_roll:
  assumes inv: "ring_inv E key iv nkq s" and loc: "s_cons s = CLoop src len dest r"
    and roll: "(r + 1) mod int KQLEN = 0"
    and s': "s' = s\<lparr>s_consumed := s_consumed s + 1, s_qidx := (s_qidx s + 1) mod nkq,
                    s_cons := CWait src' len' dest' 0 (s_qidx s)\<rparr>"
  shows "ring_inv E key iv nkq s'"
proof -
  note D = ring_invD [OF inv]
  define N where "N = nat nkq"
  define c where "c = cur nkq s"
  have N2: "2 \<le> N" using D(1) by (simp add: N_def)
  have cN: "c < N" using D(1) by (simp add: c_def N_def cur_def)
  have ci: "kq_qstate (s_q s ! c) = KQDRAINING" "r = int (s_consumed s mod KQLEN)"
    "s_qidx s = int c"
    using D(5) loc by (auto simp: cinv_def c_def)
  have r': "(r + 1) mod int KQLEN = int ((s_consumed s + 1) mod KQLEN)"
    unfolding ci(2) by (rule ridx_succ)
  have z: "(s_consumed s + 1) mod KQLEN = 0" using roll r' by simp
  have fr: "s_q s' = s_q s" "s_prods s' = s_prods s" "s_consumed s' = s_consumed s + 1"
    "s_qidx s' = (int c + 1) mod nkq" "s_cons s' = CWait src' len' dest' 0 (int c)"
    by (simp_all add: s' ci(3))
  have rn: "rnd s' = rnd s + 1"
    unfolding rnd_def fr(3) by (rule at_rollover_div [OF z])
  have cu: "cur nkq s' = (c + 1) mod N"
    unfolding cur_def rn c_def N_def by (simp add: mod_simps)
  have qs': "qstart nkq s' j = (rnd s + 1 + ring_off N ((c + 1) mod N) j) * KQLEN" for j
    unfolding qstart_def rn cu N_def [symmetric] ..
  have qs: "qstart nkq s j = (rnd s + ring_off N c j) * KQLEN" for j
    unfolding qstart_def c_def N_def ..
  have qsame: "qstart nkq s' j = qstart nkq s j" if "j < N" "j \<noteq> c" for j
  proof -
    have "Suc (ring_off N ((c + 1) mod N) j) = ring_off N c j"
      by (rule ring_off_shift [OF N2 cN that])
    then have "rnd s + 1 + ring_off N ((c + 1) mod N) j = rnd s + ring_off N c j"
      by presburger
    then show ?thesis unfolding qs' qs by (rule arg_cong [where f = "\<lambda>x. x * KQLEN"])
  qed
  have qold: "qstart nkq s' c = qstart nkq s c + N * KQLEN"
  proof -
    have "ring_off N ((c + 1) mod N) c = N - 1" by (rule ring_off_old [OF N2 cN])
    moreover have "ring_off N c c = 0" by (rule ring_off_self [OF cN])
    ultimately have "qstart nkq s' c = (rnd s + 1 + (N - 1)) * KQLEN"
      and "qstart nkq s c = rnd s * KQLEN" unfolding qs' qs by simp_all
    moreover have "rnd s + 1 + (N - 1) = rnd s + N" using N2 by simp
    ultimately show ?thesis by (simp add: add_mult_distrib)
  qed
  have old: "is_old s j = False" "waiting s = False" for j
    by (simp_all add: is_old_def waiting_def loc)
  have nI: "s_cons s \<noteq> CInit" using loc by simp
  have nd: "kq_qstate (s_q s ! j) \<noteq> KQDRAINING" if j: "j < N" "j \<noteq> c" for j
  proof
    assume "kq_qstate (s_q s ! j) = KQDRAINING"
    from qinv_DRAINING [OF D(6) [OF j(1) [unfolded N_def]] this] j(2)
    show False by (simp add: old c_def)
  qed
  have c'N: "(c + 1) mod N < N" using N2 by simp
  have c'c: "(c + 1) mod N \<noteq> c"
    unfolding succ_mod_cases [OF cN] using N2 by (simp split: if_splits)
  show ?thesis
  proof (rule cons_update_inv [OF inv])
    show "s_prods s' = s_prods s" "length (s_q s') = length (s_q s)" by (simp_all add: fr)
    show "cinv nkq s'"
    proof -
      have q: "s_qidx s' = int (cur nkq s')"
        unfolding fr(4) cu N_def using D(1) by (intro nat_int_mod) simp
      have oi: "int c = int ((cur nkq s' + nat nkq - 1) mod nat nkq)"
        unfolding cu N_def [symmetric] using old_index [OF N2 cN] by simp
      have ar: "at_rollover nkq s' 0 (int c)"
        unfolding at_rollover_def using z oi ci(1) by (simp add: fr rn)
      have "kq_qstate (s_q s' ! cur nkq s') \<noteq> KQDRAINING"
        unfolding cu fr(1) by (rule nd [OF c'N c'c])
      then show ?thesis unfolding cinv_def using q ar by (simp add: fr(5))
    qed
    show "qinv E key iv nkq s' j" if j: "j < nat nkq" for j
    proof (cases "j = c")
      case True
      note L = qinv_lengths [OF D(6) [OF j]]
      have Q: "kq_ctr (s_q s ! c) = ctr_plus iv (qstart nkq s c + nat nkq * KQLEN)"
        using qinv_DRAINING [OF D(6) [OF j]] ci(1) True by (auto simp: old)
      have io: "is_old s' c" by (simp add: is_old_def fr(5))
      show ?thesis
        unfolding qinv_def Let_def True fr(1)
        using L Q ci(1) io qold True by (simp add: N_def)
    next
      case False
      have jN: "j < N" using j by (simp add: N_def)
      show ?thesis
      proof (rule qinv_cong_mid [OF D(6) [OF j]])
        show "s_q s' ! j = s_q s ! j" by (simp add: fr)
        show "qstart nkq s' j = qstart nkq s j" by (rule qsame [OF jN False])
        show "kq_qstate (s_q s ! j) \<noteq> KQINIT" by (rule no_INIT_after_init [OF inv nI j])
        show "kq_qstate (s_q s ! j) \<noteq> KQDRAINING" by (rule nd [OF jN False])
      qed
    qed
    show "s_q s' ! k = s_q s ! k \<and> qstart nkq s' k = qstart nkq s k"
      if k: "k < nat nkq" "kq_qstate (s_q s ! k) = KQFILLING" for k
    proof -
      have "k \<noteq> c" using k(2) ci(1) by auto
      moreover have "k < N" using k(1) by (simp add: N_def)
      ultimately show ?thesis using qsame by (simp add: fr)
    qed
  qed
qed

subsection \<open>Consumer: taking the next queue and releasing the old one\<close>

lemma step_CWait:
  assumes inv: "ring_inv E key iv nkq s" and loc: "s_cons s = CWait src len dest r oldq"
    and full: "kq_qstate (s_q s ! nat (s_qidx s)) = KQFULL"
    and s': "s' = s\<lparr>s_q := (s_q s)[nat (s_qidx s) :=
                          (s_q s ! nat (s_qidx s))\<lparr>kq_qstate := KQDRAINING\<rparr>],
                    s_cons := CMark src len dest r oldq\<rparr>"
  shows "ring_inv E key iv nkq s'"
proof -
  note D = ring_invD [OF inv]
  define N where "N = nat nkq"
  define c where "c = cur nkq s"
  have N2: "2 \<le> N" using D(1) by (simp add: N_def)
  have cN: "c < N" using D(1) by (simp add: c_def N_def cur_def)
  have cl: "c < length (s_q s)" using cN D(3) by (simp add: N_def)
  have qi: "nat (s_qidx s) = c" using D(5) by (simp add: cinv_def c_def)
  have ar: "at_rollover nkq s r oldq" using D(5) loc by (simp add: cinv_def)
  have oq: "oldq = int ((c + N - 1) mod N)" "kq_qstate (s_q s ! nat oldq) = KQDRAINING"
    using ar by (auto simp: at_rollover_def c_def N_def)
  have no: "nat oldq = (c + N - 1) mod N" using oq(1) by simp
  have oc: "nat oldq \<noteq> c" unfolding no by (rule old_index_neq [OF N2 cN])
  have fullc: "kq_qstate (s_q s ! c) = KQFULL" using full qi by simp
  have fr: "s_q s' = (s_q s)[c := (s_q s ! c)\<lparr>kq_qstate := KQDRAINING\<rparr>]"
    "s_prods s' = s_prods s" "s_consumed s' = s_consumed s"
    "s_qidx s' = s_qidx s" "s_cons s' = CMark src len dest r oldq" "s_ridx s' = s_ridx s"
    by (simp_all add: s' qi)
  have cu: "cur nkq s' = c" unfolding c_def by (rule cur_frame [OF fr(3)])
  have qs: "qstart nkq s' j = qstart nkq s j" for j by (rule qstart_frame [OF fr(3)])
  have io: "is_old s' j = is_old s j" for j by (simp add: is_old_def fr(5) loc)
  have nw: "\<not> waiting s'" by (simp add: waiting_def fr(5))
  have nI: "s_cons s \<noteq> CInit" using loc by simp
  show ?thesis
  proof (rule cons_update_inv [OF inv])
    show "s_prods s' = s_prods s" "length (s_q s') = length (s_q s)" by (simp_all add: fr)
    show "cinv nkq s'"
    proof -
      have ard: "r = 0" "s_consumed s mod KQLEN = 0" "0 < rnd s"
        "oldq = int ((c + nat nkq - 1) mod nat nkq)"
        using ar by (auto simp: at_rollover_def c_def)
      have st: "kq_qstate (s_q s' ! nat oldq) = KQDRAINING"
        unfolding fr(1) using oc oq(2) by simp
      have rn: "rnd s' = rnd s" by (simp add: rnd_def fr(3))
      have "at_rollover nkq s' r oldq"
        unfolding at_rollover_def cu rn fr(3) using ard st by blast
      moreover have "kq_qstate (s_q s' ! cur nkq s') = KQDRAINING"
        unfolding cu fr(1) using cl by simp
      moreover have "s_qidx s' = int (cur nkq s')"
        using D(5) by (simp add: cinv_def fr(4) cu c_def)
      ultimately show ?thesis unfolding cinv_def by (simp add: fr(5))
    qed
    show "qinv E key iv nkq s' j" if j: "j < nat nkq" for j
    proof (cases "j = c")
      case True
      note L = qinv_lengths [OF D(6) [OF j]]
      note Q = qinv_FULL [OF D(6) [OF j]]
      have nio: "\<not> is_old s' c" using oc oq(1) by (auto simp: is_old_def fr(5))
      show ?thesis
        unfolding qinv_def Let_def True fr(1) cu qs
        using L Q fullc nio nw cl True by simp
    next
      case False
      show ?thesis
      proof (rule qinv_cong [OF D(6) [OF j]])
        show "s_q s' ! j = s_q s ! j" using False by (simp add: fr(1))
        show "qstart nkq s' j = qstart nkq s j" by (rule qs)
        show "cur nkq s' = cur nkq s" by (simp add: cu c_def)
        show "is_old s' j = is_old s j" by (rule io)
        show "waiting s' \<Longrightarrow> waiting s" using nw by simp
        show "kq_qstate (s_q s ! j) = KQINIT \<Longrightarrow> s_cons s' = CInit"
          using no_INIT_after_init [OF inv nI j] by simp
      qed
    qed
    show "s_q s' ! k = s_q s ! k \<and> qstart nkq s' k = qstart nkq s k"
      if k: "k < nat nkq" "kq_qstate (s_q s ! k) = KQFILLING" for k
    proof -
      have "k \<noteq> c" using k(2) fullc by auto
      then show ?thesis using qs by (simp add: fr(1))
    qed
  qed
qed

lemma step_CMark:
  assumes inv: "ring_inv E key iv nkq s" and loc: "s_cons s = CMark src len dest r oldq"
    and s': "s' = s\<lparr>s_q := (s_q s)[nat oldq := (s_q s ! nat oldq)\<lparr>kq_qstate := KQEMPTY\<rparr>],
                    s_cons := CLoop src len dest r\<rparr>"
  shows "ring_inv E key iv nkq s'"
proof -
  note D = ring_invD [OF inv]
  define N where "N = nat nkq"
  define c where "c = cur nkq s"
  define ol where "ol = nat oldq"
  have N2: "2 \<le> N" using D(1) by (simp add: N_def)
  have cN: "c < N" using D(1) by (simp add: c_def N_def cur_def)
  have ar: "at_rollover nkq s r oldq" and dc: "kq_qstate (s_q s ! c) = KQDRAINING"
    using D(5) loc by (simp_all add: cinv_def c_def)
  have oq: "oldq = int ((c + N - 1) mod N)" "kq_qstate (s_q s ! ol) = KQDRAINING"
    "r = 0" "s_consumed s mod KQLEN = 0"
    using ar by (auto simp: at_rollover_def c_def N_def ol_def)
  have no: "ol = (c + N - 1) mod N" using oq(1) by (simp add: ol_def)
  have oi: "oldq = int ol" using oq(1) no by simp
  have oc: "ol \<noteq> c" unfolding no by (rule old_index_neq [OF N2 cN])
  have oN: "ol < N" unfolding no using N2 by simp
  have ol: "ol < length (s_q s)" using oN D(3) by (simp add: N_def)
  have fr: "s_q s' = (s_q s)[ol := (s_q s ! ol)\<lparr>kq_qstate := KQEMPTY\<rparr>]"
    "s_prods s' = s_prods s" "s_consumed s' = s_consumed s"
    "s_qidx s' = s_qidx s" "s_cons s' = CLoop src len dest r" "s_ridx s' = s_ridx s"
    by (simp_all add: s' ol_def)
  have cu: "cur nkq s' = c" unfolding c_def by (rule cur_frame [OF fr(3)])
  have qs: "qstart nkq s' j = qstart nkq s j" for j by (rule qstart_frame [OF fr(3)])
  have nw: "\<not> waiting s'" by (simp add: waiting_def fr(5))
  have nI: "s_cons s \<noteq> CInit" using loc by simp
  show ?thesis
  proof (rule cons_update_inv [OF inv])
    show "s_prods s' = s_prods s" "length (s_q s') = length (s_q s)" by (simp_all add: fr)
    show "cinv nkq s'"
    proof -
      have "kq_qstate (s_q s' ! cur nkq s') = KQDRAINING"
        unfolding cu fr(1) using oc dc by simp
      moreover have "s_qidx s' = int (cur nkq s')"
        using D(5) by (simp add: cinv_def fr(4) cu c_def)
      moreover have "r = int (s_consumed s' mod KQLEN)" using oq(3,4) by (simp add: fr(3))
      ultimately show ?thesis unfolding cinv_def by (simp add: fr(5))
    qed
    show "qinv E key iv nkq s' j" if j: "j < nat nkq" for j
    proof (cases "j = ol")
      case True
      note L = qinv_lengths [OF D(6) [OF j]]
      have io: "is_old s ol" by (simp add: is_old_def loc oi)
      have Q: "kq_ctr (s_q s ! ol) = ctr_plus iv (qstart nkq s ol)"
        using qinv_DRAINING [OF D(6) [OF j]] oq(2) io True by simp
      show ?thesis
        unfolding qinv_def Let_def True fr(1) qs
        using L Q ol True by simp
    next
      case False
      show ?thesis
      proof (rule qinv_cong [OF D(6) [OF j]])
        show "s_q s' ! j = s_q s ! j" using False by (simp add: fr(1))
        show "qstart nkq s' j = qstart nkq s j" by (rule qs)
        show "cur nkq s' = cur nkq s" by (simp add: cu c_def)
        show "is_old s' j = is_old s j" using False by (simp add: is_old_def fr(5) loc oi)
        show "waiting s' \<Longrightarrow> waiting s" using nw by simp
        show "kq_qstate (s_q s ! j) = KQINIT \<Longrightarrow> s_cons s' = CInit"
          using no_INIT_after_init [OF inv nI j] by simp
      qed
    qed
    show "s_q s' ! k = s_q s ! k \<and> qstart nkq s' k = qstart nkq s k"
      if k: "k < nat nkq" "kq_qstate (s_q s ! k) = KQFILLING" for k
    proof -
      have "k \<noteq> ol" using k(2) oq(2) by auto
      then show ?thesis using qs by (simp add: fr(1))
    qed
  qed
qed

subsection \<open>The invariant holds in every reachable state\<close>

lemma cons_step_inv:
  assumes inv: "ring_inv E key iv nkq s" and step: "cons_step L nkq s = Some s'"
  shows "ring_inv E key iv nkq s'"
proof (cases "s_cons s")
  case CInit
  from step_CInit [OF inv CInit step] show ?thesis .
next
  case CIdle
  then show ?thesis using step by (simp add: cons_step_def)
next
  case (CReturned rv dest)
  then show ?thesis using step by (simp add: cons_step_def)
next
  case (CLoop src len dest r)
  let ?r' = "(r + 1) mod int KQLEN"
  let ?s1 = "s\<lparr>s_consumed := s_consumed s + 1\<rparr>"
  let ?dest = "(xor_one_block L dest src (l_keys_addr L (s_qidx s) + AES_BLOCK_SIZE * nat r)
      (kq_keys (s_q s ! nat (s_qidx s)) ! nat r))\<lparr>b_ptr := b_ptr dest + AES_BLOCK_SIZE\<rparr>"
  let ?src = "src\<lparr>b_ptr := b_ptr src + AES_BLOCK_SIZE\<rparr>"
  show ?thesis
  proof (cases "?r' = 0")
    case True
    then have s': "s' = s\<lparr>s_consumed := s_consumed s + 1, s_qidx := (s_qidx s + 1) mod nkq,
        s_cons := CWait ?src len ?dest 0 (s_qidx s)\<rparr>"
      using step CLoop by (simp add: cons_step_def Let_def)
    from step_CLoop_roll [OF inv CLoop True s'] show ?thesis .
  next
    case False
    then have s': "s' = loop_test ?src len ?dest ?r' ?s1"
      using step CLoop by (simp add: cons_step_def Let_def)
    have "ring_inv E key iv nkq (?s1\<lparr>s_cons := CLoop src len dest ?r'\<rparr>)"
      using step_CLoop_stay [OF inv CLoop False, of src len dest] by simp
    from loop_test_inv [OF this] show ?thesis unfolding s' .
  qed
next
  case (CWait src len dest r oldq)
  from step CWait have full: "kq_qstate (s_q s ! nat (s_qidx s)) = KQFULL"
    and s': "s' = s\<lparr>s_q := (s_q s)[nat (s_qidx s) :=
                          (s_q s ! nat (s_qidx s))\<lparr>kq_qstate := KQDRAINING\<rparr>],
                    s_cons := CMark src len dest r oldq\<rparr>"
    by (auto simp: cons_step_def Let_def split: if_splits)
  from step_CWait [OF inv CWait full s'] show ?thesis .
next
  case (CMark src len dest r oldq)
  let ?s1 = "s\<lparr>s_q := (s_q s)[nat oldq := (s_q s ! nat oldq)\<lparr>kq_qstate := KQEMPTY\<rparr>]\<rparr>"
  have s': "s' = loop_test src len dest r ?s1"
    using step CMark by (simp add: cons_step_def)
  have "ring_inv E key iv nkq (?s1\<lparr>s_cons := CLoop src len dest r\<rparr>)"
    by (rule step_CMark [OF inv CMark]) simp
  from loop_test_inv [OF this] show ?thesis unfolding s' .
qed

lemma step_inv:
  assumes "step L E nkq s s'" "ring_inv E key iv nkq s"
  shows "ring_inv E key iv nkq s'"
  using assms(1)
proof (cases rule: step.cases)
  case (prod_acts i p' qs')
  from prod_step_inv [OF assms(2) prod_acts(2,3)] show ?thesis unfolding prod_acts(1) .
next
  case cons_acts
  from cons_step_inv [OF assms(2) this] show ?thesis .
qed

lemma run_inv:
  assumes "run L E nkq s s'" "ring_inv E key iv nkq s"
  shows "ring_inv E key iv nkq s'"
  using assms
proof (induction rule: run.induct)
  case (run_nil s)
  then show ?case by simp
next
  case (run_snoc s s' s'')
  then have "ring_inv E key iv nkq s'" by simp
  from step_inv [OF run_snoc.hyps(2) this] show ?case .
qed

lemma reachable_inv:
  assumes "reachable L E nkq s0 s" "ring_inv E key iv nkq s0"
  shows "ring_inv E key iv nkq s"
  using assms
proof (induction rule: reachable.induct)
  case reach_init
  then show ?case by simp
next
  case (reach_step s s')
  then have "ring_inv E key iv nkq s" by simp
  from step_inv [OF reach_step.hyps(2) this] show ?case .
next
  case (reach_call s src len)
  then have "ring_inv E key iv nkq s" by simp
  from enter_inv [OF this reach_call.hyps(2)] show ?case .
qed

subsection \<open>The initial state\<close>

lemma ring_off_0: "j < n \<Longrightarrow> ring_off n 0 j = j"
  by (simp add: ring_off_def)

lemma sys_init_fields [simp]:
  "s_q (sys_init c key n) = c_q c"
  "s_qidx (sys_init c key n) = c_qidx c"
  "s_ridx (sys_init c key n) = c_ridx c"
  "s_cons (sys_init c key n) = CInit"
  "s_consumed (sys_init c key n) = 0"
  "length (s_prods (sys_init c key n)) = n"
  by (simp_all add: sys_init_def)

lemma sys_init_prod:
  "i < n \<Longrightarrow> p_loc (s_prods (sys_init c key n) ! i) = PStart \<and>
     evp_key (p_evp (s_prods (sys_init c key n) ! i)) = key"
  by (simp add: sys_init_def EVP_EncryptInit_key_def)

lemma init_inv:
  assumes len: "length (c_q c) = nat MAX_NUMKQ" and ivl: "length (c_aes_counter c) = 16"
    and n2: "2 \<le> nkq" and nmax: "nkq \<le> MAX_NUMKQ"
    and keys: "\<And>j. j < nat nkq \<Longrightarrow> length (kq_keys (c_q c ! j)) = KQLEN"
  shows "ring_inv E key (c_aes_counter c) nkq (sys_init (seed_ring nkq c) key n)"
proof (rule ring_invI)
  let ?iv = "c_aes_counter c"
  let ?s = "sys_init (seed_ring nkq c) key n"
  have n1: "1 \<le> nkq" using n2 by simp
  note P = seed_ring_props [OF len ivl n1 nmax]
  have rn: "rnd ?s = 0" by (simp add: rnd_def)
  have cu: "cur nkq ?s = 0" by (simp add: cur_def rn)
  have qs: "qstart nkq ?s j = j * KQLEN" if "j < nat nkq" for j
    using that by (simp add: qstart_def rn cu ring_off_0)
  show "2 \<le> nkq" "nkq \<le> MAX_NUMKQ" "length ?iv = 16" by (rule n2 nmax ivl)+
  show "nat nkq \<le> length (s_q ?s)" using P(4) len nmax by simp
  show "cinv nkq ?s"
    unfolding cinv_def using P(1) P(5) P(6) by (simp add: cu)
  show "owners_distinct (s_prods ?s)"
    unfolding owners_distinct_def using sys_init_prod [of _ n "seed_ring nkq c" key]
    by (simp add: owns_def)
  show "pinv E key ?iv nkq ?s (s_prods ?s ! i)" if "i < length (s_prods ?s)" for i
  proof -
    from that have "i < n" by simp
    from sys_init_prod [OF this, of "seed_ring nkq c" key]
    show ?thesis by (simp add: pinv_def)
  qed
  show "qinv E key ?iv nkq ?s j" if j: "j < nat nkq" for j
  proof (cases "j = 0")
    case True
    show ?thesis
      unfolding qinv_def Let_def qs [OF j] using True P(1) keys [OF j] ivl by simp
  next
    case False
    then have j1: "1 \<le> j" by simp
    have jn: "int j < nkq" using j by simp
    show ?thesis
      unfolding qinv_def Let_def qs [OF j] using P(2) [OF j1 jn] keys [OF j] ivl by simp
  qed
qed

subsection \<open>The reference and the keystream in the ring\<close>

lemma map2_xor_zero:
  "map2 (XOR) e (replicate n (0::u8)) = take n e"
proof (induction e arbitrary: n)
  case Nil
  then show ?case by simp
next
  case (Cons a e)
  then show ?case by (cases n) simp_all
qed

lemma xor_block_mynull: "xor_block e mynull = take 16 e"
  by (simp add: xor_block_def mynull_def AES_BLOCK_SIZE_def map2_xor_zero)

lemma zip_take_right:
  assumes "length a \<le> n"
  shows "zip a (take n e) = zip a e"
proof -
  have "zip (take n a) (take n e) = take n (zip a e)" by (simp add: take_zip)
  moreover have "take n a = a" using assms by simp
  moreover have "take n (zip a e) = zip a e" using assms by simp
  ultimately show ?thesis by simp
qed

lemma xor_block_kblock:
  assumes "length a \<le> 16"
  shows "xor_block a (kblock E key iv b) = xor_block a (keystream_block E key iv b)"
  unfolding kblock_def keystream_block_def xor_block_mynull
  by (simp add: xor_block_def zip_take_right [OF assms])

lemma ctr_crypt_Nil [simp]: "ctr_crypt E key iv n [] = []"
  by (simp add: ctr_crypt.simps)

lemma ctr_crypt_block:
  assumes "b \<noteq> []" "length b \<le> 16"
  shows "ctr_crypt E key iv n b = xor_block b (keystream_block E key iv n)"
  using assms by (subst ctr_crypt.simps) simp

lemma ctr_crypt_append:
  "length a = 16 * k \<Longrightarrow>
     ctr_crypt E key iv n (a @ b) = ctr_crypt E key iv n a @ ctr_crypt E key iv (n + k) b"
proof (induction k arbitrary: a n)
  case 0
  then show ?case by simp
next
  case (Suc k)
  then have ne: "a \<noteq> []" and la: "16 \<le> length a" by auto
  have ld: "length (drop 16 a) = 16 * k" using Suc.prems by simp
  have L: "ctr_crypt E key iv n (a @ b) =
      xor_block (take 16 a) (keystream_block E key iv n) @
      ctr_crypt E key iv (n + 1) (drop 16 a @ b)"
    using ne la by (subst ctr_crypt.simps) simp
  have R: "ctr_crypt E key iv n a =
      xor_block (take 16 a) (keystream_block E key iv n) @
      ctr_crypt E key iv (n + 1) (drop 16 a)"
    using ne by (subst ctr_crypt.simps) simp
  show ?case unfolding L R Suc.IH [OF ld] by simp
qed

lemma data_next:
  assumes len: "length msg = 16 * m" and k: "k < m"
    and dest: "dest = ctr_crypt E key iv p0 (take (16 * k) msg)"
    and src: "src = drop (16 * k) msg"
  shows "dest @ xor_block (take AES_BLOCK_SIZE src) (kblock E key iv (p0 + k))
           = ctr_crypt E key iv p0 (take (16 * (k + 1)) msg)"
    and "drop AES_BLOCK_SIZE src = drop (16 * (k + 1)) msg"
proof -
  let ?a = "take (16 * k) msg"
  let ?b = "take 16 src"
  have la: "length ?a = 16 * k" using len k by simp
  have lb: "length ?b = 16" using len k by (simp add: src)
  then have ne: "?b \<noteq> []" by auto
  have "16 * (k + 1) = 16 * k + 16" by simp
  then have "take (16 * (k + 1)) msg = take (16 * k + 16) msg" by (simp only:)
  also have "\<dots> = ?a @ ?b" unfolding src by (rule take_add)
  finally have "take (16 * (k + 1)) msg = ?a @ ?b" .
  then have "ctr_crypt E key iv p0 (take (16 * (k + 1)) msg)
      = ctr_crypt E key iv p0 ?a @ ctr_crypt E key iv (p0 + k) ?b"
    by (simp only: ctr_crypt_append [OF la])
  also have "ctr_crypt E key iv (p0 + k) ?b = xor_block ?b (keystream_block E key iv (p0 + k))"
    using ne lb by (intro ctr_crypt_block) simp_all
  also have "\<dots> = xor_block ?b (kblock E key iv (p0 + k))"
    using lb by (intro xor_block_kblock [symmetric]) simp
  finally show "dest @ xor_block (take AES_BLOCK_SIZE src) (kblock E key iv (p0 + k))
           = ctr_crypt E key iv p0 (take (16 * (k + 1)) msg)"
    by (simp add: dest AES_BLOCK_SIZE_def)
  show "drop AES_BLOCK_SIZE src = drop (16 * (k + 1)) msg"
    by (simp add: src AES_BLOCK_SIZE_def add.commute)
qed

lemma full_keys_nth: "i < KQLEN \<Longrightarrow> full_keys E key iv st ! i = kblock E key iv (st + i)"
  by (simp add: full_keys_def)

lemma consumer_key:
  assumes inv: "ring_inv E key iv nkq s" and loc: "s_cons s = CLoop src len dest r"
  shows "kq_keys (s_q s ! nat (s_qidx s)) ! nat r = kblock E key iv (s_consumed s)"
proof -
  note D = ring_invD [OF inv]
  have ci: "kq_qstate (s_q s ! cur nkq s) = KQDRAINING" "r = int (s_consumed s mod KQLEN)"
    "s_qidx s = int (cur nkq s)"
    using D(5) loc by (auto simp: cinv_def)
  have cN: "cur nkq s < nat nkq" using D(1) by (simp add: cur_def)
  have old: "\<not> is_old s (cur nkq s)" by (simp add: is_old_def loc)
  have "kq_keys (s_q s ! cur nkq s) = full_keys E key iv (qstart nkq s (cur nkq s))"
    using qinv_DRAINING [OF D(6) [OF cN] ci(1)] old by simp
  then have "kq_keys (s_q s ! cur nkq s) = full_keys E key iv (rnd s * KQLEN)"
    by (simp only: qstart_cur [OF D(1)])
  moreover have "s_consumed s mod KQLEN < KQLEN" by simp
  moreover have "rnd s * KQLEN + s_consumed s mod KQLEN = s_consumed s"
    by (simp add: rnd_def)
  ultimately show ?thesis
    by (simp add: ci(2,3) full_keys_nth)
qed

subsection \<open>The branches of the XOR\<close>

lemma and_3_mod: "(a::nat) AND 3 = a mod 4"
proof -
  have "a AND mask 2 = take_bit 2 a" by (simp add: take_bit_eq_mask)
  then show ?thesis by (simp add: take_bit_eq_mod mask_eq_exp_minus_1)
qed

lemma and_7_mod: "(a::nat) AND 7 = a mod 8"
proof -
  have "a AND mask 3 = take_bit 3 a" by (simp add: take_bit_eq_mask)
  then show ?thesis by (simp add: take_bit_eq_mod mask_eq_exp_minus_1)
qed

lemma and_15_mod: "(a::nat) AND 15 = a mod 16"
proof -
  have "a AND mask 4 = take_bit 4 a" by (simp add: take_bit_eq_mask)
  then show ?thesis by (simp add: take_bit_eq_mod mask_eq_exp_minus_1)
qed

lemma or3_mod4:
  fixes a b c :: nat
  shows "(a OR b OR c) mod 4 = 0 \<longleftrightarrow> 4 dvd a \<and> 4 dvd b \<and> 4 dvd c"
proof -
  have "(a OR b OR c) mod 4 = take_bit 2 (a OR b OR c)" by (simp add: take_bit_eq_mod)
  also have "\<dots> = take_bit 2 a OR take_bit 2 b OR take_bit 2 c" by simp
  finally have "(a OR b OR c) mod 4 = 0 \<longleftrightarrow>
      take_bit 2 a = 0 \<and> take_bit 2 b = 0 \<and> take_bit 2 c = 0"
    by (simp only: or_eq_0_iff)
  then show ?thesis by (simp add: take_bit_eq_mod dvd_eq_mod_eq_0)
qed

lemma mod4_of_mod8: "(x::nat) mod 4 \<noteq> 0 \<Longrightarrow> x mod 8 \<noteq> 0"
  by presburger

lemma mod4_of_mod16: "(x::nat) mod 4 \<noteq> 0 \<Longrightarrow> x mod 16 \<noteq> 0"
  by presburger

lemma xor_one_block_word:
  assumes "l_unaligned_ok L \<or> (4 dvd b_ptr dest \<and> 4 dvd b_ptr src \<and> 4 dvd bufp)"
  shows "xor_one_block L dest src bufp buf =
           write_block dest (b_ptr dest) (xor_block (read_block src (b_ptr src)) buf)"
proof (cases "l_unaligned_ok L")
  case True
  then show ?thesis by (simp add: xor_one_block_def)
next
  case False
  then have "(b_ptr dest OR b_ptr src OR bufp) mod 4 = 0"
    using assms by (simp only: or3_mod4) simp
  then have "(b_ptr dest OR b_ptr src OR bufp) AND 3 = 0" by (simp only: and_3_mod)
  then show ?thesis using False by (simp add: xor_one_block_def Let_def)
qed

lemma xor_one_block_byte:
  assumes "\<not> l_unaligned_ok L" "\<not> (4 dvd b_ptr dest \<and> 4 dvd b_ptr src \<and> 4 dvd bufp)"
  shows "xor_one_block L dest src bufp buf =
           write_block dest (b_base dest) (xor_block (read_block src (b_base src)) buf)"
proof -
  let ?a = "b_ptr dest OR b_ptr src OR bufp"
  have m4: "?a mod 4 \<noteq> 0" using assms(2) by (simp only: or3_mod4) simp
  have "?a mod 8 \<noteq> 0" "?a mod 16 \<noteq> 0"
    by (rule mod4_of_mod8 [OF m4], rule mod4_of_mod16 [OF m4])
  then have "?a AND 3 \<noteq> 0" "?a AND 7 \<noteq> 0" "?a AND 15 \<noteq> 0"
    using m4 by (simp_all add: and_3_mod and_7_mod and_15_mod)
  then show ?thesis using assms(1) by (simp add: xor_one_block_def Let_def)
qed

subsection \<open>The data of one call on the word branches\<close>

lemma kblock_length:
  assumes "\<And>b. length b = 16 \<Longrightarrow> length (E key b) = 16" "length iv = 16"
  shows "length (kblock E key iv n) = 16"
  using assms(1) [of "ctr_plus iv n"] assms(2)
  by (simp add: kblock_def xor_block_mynull)

lemma data_after_frame:
  "s_consumed s' = s_consumed s \<Longrightarrow>
     data_after E key iv p0 sb db msg k src dest s' = data_after E key iv p0 sb db msg k src dest s"
  by (simp add: data_after_def)

lemma data_inv_frame:
  assumes "s_cons s' = s_cons s" "s_consumed s' = s_consumed s"
  shows "data_inv E key iv p0 sb db msg m s' = data_inv E key iv p0 sb db msg m s"
  unfolding data_inv_def data_after_def assms ..

lemma loop_test_consumed [simp]: "s_consumed (loop_test src len dest r s) = s_consumed s"
  by (simp add: loop_test_def)

lemma data_word_next:
  assumes len: "length msg = 16 * m" and k: "k < m"
    and da: "data_after E key iv p0 sb db msg k src dest s"
    and bl: "length (kblock E key iv (p0 + k)) = 16"
  shows "data_after E key iv p0 sb db msg (k + 1)
           (src\<lparr>b_ptr := b_ptr src + AES_BLOCK_SIZE\<rparr>)
           ((write_block dest (b_ptr dest)
               (xor_block (read_block src (b_ptr src)) (kblock E key iv (p0 + k))))
              \<lparr>b_ptr := b_ptr dest + AES_BLOCK_SIZE\<rparr>)
           (s\<lparr>s_consumed := s_consumed s + 1\<rparr>)"
proof -
  have d: "b_base src = sb" "b_base dest = db" "b_mem src = msg"
    "b_ptr src = sb + 16 * k" "b_ptr dest = db + 16 * k" "length (b_mem dest) = length msg"
    "take (16 * k) (b_mem dest) = ctr_crypt E key iv p0 (take (16 * k) msg)"
    "s_consumed s = p0 + k"
    using da by (simp_all add: data_after_def)
  let ?mem = "b_mem dest"
  let ?blk = "take AES_BLOCK_SIZE (drop (16 * k) msg)"
  let ?X = "xor_block ?blk (kblock E key iv (p0 + k))"
  have rb: "read_block src (b_ptr src) = ?blk"
    by (simp add: read_block_def d)
  have lblk: "length ?blk = 16" using len k by (simp add: AES_BLOCK_SIZE_def)
  have lX: "length ?X = 16" using lblk bl by (simp add: xor_block_def)
  have lA: "length (take (16 * k) ?mem) = 16 * k" using d(6) len k by simp
  have wb: "b_mem (write_block dest (b_ptr dest) ?X) =
      take (16 * k) ?mem @ ?X @ drop (16 * k + 16) ?mem"
    by (simp add: write_block_def d AES_BLOCK_SIZE_def)
  have N: "take (16 * k) ?mem @ ?X = ctr_crypt E key iv p0 (take (16 * (k + 1)) msg)"
    unfolding d(7) by (rule data_next(1) [OF len k refl refl])
  have "take (16 * (k + 1)) (take (16 * k) ?mem @ ?X @ drop (16 * k + 16) ?mem) =
      take (16 * k) ?mem @ ?X"
    using lA lX by simp
  then have T: "take (16 * (k + 1)) (b_mem (write_block dest (b_ptr dest) ?X)) =
      ctr_crypt E key iv p0 (take (16 * (k + 1)) msg)"
    unfolding wb N [symmetric] .
  have L: "length (b_mem (write_block dest (b_ptr dest) ?X)) = length msg"
    unfolding wb using lA lX d(6) len k by simp
  have B: "b_base (write_block dest (b_ptr dest) ?X) = db"
    by (simp add: write_block_def d)
  show ?thesis
    unfolding data_after_def rb
    using T L B d(1,3,4,5,8) by (simp add: AES_BLOCK_SIZE_def)
qed

lemma loop_test_data_inv:
  assumes k: "k < m" and m: "16 * m < (2::nat) ^ 64" and len: "length msg = 16 * m"
    and da: "data_after E key iv p0 sb db msg (k + 1) src dest s"
  shows "data_inv E key iv p0 sb db msg m (loop_test src (16 * (m - k)) dest r s)"
proof (cases "k + 1 < m")
  case True
  then have nz: "len_minus_block (16 * (m - k)) \<noteq> 0"
    using len_minus_block_eq [OF k m] by simp
  let ?s' = "s\<lparr>s_cons := CLoop src (len_minus_block (16 * (m - k))) dest r\<rparr>"
  have da': "data_after E key iv p0 sb db msg (k + 1) src dest ?s'"
    using da by (simp add: data_after_def)
  have "\<exists>k'<m. len_minus_block (16 * (m - k)) = 16 * (m - k') \<and>
      data_after E key iv p0 sb db msg k' src dest ?s'"
    using True da' len_minus_block_eq [OF k m] by (intro exI [of _ "k + 1"]) simp
  then show ?thesis using nz by (simp add: loop_test_def data_inv_def)
next
  case False
  then have mk: "m = k + 1" using k by simp
  then have z: "len_minus_block (16 * (m - k)) = 0"
    using len_minus_block_eq [OF k m] by simp
  have t: "take (16 * (k + 1)) msg = msg" using len mk by simp
  have "length (b_mem dest) = length msg"
    "take (16 * (k + 1)) (b_mem dest) = ctr_crypt E key iv p0 (take (16 * (k + 1)) msg)"
    "s_consumed s = p0 + (k + 1)"
    using da by (simp_all add: data_after_def)
  then have "b_mem dest = ctr_crypt E key iv p0 msg" "s_consumed s = p0 + m"
    using len mk t by simp_all
  then show ?thesis using z by (simp add: loop_test_def data_inv_def)
qed

subsection \<open>The word branches keep the data invariant\<close>

lemma word_path_step:
  assumes wp: "word_path L nkq sb db" and inv: "ring_inv E key iv nkq s"
    and p: "b_ptr src = sb + 16 * k" "b_ptr dest = db + 16 * k"
  shows "l_unaligned_ok L \<or>
     (4 dvd b_ptr dest \<and> 4 dvd b_ptr src \<and>
      4 dvd (l_keys_addr L (s_qidx s) + AES_BLOCK_SIZE * nat r))"
proof (cases "l_unaligned_ok L")
  case True
  then show ?thesis by simp
next
  case False
  then have a: "4 dvd sb" "4 dvd db" "\<And>j. j < nat nkq \<Longrightarrow> 4 dvd l_keys_addr L (int j)"
    using wp by (simp_all add: word_path_def)
  note D = ring_invD [OF inv]
  have q: "s_qidx s = int (cur nkq s)" using D(5) by (simp add: cinv_def)
  have "cur nkq s < nat nkq" using D(1) by (simp add: cur_def)
  from a(3) [OF this] have "4 dvd l_keys_addr L (s_qidx s)" by (simp add: q)
  moreover have "(4::nat) dvd AES_BLOCK_SIZE * nat r" by (simp add: AES_BLOCK_SIZE_def)
  ultimately have "4 dvd (l_keys_addr L (s_qidx s) + AES_BLOCK_SIZE * nat r)"
    by (rule dvd_add)
  moreover have "4 dvd b_ptr dest" "4 dvd b_ptr src" using a(1,2) by (simp_all add: p)
  ultimately show ?thesis by simp
qed

lemma cons_step_data_inv:
  assumes inv: "ring_inv E key iv nkq s" and di: "data_inv E key iv p0 sb db msg m s"
    and m: "16 * m < (2::nat) ^ 64" and len: "length msg = 16 * m"
    and wp: "word_path L nkq sb db"
    and blk: "\<And>b. length b = 16 \<Longrightarrow> length (E key b) = 16"
    and step: "cons_step L nkq s = Some s'"
  shows "data_inv E key iv p0 sb db msg m s'"
proof (cases "s_cons s")
  case CInit
  then show ?thesis using di by (simp add: data_inv_def)
next
  case CIdle
  then show ?thesis using di by (simp add: data_inv_def)
next
  case (CReturned rv out)
  then show ?thesis using step by (simp add: cons_step_def)
next
  case (CLoop src len' dest r)
  with di obtain k where k: "k < m" "len' = 16 * (m - k)"
      "data_after E key iv p0 sb db msg k src dest s"
    by (auto simp: data_inv_def)
  have d: "b_ptr src = sb + 16 * k" "b_ptr dest = db + 16 * k" "s_consumed s = p0 + k"
    using k(3) by (simp_all add: data_after_def)
  let ?r' = "(r + 1) mod int KQLEN"
  let ?s1 = "s\<lparr>s_consumed := s_consumed s + 1\<rparr>"
  let ?bufp = "l_keys_addr L (s_qidx s) + AES_BLOCK_SIZE * nat r"
  let ?buf = "kq_keys (s_q s ! nat (s_qidx s)) ! nat r"
  let ?dest = "(xor_one_block L dest src ?bufp ?buf)\<lparr>b_ptr := b_ptr dest + AES_BLOCK_SIZE\<rparr>"
  let ?src = "src\<lparr>b_ptr := b_ptr src + AES_BLOCK_SIZE\<rparr>"
  have buf: "?buf = kblock E key iv (p0 + k)"
    using consumer_key [OF inv CLoop] by (simp add: d(3))
  have bl: "length (kblock E key iv (p0 + k)) = 16"
    by (rule kblock_length [where E = E and key = key, OF blk ring_invD(4) [OF inv]])
  have x: "xor_one_block L dest src ?bufp ?buf =
      write_block dest (b_ptr dest) (xor_block (read_block src (b_ptr src)) (kblock E key iv (p0 + k)))"
    unfolding buf by (rule xor_one_block_word [OF word_path_step [OF wp inv d(1,2)]])
  have da1: "data_after E key iv p0 sb db msg (k + 1) ?src ?dest ?s1"
    unfolding x by (rule data_word_next [OF len k(1) k(3) bl])
  show ?thesis
  proof (cases "?r' = 0")
    case True
    then have s': "s' = ?s1\<lparr>s_qidx := (s_qidx s + 1) mod nkq,
        s_cons := CWait ?src len' ?dest ?r' (s_qidx s)\<rparr>"
      using step CLoop by (simp add: cons_step_def Let_def)
    have "data_after E key iv p0 sb db msg (k + 1) ?src ?dest s'"
      using da1 by (simp add: data_after_def s')
    then have "\<exists>k'<m. len' = 16 * (m - k') \<and>
        data_after E key iv p0 sb db msg (k' + 1) ?src ?dest s'"
      using k(1,2) by (intro exI [of _ k]) simp
    then show ?thesis by (simp add: data_inv_def s')
  next
    case False
    then have s': "s' = loop_test ?src len' ?dest ?r' ?s1"
      using step CLoop by (simp add: cons_step_def Let_def)
    from loop_test_data_inv [OF k(1) m len da1]
    show ?thesis unfolding s' k(2) .
  qed
next
  case (CWait src len' dest r oldq)
  with di obtain k where k: "k < m" "len' = 16 * (m - k)"
      "data_after E key iv p0 sb db msg (k + 1) src dest s"
    by (auto simp: data_inv_def)
  from step CWait have s':
    "s' = s\<lparr>s_q := (s_q s)[nat (s_qidx s) := (s_q s ! nat (s_qidx s))\<lparr>kq_qstate := KQDRAINING\<rparr>],
            s_cons := CMark src len' dest r oldq\<rparr>"
    by (auto simp: cons_step_def Let_def split: if_splits)
  have "data_after E key iv p0 sb db msg (k + 1) src dest s'"
    using k(3) by (simp add: data_after_def s')
  then have "\<exists>k'<m. len' = 16 * (m - k') \<and> data_after E key iv p0 sb db msg (k' + 1) src dest s'"
    using k(1,2) by (intro exI [of _ k]) simp
  then show ?thesis by (simp add: data_inv_def s')
next
  case (CMark src len' dest r oldq)
  with di obtain k where k: "k < m" "len' = 16 * (m - k)"
      "data_after E key iv p0 sb db msg (k + 1) src dest s"
    by (auto simp: data_inv_def)
  let ?s1 = "s\<lparr>s_q := (s_q s)[nat oldq := (s_q s ! nat oldq)\<lparr>kq_qstate := KQEMPTY\<rparr>]\<rparr>"
  have s': "s' = loop_test src len' dest r ?s1"
    using step CMark by (simp add: cons_step_def)
  have "data_after E key iv p0 sb db msg (k + 1) src dest ?s1"
    using k(3) by (simp add: data_after_def)
  from loop_test_data_inv [OF k(1) m len this]
  show ?thesis unfolding s' k(2) .
qed

lemma step_data_inv:
  assumes "step L E nkq s s'" "ring_inv E key iv nkq s" "data_inv E key iv p0 sb db msg m s"
    "16 * m < (2::nat) ^ 64" "length msg = 16 * m" "word_path L nkq sb db"
    "\<And>b. length b = 16 \<Longrightarrow> length (E key b) = 16"
  shows "data_inv E key iv p0 sb db msg m s'"
  using assms(1)
proof (cases rule: step.cases)
  case (prod_acts i p' qs')
  then have "data_inv E key iv p0 sb db msg m s' = data_inv E key iv p0 sb db msg m s"
    by (intro data_inv_frame) simp_all
  then show ?thesis using assms(3) by simp
next
  case cons_acts
  from cons_step_data_inv [OF assms(2-7) this] show ?thesis .
qed

lemma run_data_inv:
  assumes "run L E nkq s s'" "ring_inv E key iv nkq s" "data_inv E key iv p0 sb db msg m s"
    "16 * m < (2::nat) ^ 64" "length msg = 16 * m" "word_path L nkq sb db"
    "\<And>b. length b = 16 \<Longrightarrow> length (E key b) = 16"
  shows "data_inv E key iv p0 sb db msg m s'"
  using assms
proof (induction rule: run.induct)
  case (run_nil s)
  then show ?case by simp
next
  case (run_snoc s s' s'')
  have i: "ring_inv E key iv nkq s'" by (rule run_inv [OF run_snoc.hyps(1) run_snoc.prems(1)])
  have d: "data_inv E key iv p0 sb db msg m s'" using run_snoc by simp
  from step_data_inv [OF run_snoc.hyps(2) i d run_snoc.prems(3-6)] show ?case .
qed

lemma enter_data_inv:
  assumes "length (b_mem src) = 16 * m" "length (b_mem dest) = length (b_mem src)"
  shows "data_inv E key iv (s_consumed s) (b_base src) (b_base dest) (b_mem src) m
           (ssh_aes_ctr_enter dest src (16 * m) s)"
proof (cases "m = 0")
  case True
  then show ?thesis using assms by (simp add: ssh_aes_ctr_enter_def data_inv_def)
next
  case False
  let ?src = "src\<lparr>b_ptr := b_base src\<rparr>"
  let ?dest = "dest\<lparr>b_ptr := b_base dest\<rparr>"
  let ?s' = "s\<lparr>s_cons := CLoop ?src (16 * m) ?dest (s_ridx s)\<rparr>"
  have "data_after E key iv (s_consumed s) (b_base src) (b_base dest) (b_mem src) 0 ?src ?dest ?s'"
    using assms(2) by (simp add: data_after_def)
  then have "\<exists>k<m. 16 * m = 16 * (m - k) \<and>
      data_after E key iv (s_consumed s) (b_base src) (b_base dest) (b_mem src) k ?src ?dest ?s'"
    using False by (intro exI [of _ 0]) simp
  then show ?thesis using False by (simp add: ssh_aes_ctr_enter_def data_inv_def)
qed

lemma run_before_call:
  assumes "run L E nkq s s'" "s_cons s = CInit \<or> s_cons s = CIdle" "s_consumed s = 0"
  shows "(s_cons s' = CInit \<or> s_cons s' = CIdle) \<and> s_consumed s' = 0"
  using assms
proof (induction rule: run.induct)
  case (run_nil s)
  then show ?case by simp
next
  case (run_snoc s s' s'')
  then have a: "s_cons s' = CInit \<or> s_cons s' = CIdle" and b: "s_consumed s' = 0" by simp_all
  from run_snoc.hyps(2) show ?case
  proof (cases rule: step.cases)
    case (prod_acts i p' qs')
    then show ?thesis using a b by simp
  next
    case cons_acts
    then show ?thesis using a b by (auto simp: cons_step_def split: if_splits)
  qed
qed

subsection \<open>Short runs\<close>

lemma run_reachable:
  assumes "run L E nkq s0 s"
  shows "reachable L E nkq s0 s"
  using assms
proof (induction rule: run.induct)
  case (run_nil s)
  show ?case by (rule reach_init)
next
  case (run_snoc s s' s'')
  from reach_step [OF run_snoc.IH run_snoc.hyps(2)] show ?case .
qed

lemma thread_startup_not_INIT:
  "kq_qstate (snd (thread_startup E nkq ctx qu)) \<noteq> KQINIT"
  by (simp add: thread_startup_def split: prod.splits)

lemma first_fill_run:
  assumes n: "0 < n" and q: "0 < length (c_q c)"
  shows "\<exists>s. run L E nkq (sys_init c key n) s \<and> s_cons s = CIdle \<and>
              s_ridx s = c_ridx c \<and> s_consumed s = 0"
proof -
  let ?s0 = "sys_init c key n"
  let ?p = "s_prods ?s0 ! 0"
  obtain ctx' q0 where ts: "thread_startup E nkq (p_evp ?p) (s_q ?s0 ! 0) = (ctx', q0)"
    by (cases "thread_startup E nkq (p_evp ?p) (s_q ?s0 ! 0)")
  have "kq_qstate (snd (ctx', q0)) \<noteq> KQINIT"
    unfolding ts [symmetric] by (rule thread_startup_not_INIT)
  then have q0: "kq_qstate q0 \<noteq> KQINIT" by simp
  have p: "p_loc ?p = PStart" "p_first ?p" using n by (simp_all add: sys_init_def)
  have ps: "prod_step E nkq ?p (s_q ?s0) =
      Some (?p\<lparr>p_loc := PScan 1, p_evp := ctx'\<rparr>, (s_q ?s0)[0 := q0])"
    using p ts by (simp add: prod_step_def)
  let ?s1 = "?s0\<lparr>s_prods := (s_prods ?s0)[0 := ?p\<lparr>p_loc := PScan 1, p_evp := ctx'\<rparr>],
                  s_q := (s_q ?s0)[0 := q0]\<rparr>"
  have st1: "step L E nkq ?s0 ?s1"
    by (rule prod_acts [OF _ ps]) (simp add: n)
  have cs: "cons_step L nkq ?s1 = Some (?s1\<lparr>s_cons := CIdle\<rparr>)"
    using q0 q by (simp add: cons_step_def)
  have st2: "step L E nkq ?s1 (?s1\<lparr>s_cons := CIdle\<rparr>)" by (rule cons_acts [OF cs])
  have "run L E nkq ?s0 (?s1\<lparr>s_cons := CIdle\<rparr>)"
    by (rule run_snoc [OF run_snoc [OF run_nil st1] st2])
  then show ?thesis by (intro exI [of _ "?s1\<lparr>s_cons := CIdle\<rparr>"]) simp
qed

lemma one_block_run:
  assumes "(s_ridx s + 1) mod int KQLEN \<noteq> 0"
  shows "\<exists>s' out. run L E nkq (ssh_aes_ctr_enter dest src 16 s) s' \<and> s_cons s' = CReturned 1 out"
proof -
  let ?s = "ssh_aes_ctr_enter dest src 16 s"
  have z: "len_minus_block 16 = 0" by (simp add: len_minus_block_def AES_BLOCK_SIZE_def)
  have loc: "s_cons ?s = CLoop (src\<lparr>b_ptr := b_base src\<rparr>) 16 (dest\<lparr>b_ptr := b_base dest\<rparr>) (s_ridx s)"
    by (simp add: ssh_aes_ctr_enter_def)
  obtain s' where cs: "cons_step L nkq ?s = Some s'" and r: "\<exists>out. s_cons s' = CReturned 1 out"
    using assms z by (simp add: cons_step_def loc Let_def loop_test_def)
  have "run L E nkq ?s s'" by (rule run_snoc [OF run_nil cons_acts [OF cs]])
  then show ?thesis using r by blast
qed

subsection \<open>A producer can fill an empty queue\<close>

lemma run_trans:
  assumes "run L E nkq s1 s2" "run L E nkq s s1"
  shows "run L E nkq s s2"
  using assms
proof (induction rule: run.induct)
  case (run_nil s1)
  then show ?case by simp
next
  case (run_snoc s1 s2 s3)
  then have "run L E nkq s s2" by simp
  from run.run_snoc [OF this run_snoc.hyps(2)] show ?case .
qed

lemma run_step:
  assumes "step L E nkq s s1" "run L E nkq s1 s2"
  shows "run L E nkq s s2"
  by (rule run_trans [OF assms(2) run.run_snoc [OF run_nil assms(1)]])

lemma prod0_step:
  assumes "0 < length (s_prods s)"
    and "prod_step E nkq (s_prods s ! 0) (s_q s) = Some (p', qs')"
  shows "step L E nkq s (s\<lparr>s_prods := (s_prods s)[0 := p'], s_q := qs'\<rparr>)"
  by (rule prod_acts [OF assms])

lemma fill_slot_state [simp]: "kq_qstate (snd (fill_slot E i (ctx, qu))) = kq_qstate qu"
  by (simp add: fill_slot_def Let_def split: prod.splits)

lemma map_state_update_same:
  assumes "kq_qstate qu = kq_qstate (qs ! k)"
  shows "map kq_qstate (qs[k := qu]) = map kq_qstate qs"
proof (cases "k < length qs")
  case True
  then have "(map kq_qstate qs)[k := map kq_qstate qs ! k] = map kq_qstate qs"
    by (intro list_update_id)
  then show ?thesis using assms True by (simp add: map_update)
next
  case False
  then have "length qs \<le> k" by simp
  then have "qs[k := qu] = qs" by (rule list_update_beyond)
  then show ?thesis by (simp only:)
qed

lemma fill_loop_run:
  assumes "KQLEN - i = d" "0 < length (s_prods s)" "p_loc (s_prods s ! 0) = PFill k i"
    "i \<le> KQLEN"
  shows "\<exists>ps qs. run L E nkq s (s\<lparr>s_prods := ps, s_q := qs\<rparr>) \<and>
           length ps = length (s_prods s) \<and> p_loc (ps ! 0) = PFill k KQLEN \<and>
           map kq_qstate qs = map kq_qstate (s_q s)"
  using assms
proof (induction d arbitrary: s i)
  case 0
  then have i: "i = KQLEN" by simp
  have "s\<lparr>s_prods := s_prods s, s_q := s_q s\<rparr> = s" by simp
  then have "run L E nkq s (s\<lparr>s_prods := s_prods s, s_q := s_q s\<rparr>)" by (simp add: run_nil)
  then show ?case using 0 i by blast
next
  case (Suc d)
  then have i: "i < KQLEN" by simp
  let ?p = "s_prods s ! 0"
  obtain ctx' qu where fs: "fill_slot E i (p_evp ?p, s_q s ! nat k) = (ctx', qu)"
    by (cases "fill_slot E i (p_evp ?p, s_q s ! nat k)")
  have st: "kq_qstate qu = kq_qstate (s_q s ! nat k)"
    using fill_slot_state [of E i "p_evp ?p" "s_q s ! nat k"] by (simp add: fs)
  let ?p' = "?p\<lparr>p_loc := PFill k (i + 1), p_evp := ctx'\<rparr>"
  let ?qs' = "(s_q s)[nat k := qu]"
  let ?s1 = "s\<lparr>s_prods := (s_prods s)[0 := ?p'], s_q := ?qs'\<rparr>"
  have ps: "prod_step E nkq ?p (s_q s) = Some (?p', ?qs')"
    using Suc.prems(3) i fs by (simp add: prod_step_def)
  have s1: "step L E nkq s ?s1" by (rule prod0_step [OF Suc.prems(2) ps])
  have "\<exists>ps qs. run L E nkq ?s1 (?s1\<lparr>s_prods := ps, s_q := qs\<rparr>) \<and>
           length ps = length (s_prods ?s1) \<and> p_loc (ps ! 0) = PFill k KQLEN \<and>
           map kq_qstate qs = map kq_qstate (s_q ?s1)"
  proof (rule Suc.IH)
    show "KQLEN - (i + 1) = d" using Suc.prems(1) by simp
    show "0 < length (s_prods ?s1)" using Suc.prems(2) by simp
    show "p_loc (s_prods ?s1 ! 0) = PFill k (i + 1)" using Suc.prems(2) by simp
    show "i + 1 \<le> KQLEN" using i by simp
  qed
  then obtain ps qs where r: "run L E nkq ?s1 (?s1\<lparr>s_prods := ps, s_q := qs\<rparr>)"
      "length ps = length (s_prods ?s1)" "p_loc (ps ! 0) = PFill k KQLEN"
      "map kq_qstate qs = map kq_qstate (s_q ?s1)"
    by blast
  have e: "?s1\<lparr>s_prods := ps, s_q := qs\<rparr> = s\<lparr>s_prods := ps, s_q := qs\<rparr>" by simp
  have "run L E nkq s (s\<lparr>s_prods := ps, s_q := qs\<rparr>)"
    using run_step [OF s1 r(1)] unfolding e .
  moreover have "map kq_qstate qs = map kq_qstate (s_q s)"
    using r(4) map_state_update_same [OF st] by simp
  ultimately show ?case using r(2,3) by (intro exI [of _ ps] exI [of _ qs]) simp
qed

lemma fill_queue_run:
  assumes pr: "0 < length (s_prods s)" and loc: "p_loc (s_prods s ! 0) = PScan k"
    and k: "nat k < length (s_q s)"
    and st: "kq_qstate (s_q s ! nat k) = KQEMPTY"
  shows "\<exists>ps qs. run L E nkq s (s\<lparr>s_prods := ps, s_q := qs\<rparr>) \<and>
           length ps = length (s_prods s) \<and> p_loc (ps ! 0) = PScan ((k + 1) mod nkq) \<and>
           map kq_qstate qs = (map kq_qstate (s_q s))[nat k := KQFULL]"
proof -
  let ?p = "s_prods s ! 0"
  let ?qu = "s_q s ! nat k"
  \<comment> \<open>claim the queue\<close>
  let ?p1 = "?p\<lparr>p_loc := PClaimed k\<rparr>"
  let ?q1 = "(s_q s)[nat k := ?qu\<lparr>kq_qstate := KQFILLING\<rparr>]"
  let ?s1 = "s\<lparr>s_prods := (s_prods s)[0 := ?p1], s_q := ?q1\<rparr>"
  have "prod_step E nkq ?p (s_q s) = Some (?p1, ?q1)"
    using loc st by (simp add: prod_step_def Let_def)
  from prod0_step [OF pr this] have st1: "step L E nkq s ?s1" .
  \<comment> \<open>key the cipher context with the queue's counter\<close>
  let ?p2 = "?p1\<lparr>p_loc := PFill k 0, p_evp := EVP_EncryptInit_iv (p_evp ?p1) (kq_ctr (?q1 ! nat k))\<rparr>"
  let ?s2 = "?s1\<lparr>s_prods := (s_prods ?s1)[0 := ?p2], s_q := ?q1\<rparr>"
  have pr1: "0 < length (s_prods ?s1)" using pr by simp
  have "prod_step E nkq (s_prods ?s1 ! 0) (s_q ?s1) = Some (?p2, ?q1)"
    using pr by (simp add: prod_step_def)
  from prod0_step [OF pr1 this] have st2: "step L E nkq ?s1 ?s2" by simp
  \<comment> \<open>the fill loop\<close>
  have "\<exists>ps qs. run L E nkq ?s2 (?s2\<lparr>s_prods := ps, s_q := qs\<rparr>) \<and>
           length ps = length (s_prods ?s2) \<and> p_loc (ps ! 0) = PFill k KQLEN \<and>
           map kq_qstate qs = map kq_qstate (s_q ?s2)"
    by (rule fill_loop_run [OF refl, where i = 0]) (use pr in simp_all)
  then obtain ps qs where r: "run L E nkq ?s2 (?s2\<lparr>s_prods := ps, s_q := qs\<rparr>)"
      "length ps = length (s_prods s)" "p_loc (ps ! 0) = PFill k KQLEN"
      "map kq_qstate qs = map kq_qstate ?q1"
    by auto
  let ?s3 = "s\<lparr>s_prods := ps, s_q := qs\<rparr>"
  have e: "?s2\<lparr>s_prods := ps, s_q := qs\<rparr> = ?s3" by simp
  have r3: "run L E nkq s ?s3"
    using run_step [OF st1 run_step [OF st2 r(1)]] unfolding e .
  \<comment> \<open>the bulk add and \<open>KQFULL\<close>\<close>
  let ?p4 = "(ps ! 0)\<lparr>p_loc := PScan ((k + 1) mod nkq)\<rparr>"
  let ?q4 = "qs[nat k := (qs ! nat k)\<lparr>kq_ctr := ssh_ctr_add (kq_ctr (qs ! nat k)) (ring_advance nkq)
                                                  AES_BLOCK_SIZE,
                                      kq_qstate := KQFULL\<rparr>]"
  let ?s4 = "?s3\<lparr>s_prods := ps[0 := ?p4], s_q := ?q4\<rparr>"
  have pr3: "0 < length (s_prods ?s3)" using pr r(2) by simp
  have "prod_step E nkq (s_prods ?s3 ! 0) (s_q ?s3) = Some (?p4, ?q4)"
    using r(3) by (simp add: prod_step_def Let_def)
  from prod0_step [OF pr3 this] have st4: "step L E nkq ?s3 ?s4" by simp
  have e4: "?s4 = s\<lparr>s_prods := ps[0 := ?p4], s_q := ?q4\<rparr>" by simp
  have r4: "run L E nkq s (s\<lparr>s_prods := ps[0 := ?p4], s_q := ?q4\<rparr>)"
    using run_snoc [OF r3 st4] unfolding e4 .
  have "map kq_qstate ?q4 = (map kq_qstate qs)[nat k := KQFULL]"
    by (simp add: map_update)
  also have "\<dots> = (map kq_qstate (s_q s))[nat k := KQFULL]"
    unfolding r(4) by (simp add: map_update)
  finally have m: "map kq_qstate ?q4 = (map kq_qstate (s_q s))[nat k := KQFULL]" .
  have "length (ps[0 := ?p4]) = length (s_prods s)" "p_loc (ps[0 := ?p4] ! 0) = PScan ((k + 1) mod nkq)"
    using r(2) pr by simp_all
  with r4 m show ?thesis by blast
qed

subsection \<open>The first thread can fill the ring\<close>

lemma states_of_map:
  assumes "map kq_qstate qs = (map kq_qstate qs0)[k := v]"
  shows "length qs = length qs0"
    and "\<And>i. i < length qs0 \<Longrightarrow> kq_qstate (qs ! i) = (if i = k then v else kq_qstate (qs0 ! i))"
proof -
  have "length (map kq_qstate qs) = length ((map kq_qstate qs0)[k := v])"
    by (simp only: assms)
  then show l: "length qs = length qs0" by simp
  fix i assume i: "i < length qs0"
  then have "kq_qstate (qs ! i) = map kq_qstate qs ! i" using l by simp
  also have "\<dots> = (map kq_qstate qs0)[k := v] ! i" by (simp only: assms)
  also have "\<dots> = (if i = k then v else kq_qstate (qs0 ! i))"
    using i by (simp add: nth_list_update)
  finally show "kq_qstate (qs ! i) = (if i = k then v else kq_qstate (qs0 ! i))" .
qed

lemma fill_rest_run:
  assumes "nat nkq - j = d" "1 \<le> j" "j \<le> nat nkq" "2 \<le> nkq"
    "0 < length (s_prods s)" "nat nkq \<le> length (s_q s)"
    "p_loc (s_prods s ! 0) = PScan (int j mod nkq)"
    "\<forall>i<nat nkq. kq_qstate (s_q s ! i) =
        (if i = 0 then KQDRAINING else if i < j then KQFULL else KQEMPTY)"
  shows "\<exists>ps qs. run L E nkq s (s\<lparr>s_prods := ps, s_q := qs\<rparr>) \<and>
           length ps = length (s_prods s) \<and> length qs = length (s_q s) \<and>
           p_loc (ps ! 0) = PScan 0 \<and>
           (\<forall>i<nat nkq. kq_qstate (qs ! i) = (if i = 0 then KQDRAINING else KQFULL))"
  using assms
proof (induction d arbitrary: s j)
  case 0
  then have j: "j = nat nkq" by simp
  then have "int j mod nkq = 0" using 0(4) by simp
  then have loc: "p_loc (s_prods s ! 0) = PScan 0" using 0(7) by simp
  have st: "\<forall>i<nat nkq. kq_qstate (s_q s ! i) = (if i = 0 then KQDRAINING else KQFULL)"
    using 0(8) j by simp
  have "s\<lparr>s_prods := s_prods s, s_q := s_q s\<rparr> = s" by simp
  then have "run L E nkq s (s\<lparr>s_prods := s_prods s, s_q := s_q s\<rparr>)" by (simp add: run_nil)
  then show ?case using loc st by (intro exI [of _ "s_prods s"] exI [of _ "s_q s"]) simp
next
  case (Suc d)
  then have j: "j < nat nkq" by simp
  then have jm: "int j mod nkq = int j" by simp
  have loc: "p_loc (s_prods s ! 0) = PScan (int j)" using Suc.prems(7) jm by simp
  have jl: "nat (int j) < length (s_q s)" using j Suc.prems(6) by simp
  have em: "kq_qstate (s_q s ! nat (int j)) = KQEMPTY"
    using Suc.prems(8) j Suc.prems(2) by simp
  from fill_queue_run [OF Suc.prems(5) loc jl em, where L = L and E = E and nkq = nkq]
  obtain ps qs where r: "run L E nkq s (s\<lparr>s_prods := ps, s_q := qs\<rparr>)"
      "length ps = length (s_prods s)" "p_loc (ps ! 0) = PScan ((int j + 1) mod nkq)"
      "map kq_qstate qs = (map kq_qstate (s_q s))[j := KQFULL]"
    by auto
  note S = states_of_map [OF r(4)]
  let ?s1 = "s\<lparr>s_prods := ps, s_q := qs\<rparr>"
  have "\<exists>ps' qs'. run L E nkq ?s1 (?s1\<lparr>s_prods := ps', s_q := qs'\<rparr>) \<and>
           length ps' = length (s_prods ?s1) \<and> length qs' = length (s_q ?s1) \<and>
           p_loc (ps' ! 0) = PScan 0 \<and>
           (\<forall>i<nat nkq. kq_qstate (qs' ! i) = (if i = 0 then KQDRAINING else KQFULL))"
  proof (rule Suc.IH [where j = "j + 1"])
    show "nat nkq - (j + 1) = d" using Suc.prems(1) by simp
    show "1 \<le> j + 1" by simp
    show "j + 1 \<le> nat nkq" using j by simp
    show "2 \<le> nkq" by (rule Suc.prems(4))
    show "0 < length (s_prods ?s1)" using r(2) Suc.prems(5) by simp
    show "nat nkq \<le> length (s_q ?s1)" using S(1) Suc.prems(6) by simp
    show "p_loc (s_prods ?s1 ! 0) = PScan (int (j + 1) mod nkq)"
      using r(3) by (simp add: add.commute)
    show "\<forall>i<nat nkq. kq_qstate (s_q ?s1 ! i) =
        (if i = 0 then KQDRAINING else if i < j + 1 then KQFULL else KQEMPTY)"
    proof (intro allI impI)
      fix i assume i: "i < nat nkq"
      then have "i < length (s_q s)" using Suc.prems(6) by simp
      from S(2) [OF this] Suc.prems(8) i Suc.prems(2)
      show "kq_qstate (s_q ?s1 ! i) =
        (if i = 0 then KQDRAINING else if i < j + 1 then KQFULL else KQEMPTY)"
        by auto
    qed
  qed
  then obtain ps' qs' where r': "run L E nkq ?s1 (?s1\<lparr>s_prods := ps', s_q := qs'\<rparr>)"
      "length ps' = length ps" "length qs' = length qs" "p_loc (ps' ! 0) = PScan 0"
      "\<forall>i<nat nkq. kq_qstate (qs' ! i) = (if i = 0 then KQDRAINING else KQFULL)"
    by auto
  have e: "?s1\<lparr>s_prods := ps', s_q := qs'\<rparr> = s\<lparr>s_prods := ps', s_q := qs'\<rparr>" by simp
  have "run L E nkq s (s\<lparr>s_prods := ps', s_q := qs'\<rparr>)"
    using run_trans [OF r'(1) r(1)] unfolding e .
  then show ?case using r'(2-5) r(2) S(1)
    by (intro exI [of _ ps'] exI [of _ qs']) simp
qed

subsection \<open>Initialisation can return\<close>

lemma thread_startup_INIT:
  "kq_qstate qu = KQINIT \<Longrightarrow> kq_qstate (snd (thread_startup E nkq ctx qu)) = KQDRAINING"
  by (simp add: thread_startup_def split: prod.splits)

lemma init_canon_run:
  assumes len: "length (c_q c) = nat MAX_NUMKQ" and ivl: "length (c_aes_counter c) = 16"
    and n2: "2 \<le> nkq" and nmax: "nkq \<le> MAX_NUMKQ" and n: "0 < n"
  shows "\<exists>s. run L E nkq (sys_init (seed_ring nkq c) key n) s \<and> canon nkq s 0 \<and>
              s_cons s = CIdle \<and> s_ridx s = 0 \<and> s_consumed s = 0"
proof -
  let ?c = "seed_ring nkq c"
  let ?s0 = "sys_init ?c key n"
  let ?p = "s_prods ?s0 ! 0"
  have n1: "1 \<le> nkq" using n2 by simp
  note P = seed_ring_props [OF len ivl n1 nmax]
  have ql: "nat nkq \<le> length (s_q ?s0)" using P(4) len nmax by simp
  have q0i: "kq_qstate (s_q ?s0 ! 0) = KQINIT" using P(1) by simp
  have qj: "kq_qstate (s_q ?s0 ! j) = KQEMPTY" if "1 \<le> j" "j < nat nkq" for j
    using P(2) [of j] that by simp
  \<comment> \<open>the first thread fills queue 0\<close>
  obtain ctx' q0 where ts: "thread_startup E nkq (p_evp ?p) (s_q ?s0 ! 0) = (ctx', q0)"
    by (cases "thread_startup E nkq (p_evp ?p) (s_q ?s0 ! 0)")
  have "kq_qstate (snd (ctx', q0)) = KQDRAINING"
    unfolding ts [symmetric] by (rule thread_startup_INIT [OF q0i])
  then have q0: "kq_qstate q0 = KQDRAINING" by simp
  have p: "p_loc ?p = PStart" "p_first ?p" using n by (simp_all add: sys_init_def)
  let ?p1 = "?p\<lparr>p_loc := PScan 1, p_evp := ctx'\<rparr>"
  let ?s1 = "?s0\<lparr>s_prods := (s_prods ?s0)[0 := ?p1], s_q := (s_q ?s0)[0 := q0]\<rparr>"
  have ps: "prod_step E nkq ?p (s_q ?s0) = Some (?p1, (s_q ?s0)[0 := q0])"
    using p ts by (simp add: prod_step_def)
  have pr0: "0 < length (s_prods ?s0)" using n by simp
  have st1: "step L E nkq ?s0 ?s1" by (rule prod0_step [OF pr0 ps])
  \<comment> \<open>and then the rest of the ring\<close>
  have "\<exists>ps qs. run L E nkq ?s1 (?s1\<lparr>s_prods := ps, s_q := qs\<rparr>) \<and>
           length ps = length (s_prods ?s1) \<and> length qs = length (s_q ?s1) \<and>
           p_loc (ps ! 0) = PScan 0 \<and>
           (\<forall>i<nat nkq. kq_qstate (qs ! i) = (if i = 0 then KQDRAINING else KQFULL))"
  proof (rule fill_rest_run [OF refl, where j = 1])
    show "(1::nat) \<le> 1" by simp
    show "1 \<le> nat nkq" using n2 by simp
    show "2 \<le> nkq" by (rule n2)
    show "0 < length (s_prods ?s1)" using n by simp
    show "nat nkq \<le> length (s_q ?s1)" using ql by simp
    show "p_loc (s_prods ?s1 ! 0) = PScan (int 1 mod nkq)" using n n2 by simp
    show "\<forall>i<nat nkq. kq_qstate (s_q ?s1 ! i) =
        (if i = 0 then KQDRAINING else if i < 1 then KQFULL else KQEMPTY)"
    proof (intro allI impI)
      fix i assume i: "i < nat nkq"
      show "kq_qstate (s_q ?s1 ! i) =
        (if i = 0 then KQDRAINING else if i < 1 then KQFULL else KQEMPTY)"
      proof (cases "i = 0")
        case True
        have "0 < length (c_q ?c)" using P(4) len by (simp add: MAX_NUMKQ_def MAX_THREADS_def)
        then show ?thesis using True q0 by simp
      next
        case False
        then have "kq_qstate (s_q ?s0 ! i) = KQEMPTY" using qj [of i] i by simp
        then show ?thesis using False by simp
      qed
    qed
  qed
  then obtain ps qs where r: "run L E nkq ?s1 (?s1\<lparr>s_prods := ps, s_q := qs\<rparr>)"
      "length ps = n" "length qs = length (c_q ?c)" "p_loc (ps ! 0) = PScan 0"
      "\<forall>i<nat nkq. kq_qstate (qs ! i) = (if i = 0 then KQDRAINING else KQFULL)"
    by auto
  let ?s2 = "?s0\<lparr>s_prods := ps, s_q := qs\<rparr>"
  have e: "?s1\<lparr>s_prods := ps, s_q := qs\<rparr> = ?s2" by simp
  have r2: "run L E nkq ?s0 ?s2" using run_step [OF st1 r(1)] unfolding e .
  \<comment> \<open>\<open>ssh_aes_ctr_init\<close> returns\<close>
  have "0 < nat nkq" using n2 by simp
  then have "kq_qstate (qs ! 0) = KQDRAINING" using r(5) by simp
  then have cs: "cons_step L nkq ?s2 = Some (?s2\<lparr>s_cons := CIdle\<rparr>)"
    by (simp add: cons_step_def)
  have r3: "run L E nkq ?s0 (?s2\<lparr>s_cons := CIdle\<rparr>)"
    by (rule run_snoc [OF r2 cons_acts [OF cs]])
  have "canon nkq (?s2\<lparr>s_cons := CIdle\<rparr>) 0"
    unfolding canon_def using r(2-5) n n2 ql P(5) by simp
  moreover have "s_ridx (?s2\<lparr>s_cons := CIdle\<rparr>) = 0" using P(6) by simp
  ultimately show ?thesis using r3 by (intro exI [of _ "?s2\<lparr>s_cons := CIdle\<rparr>"]) simp
qed

lemma loop_test_fields [simp]:
  "s_q (loop_test src len dest r s) = s_q s"
  "s_prods (loop_test src len dest r s) = s_prods s"
  "s_qidx (loop_test src len dest r s) = s_qidx s"
  by (simp_all add: loop_test_def)

lemma canon_frame:
  assumes "canon nkq s c" "s_q s' = s_q s" "s_prods s' = s_prods s" "s_qidx s' = s_qidx s"
  shows "canon nkq s' c"
  using assms by (simp add: canon_def)

lemma loop_test_in_loop:
  assumes "16 * (j + 1) < (2::nat) ^ 64" "0 \<le> r" "r < int KQLEN"
  shows "in_loop j (loop_test src (16 * (j + 1)) dest r s)"
proof -
  have "len_minus_block (16 * (j + 1 - 0)) = 16 * (j + 1 - (0 + 1))"
    by (rule len_minus_block_eq) (use assms(1) in simp_all)
  then have "len_minus_block (16 * (j + 1)) = 16 * j" by simp
  then show ?thesis using assms(2,3) by (simp add: loop_test_def in_loop_def)
qed

subsection \<open>A call can return\<close>

lemma in_loop_frame:
  assumes "s_cons s' = s_cons s" "s_ridx s' = s_ridx s"
  shows "in_loop j s' = in_loop j s"
  unfolding in_loop_def assms ..

lemma succ_index:
  assumes "2 \<le> nkq" "c < nat nkq"
  shows "(int c + 1) mod nkq = int ((c + 1) mod nat nkq)"
    and "(c + 1) mod nat nkq < nat nkq" and "(c + 1) mod nat nkq \<noteq> c"
proof -
  show "(int c + 1) mod nkq = int ((c + 1) mod nat nkq)"
    by (rule nat_int_mod) (use assms(1) in simp)
  show "(c + 1) mod nat nkq < nat nkq" using assms(1) by simp
  have "2 \<le> nat nkq" using assms(1) by simp
  then show "(c + 1) mod nat nkq \<noteq> c"
    unfolding succ_mod_cases [OF assms(2)] by (simp split: if_splits)
qed

lemma block_run_stay:
  assumes cn: "canon nkq s c" and loc: "s_cons s = CLoop src (16 * (j + 1)) dest r"
    and m: "16 * (j + 1) < (2::nat) ^ 64"
    and stay: "(r + 1) mod int KQLEN \<noteq> 0"
  shows "\<exists>s'. run L E nkq s s' \<and> canon nkq s' c \<and> in_loop j s'"
proof -
  let ?r' = "(r + 1) mod int KQLEN"
  let ?s1 = "s\<lparr>s_consumed := s_consumed s + 1\<rparr>"
  let ?dest = "(xor_one_block L dest src (l_keys_addr L (s_qidx s) + AES_BLOCK_SIZE * nat r)
      (kq_keys (s_q s ! nat (s_qidx s)) ! nat r))\<lparr>b_ptr := b_ptr dest + AES_BLOCK_SIZE\<rparr>"
  let ?src = "src\<lparr>b_ptr := b_ptr src + AES_BLOCK_SIZE\<rparr>"
  let ?s' = "loop_test ?src (16 * (j + 1)) ?dest ?r' ?s1"
  have rb: "0 \<le> ?r'" "?r' < int KQLEN" by simp_all
  have cs: "cons_step L nkq s = Some ?s'"
    using loc stay by (simp add: cons_step_def Let_def)
  have "run L E nkq s ?s'" by (rule run_snoc [OF run_nil cons_acts [OF cs]])
  moreover have "canon nkq ?s' c" by (rule canon_frame [OF cn]) simp_all
  moreover have "in_loop j ?s'" by (rule loop_test_in_loop [OF m rb])
  ultimately show ?thesis by blast
qed

lemma block_run_roll:
  assumes cn: "canon nkq s c" and loc: "s_cons s = CLoop src (16 * (j + 1)) dest r"
    and m: "16 * (j + 1) < (2::nat) ^ 64"
    and roll: "(r + 1) mod int KQLEN = 0"
  shows "\<exists>s'. run L E nkq s s' \<and> canon nkq s' ((c + 1) mod nat nkq) \<and> in_loop j s'"
proof -
  define N where "N = nat nkq"
  define c' where "c' = (c + 1) mod N"
  have C: "0 < length (s_prods s)" "2 \<le> nkq" "N \<le> length (s_q s)" "c < N"
    "s_qidx s = int c" "p_loc (s_prods s ! 0) = PScan (int c)"
    and Cst: "\<And>i. i < N \<Longrightarrow> kq_qstate (s_q s ! i) = (if i = c then KQDRAINING else KQFULL)"
    using cn by (simp_all add: canon_def N_def)
  have cN: "c < nat nkq" using C(4) by (simp add: N_def)
  have SI: "(int c + 1) mod nkq = int c'" "c' < N" "c' \<noteq> c"
    unfolding c'_def N_def by (rule succ_index [OF C(2) cN])+
  have cl: "c < length (s_q s)" "c' < length (s_q s)" using C(3) C(4) SI(2) by linarith+
  let ?dest = "(xor_one_block L dest src (l_keys_addr L (s_qidx s) + AES_BLOCK_SIZE * nat r)
      (kq_keys (s_q s ! nat (s_qidx s)) ! nat r))\<lparr>b_ptr := b_ptr dest + AES_BLOCK_SIZE\<rparr>"
  let ?src = "src\<lparr>b_ptr := b_ptr src + AES_BLOCK_SIZE\<rparr>"
  let ?len = "16 * (j + 1)"
  \<comment> \<open>the last block of the queue\<close>
  define s2 where "s2 = s\<lparr>s_consumed := s_consumed s + 1, s_qidx := int c',
      s_cons := CWait ?src ?len ?dest 0 (int c)\<rparr>"
  have cs1: "cons_step L nkq s = Some s2"
    using loc roll by (simp add: cons_step_def Let_def s2_def C(5) SI(1))
  \<comment> \<open>the next queue is full\<close>
  define q3 where "q3 = (s_q s)[c' := (s_q s ! c')\<lparr>kq_qstate := KQDRAINING\<rparr>]"
  define s3 where "s3 = s2\<lparr>s_q := q3, s_cons := CMark ?src ?len ?dest 0 (int c)\<rparr>"
  have full: "kq_qstate (s_q s ! c') = KQFULL" using Cst [OF SI(2)] SI(3) by simp
  have cs2: "cons_step L nkq s2 = Some s3"
    using full by (simp add: cons_step_def Let_def s2_def s3_def q3_def)
  \<comment> \<open>the old queue is released\<close>
  define q4 where "q4 = q3[c := (q3 ! c)\<lparr>kq_qstate := KQEMPTY\<rparr>]"
  define s4 where "s4 = loop_test ?src ?len ?dest 0 (s3\<lparr>s_q := q4\<rparr>)"
  have cs3: "cons_step L nkq s3 = Some s4"
    by (simp add: cons_step_def s3_def s4_def q4_def)
  have r4: "run L E nkq s s4"
    by (rule run_snoc [OF run_snoc [OF run_snoc [OF run_nil cons_acts [OF cs1]]
          cons_acts [OF cs2]] cons_acts [OF cs3]])
  have f4: "s_q s4 = q4" "s_prods s4 = s_prods s" "s_qidx s4 = int c'"
    by (simp_all add: s4_def s3_def s2_def)
  have l4: "length q4 = length (s_q s)" by (simp add: q4_def q3_def)
  have st4: "kq_qstate (q4 ! i) =
      (if i = c then KQEMPTY else if i = c' then KQDRAINING else KQFULL)" if "i < N" for i
    using that Cst [OF that] cl SI(3) by (auto simp: q4_def q3_def nth_list_update)
  have il4: "in_loop j s4"
    unfolding s4_def by (rule loop_test_in_loop [OF m]) (simp_all add: KQLEN_def)
  \<comment> \<open>and the thread waiting for it refills it\<close>
  have pr4: "0 < length (s_prods s4)" using C(1) by (simp add: f4)
  have loc4: "p_loc (s_prods s4 ! 0) = PScan (int c)" using C(6) by (simp add: f4)
  have k4: "nat (int c) < length (s_q s4)" using cl by (simp add: f4 l4)
  have em4: "kq_qstate (s_q s4 ! nat (int c)) = KQEMPTY"
    using st4 [OF C(4)] by (simp add: f4)
  from fill_queue_run [OF pr4 loc4 k4 em4, where L = L and E = E and nkq = nkq]
  obtain ps qs where r: "run L E nkq s4 (s4\<lparr>s_prods := ps, s_q := qs\<rparr>)"
      "length ps = length (s_prods s4)" "p_loc (ps ! 0) = PScan ((int c + 1) mod nkq)"
      "map kq_qstate qs = (map kq_qstate (s_q s4))[c := KQFULL]"
    by auto
  note S = states_of_map [OF r(4)]
  let ?s5 = "s4\<lparr>s_prods := ps, s_q := qs\<rparr>"
  have r5: "run L E nkq s ?s5" by (rule run_trans [OF r(1) r4])
  have st5: "kq_qstate (qs ! i) = (if i = c' then KQDRAINING else KQFULL)" if "i < N" for i
  proof -
    have "i < length (s_q s4)" using that C(3) by (simp add: f4 l4)
    from S(2) [OF this] st4 [OF that] SI(3) show ?thesis by (auto simp: f4)
  qed
  have "canon nkq ?s5 c'"
    unfolding canon_def
    using r(2) r(3) pr4 C(2) C(3) S(1) SI(1) SI(2) st5
    by (simp add: f4 l4 N_def)
  moreover have "in_loop j ?s5" using il4 in_loop_frame [of ?s5 s4 j] by simp
  ultimately show ?thesis using r5 unfolding c'_def N_def by blast
qed

lemma block_run:
  assumes cn: "canon nkq s c" and il: "in_loop (j + 1) s" and m: "16 * (j + 1) < (2::nat) ^ 64"
  shows "\<exists>s' c'. run L E nkq s s' \<and> canon nkq s' c' \<and> in_loop j s'"
proof -
  from il obtain src dest r where loc: "s_cons s = CLoop src (16 * (j + 1)) dest r"
    by (auto simp: in_loop_def split: cloc.splits)
  show ?thesis
  proof (cases "(r + 1) mod int KQLEN = 0")
    case True
    from block_run_roll [OF cn loc m True, where L = L and E = E] show ?thesis by blast
  next
    case False
    from block_run_stay [OF cn loc m False, where L = L and E = E] show ?thesis by blast
  qed
qed

lemma call_run:
  assumes "canon nkq s c" "in_loop j s" "16 * j < (2::nat) ^ 64"
  shows "\<exists>s' c'. run L E nkq s s' \<and> canon nkq s' c' \<and> in_loop 0 s'"
  using assms
proof (induction j arbitrary: s c)
  case 0
  then show ?case using run_nil by blast
next
  case (Suc j)
  have m: "16 * (j + 1) < (2::nat) ^ 64" using Suc.prems(3) by simp
  have "in_loop (j + 1) s" using Suc.prems(2) by simp
  from block_run [OF Suc.prems(1) this m, where L = L and E = E]
  obtain s1 c1 where s1: "run L E nkq s s1" "canon nkq s1 c1" "in_loop j s1" by blast
  have "16 * j < (2::nat) ^ 64" using m by simp
  from Suc.IH [OF s1(2,3) this]
  obtain s' c' where s': "run L E nkq s1 s'" "canon nkq s' c'" "in_loop 0 s'" by blast
  from run_trans [OF s'(1) s1(1)] s'(2,3) show ?case by blast
qed

subsection \<open>The first call can return\<close>

lemma canon_call_returns:
  assumes cn: "canon nkq s c"
    and idle: "s_cons s = CIdle \<or> (\<exists>r d. s_cons s = CReturned r d)"
    and rb: "0 \<le> s_ridx s" "s_ridx s < int KQLEN"
    and m: "16 * m < (2::nat) ^ 64"
  shows "\<exists>s' c' d. run L E nkq (ssh_aes_ctr_enter dest src (16 * m) s) s' \<and> canon nkq s' c' \<and>
           s_cons s' = CReturned 1 d \<and> 0 \<le> s_ridx s' \<and> s_ridx s' < int KQLEN"
proof -
  let ?s = "ssh_aes_ctr_enter dest src (16 * m) s"
  have c: "canon nkq ?s c"
    by (rule canon_frame [OF cn]) (simp_all add: ssh_aes_ctr_enter_def)
  have il: "in_loop m ?s" using rb by (simp add: ssh_aes_ctr_enter_def in_loop_def)
  from call_run [OF c il m, where L = L and E = E]
  obtain s' c' where s': "run L E nkq ?s s'" "canon nkq s' c'" "in_loop 0 s'" by blast
  from s'(3) obtain d where "s_cons s' = CReturned 1 d" "0 \<le> s_ridx s'" "s_ridx s' < int KQLEN"
    by (auto simp: in_loop_def split: cloc.splits)
  with s'(1,2) show ?thesis by blast
qed

lemma first_call_returns:
  assumes "length (c_q c) = nat MAX_NUMKQ" and "length (c_aes_counter c) = 16"
    and "2 \<le> nkq" and "nkq \<le> MAX_NUMKQ" and "0 < n"
    and "len = 16 * m" and "len < 2 ^ 64"
  shows "\<exists>s1 s2 d. run L E nkq (sys_init (seed_ring nkq c) key n) s1 \<and> s_cons s1 = CIdle \<and>
           run L E nkq (ssh_aes_ctr_enter dest src len s1) s2 \<and> s_cons s2 = CReturned 1 d"
proof -
  from init_canon_run [OF assms(1-5), where L = L and E = E and key = key]
  obtain s1 where s1: "run L E nkq (sys_init (seed_ring nkq c) key n) s1" "canon nkq s1 0"
      "s_cons s1 = CIdle" "s_ridx s1 = 0" "s_consumed s1 = 0"
    by blast
  have rb: "0 \<le> s_ridx s1" "s_ridx s1 < int KQLEN" using s1(4) by simp_all
  have idle: "s_cons s1 = CIdle \<or> (\<exists>r d. s_cons s1 = CReturned r d)" using s1(3) by simp
  have m: "16 * m < (2::nat) ^ 64" using assms(6,7) by simp
  from canon_call_returns [OF s1(2) idle rb m, where L = L and E = E and dest = dest and src = src]
  obtain s2 d where "run L E nkq (ssh_aes_ctr_enter dest src (16 * m) s1) s2"
      "s_cons s2 = CReturned 1 d"
    by blast
  then show ?thesis using s1(1,3) assms(6) by auto
qed

subsection \<open>The data of one call on the byte branch\<close>

lemma byte_path_step:
  assumes bp: "byte_path L sb db" and p: "b_ptr src = sb + 16 * k" "b_ptr dest = db + 16 * k"
  shows "\<not> l_unaligned_ok L" "\<not> (4 dvd b_ptr dest \<and> 4 dvd b_ptr src \<and> 4 dvd bufp)"
proof -
  show "\<not> l_unaligned_ok L" using bp by (simp add: byte_path_def)
  have "(4::nat) dvd 16 * k" by simp
  then have "4 dvd sb + 16 * k \<longleftrightarrow> 4 dvd sb" "4 dvd db + 16 * k \<longleftrightarrow> 4 dvd db"
    by (simp_all add: dvd_add_left_iff)
  then show "\<not> (4 dvd b_ptr dest \<and> 4 dvd b_ptr src \<and> 4 dvd bufp)"
    using bp by (auto simp: byte_path_def p)
qed

lemma kblock_keystream:
  assumes "\<And>b. length b = 16 \<Longrightarrow> length (E key b) = 16" "length iv = 16"
  shows "kblock E key iv n = keystream_block E key iv n"
  using assms(1) [of "ctr_plus iv n"] assms(2)
  by (simp add: kblock_def keystream_block_def xor_block_mynull)

lemma byte_next:
  assumes len: "length msg = 16 * m" and k: "k < m"
    and da: "byte_after E key iv p0 sb db msg d0 k src dest s"
    and bl: "length (keystream_block E key iv (p0 + j)) = 16"
    and j: "k = j + 1 \<or> k = 0"
  shows "byte_after E key iv p0 sb db msg d0 (k + 1)
           (src\<lparr>b_ptr := b_ptr src + AES_BLOCK_SIZE\<rparr>)
           ((write_block dest (b_base dest)
               (xor_block (read_block src (b_base src)) (keystream_block E key iv (p0 + k))))
              \<lparr>b_ptr := b_ptr dest + AES_BLOCK_SIZE\<rparr>)
           (s\<lparr>s_consumed := s_consumed s + 1\<rparr>)"
proof -
  have d: "b_base src = sb" "b_base dest = db" "b_mem src = msg"
    "b_ptr src = sb + 16 * k" "b_ptr dest = db + 16 * k"
    "b_mem dest = byte_out E key iv p0 msg d0 k" "s_consumed s = p0 + k"
    using da by (simp_all add: byte_after_def)
  have rb: "read_block src (b_base src) = take AES_BLOCK_SIZE msg"
    by (simp add: read_block_def d)
  have lblk: "length (take AES_BLOCK_SIZE msg) = 16" using len k by (simp add: AES_BLOCK_SIZE_def)
  have dr: "drop AES_BLOCK_SIZE (b_mem dest) = drop AES_BLOCK_SIZE d0"
  proof (cases "k = 0")
    case True
    then show ?thesis by (simp add: d(6) byte_out_def)
  next
    case False
    then have kj: "k = j + 1" using j by simp
    have "length (xor_block (take AES_BLOCK_SIZE msg) (keystream_block E key iv (p0 + j))) = 16"
      using lblk bl by (simp add: xor_block_def)
    then show ?thesis by (simp add: d(6) byte_out_def kj AES_BLOCK_SIZE_def)
  qed
  have "b_mem (write_block dest (b_base dest)
      (xor_block (take AES_BLOCK_SIZE msg) (keystream_block E key iv (p0 + k)))) =
      byte_out E key iv p0 msg d0 (k + 1)"
    by (simp add: write_block_def dr byte_out_def)
  moreover have "b_base (write_block dest (b_base dest) X) = db" for X
    by (simp add: write_block_def d)
  ultimately show ?thesis
    unfolding byte_after_def rb using d(1,3,4,5,7) by (simp add: AES_BLOCK_SIZE_def)
qed

subsection \<open>The byte branch keeps its invariant\<close>

lemma byte_inv_frame:
  assumes "s_cons s' = s_cons s" "s_consumed s' = s_consumed s"
  shows "byte_inv E key iv p0 sb db msg d0 m s' = byte_inv E key iv p0 sb db msg d0 m s"
  unfolding byte_inv_def byte_after_def assms ..

lemma loop_test_byte_inv:
  assumes k: "k < m" and m: "16 * m < (2::nat) ^ 64"
    and da: "byte_after E key iv p0 sb db msg d0 (k + 1) src dest s"
  shows "byte_inv E key iv p0 sb db msg d0 m (loop_test src (16 * (m - k)) dest r s)"
proof (cases "k + 1 < m")
  case True
  then have nz: "len_minus_block (16 * (m - k)) \<noteq> 0"
    using len_minus_block_eq [OF k m] by simp
  let ?s' = "s\<lparr>s_cons := CLoop src (len_minus_block (16 * (m - k))) dest r\<rparr>"
  have da': "byte_after E key iv p0 sb db msg d0 (k + 1) src dest ?s'"
    using da by (simp add: byte_after_def)
  have "\<exists>k'<m. len_minus_block (16 * (m - k)) = 16 * (m - k') \<and>
      byte_after E key iv p0 sb db msg d0 k' src dest ?s'"
    using True da' len_minus_block_eq [OF k m] by (intro exI [of _ "k + 1"]) simp
  then show ?thesis using nz by (simp add: loop_test_def byte_inv_def)
next
  case False
  then have mk: "m = k + 1" using k by simp
  then have z: "len_minus_block (16 * (m - k)) = 0"
    using len_minus_block_eq [OF k m] by simp
  have "b_mem dest = byte_out E key iv p0 msg d0 m" "s_consumed s = p0 + m"
    using da mk by (simp_all add: byte_after_def)
  then show ?thesis using z by (simp add: loop_test_def byte_inv_def)
qed

lemma cons_step_byte_inv:
  assumes inv: "ring_inv E key iv nkq s" and di: "byte_inv E key iv p0 sb db msg d0 m s"
    and m: "16 * m < (2::nat) ^ 64" and len: "length msg = 16 * m"
    and bp: "byte_path L sb db"
    and blk: "\<And>b. length b = 16 \<Longrightarrow> length (E key b) = 16"
    and step: "cons_step L nkq s = Some s'"
  shows "byte_inv E key iv p0 sb db msg d0 m s'"
proof (cases "s_cons s")
  case CInit
  then show ?thesis using di by (simp add: byte_inv_def)
next
  case CIdle
  then show ?thesis using di by (simp add: byte_inv_def)
next
  case (CReturned rv out)
  then show ?thesis using step by (simp add: cons_step_def)
next
  case (CLoop src len' dest r)
  with di obtain k where k: "k < m" "len' = 16 * (m - k)"
      "byte_after E key iv p0 sb db msg d0 k src dest s"
    by (auto simp: byte_inv_def)
  have d: "b_ptr src = sb + 16 * k" "b_ptr dest = db + 16 * k" "s_consumed s = p0 + k"
    using k(3) by (simp_all add: byte_after_def)
  let ?r' = "(r + 1) mod int KQLEN"
  let ?s1 = "s\<lparr>s_consumed := s_consumed s + 1\<rparr>"
  let ?bufp = "l_keys_addr L (s_qidx s) + AES_BLOCK_SIZE * nat r"
  let ?buf = "kq_keys (s_q s ! nat (s_qidx s)) ! nat r"
  let ?dest = "(xor_one_block L dest src ?bufp ?buf)\<lparr>b_ptr := b_ptr dest + AES_BLOCK_SIZE\<rparr>"
  let ?src = "src\<lparr>b_ptr := b_ptr src + AES_BLOCK_SIZE\<rparr>"
  note il = ring_invD(4) [OF inv]
  have ks: "kblock E key iv n = keystream_block E key iv n" for n
    by (rule kblock_keystream [where E = E and key = key, OF blk il])
  have buf: "?buf = keystream_block E key iv (p0 + k)"
    using consumer_key [OF inv CLoop] by (simp add: d(3) ks)
  have bl: "length (keystream_block E key iv n) = 16" for n
    using kblock_length [where E = E and key = key, OF blk il, of n] by (simp add: ks)
  have x: "xor_one_block L dest src ?bufp ?buf =
      write_block dest (b_base dest)
        (xor_block (read_block src (b_base src)) (keystream_block E key iv (p0 + k)))"
    unfolding buf by (rule xor_one_block_byte [OF byte_path_step [OF bp d(1,2)]])
  have j: "k = (k - 1) + 1 \<or> k = 0" by auto
  have da1: "byte_after E key iv p0 sb db msg d0 (k + 1) ?src ?dest ?s1"
    unfolding x by (rule byte_next [OF len k(1) k(3) bl j])
  show ?thesis
  proof (cases "?r' = 0")
    case True
    then have s': "s' = ?s1\<lparr>s_qidx := (s_qidx s + 1) mod nkq,
        s_cons := CWait ?src len' ?dest ?r' (s_qidx s)\<rparr>"
      using step CLoop by (simp add: cons_step_def Let_def)
    have "byte_after E key iv p0 sb db msg d0 (k + 1) ?src ?dest s'"
      using da1 by (simp add: byte_after_def s')
    then have "\<exists>k'<m. len' = 16 * (m - k') \<and>
        byte_after E key iv p0 sb db msg d0 (k' + 1) ?src ?dest s'"
      using k(1,2) by (intro exI [of _ k]) simp
    then show ?thesis by (simp add: byte_inv_def s')
  next
    case False
    then have s': "s' = loop_test ?src len' ?dest ?r' ?s1"
      using step CLoop by (simp add: cons_step_def Let_def)
    from loop_test_byte_inv [OF k(1) m da1]
    show ?thesis unfolding s' k(2) .
  qed
next
  case (CWait src len' dest r oldq)
  with di obtain k where k: "k < m" "len' = 16 * (m - k)"
      "byte_after E key iv p0 sb db msg d0 (k + 1) src dest s"
    by (auto simp: byte_inv_def)
  from step CWait have s':
    "s' = s\<lparr>s_q := (s_q s)[nat (s_qidx s) := (s_q s ! nat (s_qidx s))\<lparr>kq_qstate := KQDRAINING\<rparr>],
            s_cons := CMark src len' dest r oldq\<rparr>"
    by (auto simp: cons_step_def Let_def split: if_splits)
  have "byte_after E key iv p0 sb db msg d0 (k + 1) src dest s'"
    using k(3) by (simp add: byte_after_def s')
  then have "\<exists>k'<m. len' = 16 * (m - k') \<and>
      byte_after E key iv p0 sb db msg d0 (k' + 1) src dest s'"
    using k(1,2) by (intro exI [of _ k]) simp
  then show ?thesis by (simp add: byte_inv_def s')
next
  case (CMark src len' dest r oldq)
  with di obtain k where k: "k < m" "len' = 16 * (m - k)"
      "byte_after E key iv p0 sb db msg d0 (k + 1) src dest s"
    by (auto simp: byte_inv_def)
  let ?s1 = "s\<lparr>s_q := (s_q s)[nat oldq := (s_q s ! nat oldq)\<lparr>kq_qstate := KQEMPTY\<rparr>]\<rparr>"
  have s': "s' = loop_test src len' dest r ?s1"
    using step CMark by (simp add: cons_step_def)
  have "byte_after E key iv p0 sb db msg d0 (k + 1) src dest ?s1"
    using k(3) by (simp add: byte_after_def)
  from loop_test_byte_inv [OF k(1) m this]
  show ?thesis unfolding s' k(2) .
qed

lemma step_byte_inv:
  assumes "step L E nkq s s'" "ring_inv E key iv nkq s" "byte_inv E key iv p0 sb db msg d0 m s"
    "16 * m < (2::nat) ^ 64" "length msg = 16 * m" "byte_path L sb db"
    "\<And>b. length b = 16 \<Longrightarrow> length (E key b) = 16"
  shows "byte_inv E key iv p0 sb db msg d0 m s'"
  using assms(1)
proof (cases rule: step.cases)
  case (prod_acts i p' qs')
  then have "byte_inv E key iv p0 sb db msg d0 m s' = byte_inv E key iv p0 sb db msg d0 m s"
    by (intro byte_inv_frame) simp_all
  then show ?thesis using assms(3) by simp
next
  case cons_acts
  from cons_step_byte_inv [OF assms(2-7) this] show ?thesis .
qed

lemma run_byte_inv:
  assumes "run L E nkq s s'" "ring_inv E key iv nkq s" "byte_inv E key iv p0 sb db msg d0 m s"
    "16 * m < (2::nat) ^ 64" "length msg = 16 * m" "byte_path L sb db"
    "\<And>b. length b = 16 \<Longrightarrow> length (E key b) = 16"
  shows "byte_inv E key iv p0 sb db msg d0 m s'"
  using assms
proof (induction rule: run.induct)
  case (run_nil s)
  then show ?case by simp
next
  case (run_snoc s s' s'')
  have i: "ring_inv E key iv nkq s'" by (rule run_inv [OF run_snoc.hyps(1) run_snoc.prems(1)])
  have d: "byte_inv E key iv p0 sb db msg d0 m s'" using run_snoc by simp
  from step_byte_inv [OF run_snoc.hyps(2) i d run_snoc.prems(3-6)] show ?case .
qed

lemma enter_byte_inv:
  shows "byte_inv E key iv (s_consumed s) (b_base src) (b_base dest) (b_mem src) (b_mem dest) m
           (ssh_aes_ctr_enter dest src (16 * m) s)"
proof (cases "m = 0")
  case True
  then show ?thesis by (simp add: ssh_aes_ctr_enter_def byte_inv_def byte_out_def)
next
  case False
  let ?src = "src\<lparr>b_ptr := b_base src\<rparr>"
  let ?dest = "dest\<lparr>b_ptr := b_base dest\<rparr>"
  let ?s' = "s\<lparr>s_cons := CLoop ?src (16 * m) ?dest (s_ridx s)\<rparr>"
  have "byte_after E key iv (s_consumed s) (b_base src) (b_base dest) (b_mem src) (b_mem dest)
      0 ?src ?dest ?s'"
    by (simp add: byte_after_def byte_out_def)
  then have "\<exists>k<m. 16 * m = 16 * (m - k) \<and>
      byte_after E key iv (s_consumed s) (b_base src) (b_base dest) (b_mem src) (b_mem dest)
        k ?src ?dest ?s'"
    using False by (intro exI [of _ 0]) simp
  then show ?thesis using False by (simp add: ssh_aes_ctr_enter_def byte_inv_def)
qed

subsection \<open>The output of a call\<close>

lemma word_call_output:
  assumes "length (c_q c) = nat MAX_NUMKQ" and "length (c_aes_counter c) = 16"
    and "\<forall>j<nat nkq. length (kq_keys (c_q c ! j)) = KQLEN"
    and "2 \<le> nkq" and "nkq \<le> MAX_NUMKQ"
    and "\<forall>b. length b = 16 \<longrightarrow> length (E key b) = 16"
    and "reachable L E nkq (sys_init (seed_ring nkq c) key n) s"
    and "s_cons s = CIdle \<or> (\<exists>r d. s_cons s = CReturned r d)"
    and "length (b_mem src) = 16 * m" and "length (b_mem dest) = length (b_mem src)"
    and "16 * m < (2::nat) ^ 64"
    and "word_path L nkq (b_base src) (b_base dest)"
    and "run L E nkq (ssh_aes_ctr_enter dest src (16 * m) s) s'"
    and "s_cons s' = CReturned r out"
  shows "r = 1" and "out = ctr_crypt E key (c_aes_counter c) (s_consumed s) (b_mem src)"
    and "s_consumed s' = s_consumed s + m"
proof -
  let ?iv = "c_aes_counter c"
  let ?s0 = "sys_init (seed_ring nkq c) key n"
  have "ring_inv E key ?iv nkq ?s0"
    using assms(1-5) by (intro init_inv) simp_all
  then have inv: "ring_inv E key ?iv nkq s" by (rule reachable_inv [OF assms(7)])
  then have inv': "ring_inv E key ?iv nkq (ssh_aes_ctr_enter dest src (16 * m) s)"
    using assms(8) by (rule enter_inv)
  have blk: "length (E key b) = 16" if "length b = 16" for b using assms(6) that by simp
  have "data_inv E key ?iv (s_consumed s) (b_base src) (b_base dest) (b_mem src) m
      (ssh_aes_ctr_enter dest src (16 * m) s)"
    by (rule enter_data_inv [OF assms(9,10)])
  from run_data_inv [OF assms(13) inv' this assms(11) assms(9) assms(12) blk]
  have "data_inv E key ?iv (s_consumed s) (b_base src) (b_base dest) (b_mem src) m s'" .
  then show "r = 1" "out = ctr_crypt E key ?iv (s_consumed s) (b_mem src)"
    "s_consumed s' = s_consumed s + m"
    using assms(14) by (simp_all add: data_inv_def)
qed

lemma byte_call_output:
  assumes "length (c_q c) = nat MAX_NUMKQ" and "length (c_aes_counter c) = 16"
    and "\<forall>j<nat nkq. length (kq_keys (c_q c ! j)) = KQLEN"
    and "2 \<le> nkq" and "nkq \<le> MAX_NUMKQ"
    and "\<forall>b. length b = 16 \<longrightarrow> length (E key b) = 16"
    and "reachable L E nkq (sys_init (seed_ring nkq c) key n) s"
    and "s_cons s = CIdle \<or> (\<exists>r d. s_cons s = CReturned r d)"
    and "length (b_mem src) = 16 * m"
    and "16 * m < (2::nat) ^ 64"
    and "byte_path L (b_base src) (b_base dest)"
    and "run L E nkq (ssh_aes_ctr_enter dest src (16 * m) s) s'"
    and "s_cons s' = CReturned r out"
  shows "r = 1"
    and "out = byte_out E key (c_aes_counter c) (s_consumed s) (b_mem src) (b_mem dest) m"
proof -
  let ?iv = "c_aes_counter c"
  let ?s0 = "sys_init (seed_ring nkq c) key n"
  have "ring_inv E key ?iv nkq ?s0"
    using assms(1-5) by (intro init_inv) simp_all
  then have inv: "ring_inv E key ?iv nkq s" by (rule reachable_inv [OF assms(7)])
  then have inv': "ring_inv E key ?iv nkq (ssh_aes_ctr_enter dest src (16 * m) s)"
    using assms(8) by (rule enter_inv)
  have blk: "length (E key b) = 16" if "length b = 16" for b using assms(6) that by simp
  have "byte_inv E key ?iv (s_consumed s) (b_base src) (b_base dest) (b_mem src) (b_mem dest) m
      (ssh_aes_ctr_enter dest src (16 * m) s)"
    by (rule enter_byte_inv)
  from run_byte_inv [OF assms(12) inv' this assms(10) assms(9) assms(11) blk]
  have "byte_inv E key ?iv (s_consumed s) (b_base src) (b_base dest) (b_mem src) (b_mem dest) m s'" .
  then show "r = 1"
    "out = byte_out E key ?iv (s_consumed s) (b_mem src) (b_mem dest) m"
    using assms(13) by (simp_all add: byte_inv_def)
qed

lemma be_val_zeros: "be_val (replicate n 0) = 0"
proof (induction n)
  case 0
  show ?case by simp
next
  case (Suc n)
  have "replicate (Suc n) (0::u8) = replicate n 0 @ [0]" by (simp add: replicate_append_same)
  then show ?case using Suc by (simp only: be_val_snoc) simp
qed

lemma be_bytes_zero: "be_bytes n 0 = replicate n 0"
  by (induction n) (simp_all add: replicate_append_same)

lemma be_bytes_one: "be_bytes (Suc n) 1 = replicate n 0 @ [1]"
  by (simp add: be_bytes_zero)

lemma ex_iv_plus_1: "ctr_plus ex_iv 1 = replicate 15 0 @ [1]"
proof -
  have "ctr_plus ex_iv 1 = be_bytes 16 1"
    by (simp add: ctr_plus_def ex_iv_def be_val_zeros)
  also have "\<dots> = be_bytes (Suc 15) 1" by simp
  also have "\<dots> = replicate 15 0 @ [1]" by (rule be_bytes_one)
  finally show ?thesis .
qed

lemma ex_E_blocks: "\<forall>b. length b = 16 \<longrightarrow> length (ex_E ex_key b) = 16"
  by (simp add: ex_E_def ex_key_def)

lemma ex_keystream_0:
  "keystream_block ex_E ex_key ex_iv 0 = [1, 2, 3, 4, 5, 6, 7, 8, 9, 10, 11, 12, 13, 14, 15, 16]"
  by (simp add: keystream_block_def ex_E_def ex_iv_def ex_key_def map2_xor_zero)

lemma ex_keystream_1:
  "keystream_block ex_E ex_key ex_iv 1 = [1, 2, 3, 4, 5, 6, 7, 8, 9, 10, 11, 12, 13, 14, 15, 17]"
  unfolding keystream_block_def ex_iv_plus_1
  by (simp add: ex_E_def ex_key_def numeral_eq_Suc)

subsection \<open>Refinement of single-threaded CTR\<close>

text \<open>
  On the word branches the transform refines single-threaded CTR. After
  \<open>ssh_aes_ctr_init\<close> has seeded the ring (\<open>numkq\<close> queues, \<open>2 \<le> numkq \<le> 24\<close>) and created
  \<open>n\<close> producer threads, whatever the producers and the caller have done since, in any
  interleaving: when the build has \<open>CIPHER_UNALIGNED_OK\<close>, or \<open>src\<close>, \<open>dest\<close> and the key
  arrays are 4-byte aligned, a call of \<open>ssh_aes_ctr\<close> on a message of \<open>m\<close> whole blocks
  that returns, returns 1 and has written the output of the reference \<open>ctr_crypt\<close> under
  the same key and IV, continuing the keystream at the number of blocks transformed by
  the earlier calls: block \<open>i\<close> of the message is XORed with \<open>E key (IV + (consumed + i))\<close>,
  the IV read as a 16-byte big-endian counter, and the call uses exactly \<open>m\<close> keystream
  blocks. For the first call after initialisation that number is 0. And when at least
  one thread was created the first call does return under some schedule, with that
  output. The length is not bounded by a number of ring rotations, only by \<open>size_t\<close>.
\<close>

theorem ssh_aes_ctr_word_paths_refine_ctr_crypt:
  assumes "length (c_q c) = nat MAX_NUMKQ" and "length (c_aes_counter c) = 16"
    and "\<forall>j<nat nkq. length (kq_keys (c_q c ! j)) = KQLEN"
    and "2 \<le> nkq" and "nkq \<le> MAX_NUMKQ"
    and "\<forall>b. length b = 16 \<longrightarrow> length (E key b) = 16"
    and "reachable L E nkq (sys_init (seed_ring nkq c) key n) s"
    and "s_cons s = CIdle \<or> (\<exists>r d. s_cons s = CReturned r d)"
    and "length (b_mem src) = 16 * m" and "length (b_mem dest) = length (b_mem src)"
    and "16 * m < (2::nat) ^ 64"
    and "word_path L nkq (b_base src) (b_base dest)"
    and "run L E nkq (ssh_aes_ctr_enter dest src (16 * m) s) s'"
    and "s_cons s' = CReturned r out"
  shows "r = 1 \<and>
         out = ctr_crypt E key (c_aes_counter c) (s_consumed s) (b_mem src) \<and>
         s_consumed s' = s_consumed s + m \<and>
         (run L E nkq (sys_init (seed_ring nkq c) key n) s \<longrightarrow> s_consumed s = 0) \<and>
         (0 < n \<longrightarrow>
            (\<exists>s1 s2. run L E nkq (sys_init (seed_ring nkq c) key n) s1 \<and> s_cons s1 = CIdle \<and>
               run L E nkq (ssh_aes_ctr_enter dest src (16 * m) s1) s2 \<and>
               s_cons s2 = CReturned 1 (ctr_crypt E key (c_aes_counter c) 0 (b_mem src))))"
proof -
  let ?iv = "c_aes_counter c"
  let ?s0 = "sys_init (seed_ring nkq c) key n"
  note res = word_call_output [OF assms]
  have first: "s_consumed s = 0" if "run L E nkq ?s0 s" for s
    using run_before_call [OF that] by simp
  have ex: "\<exists>s1 s2. run L E nkq ?s0 s1 \<and> s_cons s1 = CIdle \<and>
               run L E nkq (ssh_aes_ctr_enter dest src (16 * m) s1) s2 \<and>
               s_cons s2 = CReturned 1 (ctr_crypt E key ?iv 0 (b_mem src))" if n: "0 < n"
  proof -
    from first_call_returns [OF assms(1,2,4,5) n refl assms(11),
        where L = L and E = E and key = key and dest = dest and src = src]
    obtain s1 s2 d where r: "run L E nkq ?s0 s1" "s_cons s1 = CIdle"
        "run L E nkq (ssh_aes_ctr_enter dest src (16 * m) s1) s2" "s_cons s2 = CReturned 1 d"
      by blast
    have idle: "s_cons s1 = CIdle \<or> (\<exists>r d. s_cons s1 = CReturned r d)" using r(2) by simp
    from word_call_output(2) [OF assms(1-6) run_reachable [OF r(1)] idle assms(9-12) r(3,4)]
    have "d = ctr_crypt E key ?iv 0 (b_mem src)" using first [OF r(1)] by simp
    then show ?thesis using r by blast
  qed
  show ?thesis using res first ex by blast
qed

lemma ex_shape:
  "length (c_q ex_c) = nat MAX_NUMKQ" "length (c_aes_counter ex_c) = 16"
  "\<forall>j<nat 8. length (kq_keys (c_q ex_c ! j)) = KQLEN" "(2::int) \<le> 8" "8 \<le> MAX_NUMKQ"
  by (simp_all add: ex_c_def ex_kq_def ex_iv_def MAX_NUMKQ_def MAX_THREADS_def)

lemma ex_byte_path_output:
  assumes "run ex_L32 ex_E 8 (sys_init (seed_ring 8 ex_c) ex_key 1) s" and "s_cons s = CIdle"
    and "run ex_L32 ex_E 8 (ssh_aes_ctr_enter ex_dest ex_src 32 s) s'"
    and "s_cons s' = CReturned r out"
  shows "r = 1 \<and>
         out = [0x10, 0x13, 0x12, 0x15, 0x14, 0x17, 0x16, 0x19,
                0x18, 0x1b, 0x1a, 0x1d, 0x1c, 0x1f, 0x1e, 0x00] @ replicate 16 0xee"
proof -
  have idle: "s_cons s = CIdle \<or> (\<exists>r d. s_cons s = CReturned r d)" using assms(2) by simp
  have l: "length (b_mem ex_src) = 16 * 2" "16 * 2 < (2::nat) ^ 64"
    by (simp_all add: ex_src_def)
  have bp: "byte_path ex_L32 (b_base ex_src) (b_base ex_dest)"
    by (simp add: byte_path_def ex_L32_def ex_src_def ex_dest_def)
  have r: "run ex_L32 ex_E 8 (ssh_aes_ctr_enter ex_dest ex_src (16 * 2) s) s'"
    using assms(3) by simp
  have c0: "s_consumed s = 0" using run_before_call [OF assms(1)] by simp
  note B = byte_call_output [OF ex_shape ex_E_blocks run_reachable [OF assms(1)] idle l bp r assms(4)]
  have "out = byte_out ex_E ex_key ex_iv 0 (replicate 32 0x11) (replicate 32 0xee) 2"
    using B(2) by (simp add: c0 ex_c_def ex_src_def ex_dest_def)
  also have "\<dots> = xor_block (replicate 16 0x11) (keystream_block ex_E ex_key ex_iv 1) @
      replicate 16 0xee"
    by (simp add: byte_out_def AES_BLOCK_SIZE_def)
  also have "xor_block (replicate 16 0x11) (keystream_block ex_E ex_key ex_iv 1) =
      [0x10, 0x13, 0x12, 0x15, 0x14, 0x17, 0x16, 0x19, 0x18, 0x1b, 0x1a, 0x1d, 0x1c, 0x1f, 0x1e, 0x00]"
    unfolding ex_keystream_1 by (simp add: xor_block_def numeral_eq_Suc)
  finally show ?thesis using B(1) by simp
qed

lemma ex_reference_output:
  "ctr_crypt ex_E ex_key ex_iv 0 (replicate 32 0x11) =
     [0x10, 0x13, 0x12, 0x15, 0x14, 0x17, 0x16, 0x19,
      0x18, 0x1b, 0x1a, 0x1d, 0x1c, 0x1f, 0x1e, 0x01,
      0x10, 0x13, 0x12, 0x15, 0x14, 0x17, 0x16, 0x19,
      0x18, 0x1b, 0x1a, 0x1d, 0x1c, 0x1f, 0x1e, 0x00]"
proof -
  let ?a = "replicate 16 (0x11 :: u8)"
  have "replicate 32 (0x11 :: u8) = ?a @ ?a" by (simp add: replicate_add [symmetric])
  then have "ctr_crypt ex_E ex_key ex_iv 0 (replicate 32 0x11) =
      ctr_crypt ex_E ex_key ex_iv 0 ?a @ ctr_crypt ex_E ex_key ex_iv (0 + 1) ?a"
    using ctr_crypt_append [of ?a 1 ex_E ex_key ex_iv 0 ?a] by simp
  also have "ctr_crypt ex_E ex_key ex_iv 0 ?a = xor_block ?a (keystream_block ex_E ex_key ex_iv 0)"
    by (rule ctr_crypt_block) simp_all
  also have "ctr_crypt ex_E ex_key ex_iv (0 + 1) ?a =
      xor_block ?a (keystream_block ex_E ex_key ex_iv 1)"
    using ctr_crypt_block [of ?a ex_E ex_key ex_iv 1] by simp
  finally show ?thesis
    unfolding ex_keystream_0 ex_keystream_1 by (simp add: xor_block_def numeral_eq_Suc)
qed

text \<open>
  Claim C1. The claim fails on the byte-by-byte branch of \<open>ssh_aes_ctr\<close>. On a build
  without \<open>CIPHER_UNALIGNED_OK\<close> (\<open>ex_L32\<close>), with \<open>src\<close> at the odd address \<open>0x2001\<close>, a
  message of two blocks (32 bytes \<open>0x11\<close>), key \<open>ex_key\<close> and a zero IV: the call returns
  1, and the destination (32 bytes \<open>0xee\<close> before the call) holds the first block of
  the message XORed with keystream block 1 in its first 16 bytes and is unwritten in
  its last 16 bytes, where the reference \<open>ctr_crypt\<close> has block 0 XORed with keystream
  block 0 followed by block 1 XORed with keystream block 1. The branch indexes the
  parameters \<open>dest\<close> and \<open>src\<close>, which do not move, where the word branches use \<open>destp\<close> and
  \<open>srcp\<close>. On the word branches the claim holds
  (\<open>ssh_aes_ctr_word_paths_refine_ctr_crypt\<close>).
\<close>

theorem ssh_aes_ctr_byte_path_diverges:
  "(\<exists>s s'. run ex_L32 ex_E 8 (sys_init (seed_ring 8 ex_c) ex_key 1) s \<and> s_cons s = CIdle \<and>
      run ex_L32 ex_E 8 (ssh_aes_ctr_enter ex_dest ex_src 32 s) s' \<and>
      s_cons s' = CReturned 1
        ([0x10, 0x13, 0x12, 0x15, 0x14, 0x17, 0x16, 0x19,
          0x18, 0x1b, 0x1a, 0x1d, 0x1c, 0x1f, 0x1e, 0x00] @ replicate 16 0xee)) \<and>
   ctr_crypt ex_E ex_key (c_aes_counter ex_c) 0 (b_mem ex_src) =
     [0x10, 0x13, 0x12, 0x15, 0x14, 0x17, 0x16, 0x19,
      0x18, 0x1b, 0x1a, 0x1d, 0x1c, 0x1f, 0x1e, 0x01,
      0x10, 0x13, 0x12, 0x15, 0x14, 0x17, 0x16, 0x19,
      0x18, 0x1b, 0x1a, 0x1d, 0x1c, 0x1f, 0x1e, 0x00]"
proof -
  have "(32::nat) = 16 * 2" "(32::nat) < 2 ^ 64" by simp_all
  from first_call_returns [OF ex_shape(1,2,4,5) _ this,
      where n = 1 and L = ex_L32 and E = ex_E and key = ex_key and dest = ex_dest and src = ex_src]
  obtain s s' d where r: "run ex_L32 ex_E 8 (sys_init (seed_ring 8 ex_c) ex_key 1) s"
      "s_cons s = CIdle" "run ex_L32 ex_E 8 (ssh_aes_ctr_enter ex_dest ex_src 32 s) s'"
      "s_cons s' = CReturned 1 d"
    by auto
  from ex_byte_path_output [OF r]
  have "s_cons s' = CReturned 1
      ([0x10, 0x13, 0x12, 0x15, 0x14, 0x17, 0x16, 0x19,
        0x18, 0x1b, 0x1a, 0x1d, 0x1c, 0x1f, 0x1e, 0x00] @ replicate 16 0xee)"
    using r(4) by simp
  with r(1-3) have "\<exists>s s'. run ex_L32 ex_E 8 (sys_init (seed_ring 8 ex_c) ex_key 1) s \<and>
      s_cons s = CIdle \<and>
      run ex_L32 ex_E 8 (ssh_aes_ctr_enter ex_dest ex_src 32 s) s' \<and>
      s_cons s' = CReturned 1
        ([0x10, 0x13, 0x12, 0x15, 0x14, 0x17, 0x16, 0x19,
          0x18, 0x1b, 0x1a, 0x1d, 0x1c, 0x1f, 0x1e, 0x00] @ replicate 16 0xee)"
    by (intro exI [of _ s] exI [of _ s'] conjI)
  moreover have "ctr_crypt ex_E ex_key (c_aes_counter ex_c) 0 (b_mem ex_src) =
      ctr_crypt ex_E ex_key ex_iv 0 (replicate 32 0x11)"
    by (simp add: ex_c_def ex_src_def)
  ultimately show ?thesis unfolding ex_reference_output by (intro conjI)
qed

end
